(* ===== verification/Prelude.thy ===== *)
theory Prelude
  imports Main "HOL-Library.Word"
begin

text \<open>
  Shared vocabulary of the development: the machine types of the C++ sources, the values
  that stand for thrown exceptions, the sequencing operator of fallible code, bounds-checked
  access to the bytes of a \<open>std::vector<char>\<close>, and the generic facts on words and lists that
  the component theories use.
\<close>

unbundle bit_operations_syntax

section \<open>Machine types\<close>

type_synonym size_t = "64 word"
type_synonym u64 = "64 word"
type_synonym u32 = "32 word"
type_synonym bytes = "char list"

section \<open>Exceptions and fallible results\<close>

text \<open>
  One constructor per exception type the sources throw, with the message of the throw.
  \<open>User_exn\<close> stands for an exception raised by client code (a coroutine body, a callback, a
  pool task). \<open>Undefined_behaviour\<close> is not an exception of the program: the model returns it
  where the C++ abstract machine gives no meaning (access out of bounds, use of a destroyed
  coroutine frame), so that its absence can be proved.
\<close>

datatype exn =
    Out_of_range string
  | Invalid_argument string
  | Length_error string
  | Logic_error string
  | System_error int string
  | Bad_alloc
  | User_exn nat
  | Undefined_behaviour

type_synonym 'a result = "exn + 'a"

definition rbind :: "'a result \<Rightarrow> ('a \<Rightarrow> 'b result) \<Rightarrow> 'b result" where
  "rbind m f = (case m of Inl e \<Rightarrow> Inl e | Inr x \<Rightarrow> f x)"

named_theorems result_simps \<open>how results propagate through rbind\<close>

lemma rbind_simps [simp]:
  "rbind (Inl e) f = Inl e"
  "rbind (Inr x) f = f x"
  by (simp_all add: rbind_def)

lemma rbind_eq_Inr [result_simps]:
  "rbind m f = Inr y \<longleftrightarrow> (\<exists>x. m = Inr x \<and> f x = Inr y)"
  by (cases m) auto

lemma rbind_eq_Inl [result_simps]:
  "rbind m f = Inl e \<longleftrightarrow> m = Inl e \<or> (\<exists>x. m = Inr x \<and> f x = Inl e)"
  by (cases m) auto

lemma rbind_cong [fundef_cong]:
  "m = m' \<Longrightarrow> (\<And>x. m' = Inr x \<Longrightarrow> f x = f' x) \<Longrightarrow> rbind m f = rbind m' f'"
  by (cases m') auto

section \<open>Bytes of a vector\<close>

text \<open>
  \<open>std::vector<char>::max_size()\<close> is the largest \<open>ptrdiff_t\<close>; \<open>resize\<close> beyond it throws
  \<open>std::length_error\<close>. Reads and writes through a pointer into the vector are checked against
  its size.
\<close>

definition vector_max_size :: nat where
  "vector_max_size = 2 ^ 63 - 1"

definition vector_resize :: "bytes \<Rightarrow> nat \<Rightarrow> bytes result" where
  "vector_resize v n =
     (if n > vector_max_size then Inl (Length_error ''vector'')
      else Inr (take n v @ replicate (n - length v) (CHR 0x00)))"

definition mem_read :: "bytes \<Rightarrow> nat \<Rightarrow> nat \<Rightarrow> bytes result" where
  "mem_read v off n =
     (if off + n \<le> length v then Inr (take n (drop off v)) else Inl Undefined_behaviour)"

definition mem_write :: "bytes \<Rightarrow> nat \<Rightarrow> bytes \<Rightarrow> bytes result" where
  "mem_write v off d =
     (if off + length d \<le> length v then Inr (take off v @ d @ drop (off + length d) v)
      else Inl Undefined_behaviour)"

definition char_at :: "bytes \<Rightarrow> nat \<Rightarrow> char result" where
  "char_at v i = (if i < length v then Inr (v ! i) else Inl Undefined_behaviour)"

lemma length_vector_resize:
  "vector_resize v n = Inr w \<Longrightarrow> length w = n \<and> n \<le> vector_max_size"
  by (auto simp: vector_resize_def split: if_splits)

lemma length_mem_write: "mem_write v off d = Inr w \<Longrightarrow> length w = length v"
  by (auto simp: mem_write_def split: if_splits)

section \<open>Words\<close>

named_theorems word_nat \<open>natural-number readings of word arithmetic\<close>

lemma unat_lt_64 [simp]: "unat (w :: 64 word) < 18446744073709551616"
  using unsigned_less [of w] by simp

lemma unat_le_64: "unat (w :: 64 word) \<le> 18446744073709551615"
  using unat_lt_64 [of w] by linarith

lemma unat_of_nat_64 [word_nat]:
  "n < 2 ^ 64 \<Longrightarrow> unat (word_of_nat n :: 64 word) = n"
  by (simp add: unat_of_nat)

lemma unat_add_64 [word_nat]:
  "unat (a :: 64 word) + unat b < 2 ^ 64 \<Longrightarrow> unat (a + b) = unat a + unat b"
  using unat_add_lem [of a b] by simp

lemma unat_sub_64 [word_nat]:
  "unat b \<le> unat (a :: 64 word) \<Longrightarrow> unat (a - b) = unat a - unat b"
  by (simp add: unat_sub word_le_nat_alt)

lemma unat_max_64: "unat (- 1 :: 64 word) = 2 ^ 64 - 1"
  by (simp add: unsigned_minus_1_eq_mask mask_eq_exp_minus_1)

lemma unat_diff_Suc_less:
  assumes "i + 1 < (n :: 64 word)"
  shows "unat (n - (2 + i)) < unat (n - (i + 1))"
proof -
  let ?d = "n - (i + 1)"
  from assms have "?d \<noteq> 0" by auto
  then have pos: "0 < unat ?d" by (simp add: unat_gt_0)
  then have "unat (?d - 1) = unat ?d - 1"
    by (subst unat_sub_64) auto
  moreover have "?d - 1 = n - (2 + i)" by simp
  ultimately show ?thesis using pos by simp
qed

lemma unat_mask_64:
  "k < 64 \<Longrightarrow> unat ((w :: 64 word) AND (2 ^ k - 1)) = unat w mod 2 ^ k"
  by (metis mask_eq_exp_minus_1 take_bit_eq_mask unsigned_take_bit_eq take_bit_eq_mod)

section \<open>Lists\<close>

lemma take_drop_append_middle:
  assumes "i \<le> j" and "j \<le> length v"
  shows "take (j + length d - i) (drop i (take j v @ d @ r)) = take (j - i) (drop i v) @ d"
proof -
  from assms have "drop i (take j v @ d @ r) = take (j - i) (drop i v) @ d @ r"
    by (simp add: drop_take)
  moreover from assms have "j + length d - i = length (take (j - i) (drop i v)) + length d"
    by simp
  ultimately show ?thesis by (simp del: length_take)
qed

end
