(* ===== verification/Buffer.thy ===== *)
theory Buffer
  imports Prelude
begin

text \<open>
  The contiguous read/write buffer of \<open>include/tinycoro/buffer.h\<close>. The record has the three
  members of the class, cursors at their width of 64 bits; every pointer access is checked
  against the vector. \<open>contents\<close> is the abstraction, the bytes between the two cursors, and
  the locale \<open>byte_buffer\<close> is the contract the HTTP parser and the transports rely on.
\<close>

section \<open>State and operations\<close>

record buffer =
  buf :: bytes
  read_idx :: size_t
  write_idx :: size_t

definition kInitialSize :: size_t where
  "kInitialSize = 4096"

definition npos :: size_t where
  "npos = - 1"

definition Buffer_new :: "size_t \<Rightarrow> buffer result" where
  "Buffer_new initial =
     rbind (vector_resize [] (unat (if initial = 0 then 1 else initial)))
       (\<lambda>v. Inr \<lparr>buf = v, read_idx = 0, write_idx = 0\<rparr>)"

definition readable :: "buffer \<Rightarrow> size_t" where
  "readable b = write_idx b - read_idx b"

definition writable :: "buffer \<Rightarrow> size_t" where
  "writable b = word_of_nat (length (buf b)) - write_idx b"

text \<open>\<open>std::string(read_ptr(), n)\<close>: a copy of \<open>n\<close> bytes from the read cursor.\<close>

definition read_ptr :: "size_t \<Rightarrow> buffer \<Rightarrow> bytes result" where
  "read_ptr n b = mem_read (buf b) (unat (read_idx b)) (unat n)"

text \<open>Storing bytes through \<open>write_ptr()\<close>, which moves no cursor.\<close>

definition write_ptr :: "bytes \<Rightarrow> buffer \<Rightarrow> buffer result" where
  "write_ptr d b =
     rbind (mem_write (buf b) (unat (write_idx b)) d) (\<lambda>v. Inr (b\<lparr>buf := v\<rparr>))"

definition has_written :: "size_t \<Rightarrow> buffer \<Rightarrow> buffer result" where
  "has_written n b =
     (if n > writable b then Inl (Out_of_range ''Buffer::has_written'')
      else Inr (b\<lparr>write_idx := write_idx b + n\<rparr>))"

definition ensure_writable :: "size_t \<Rightarrow> buffer \<Rightarrow> buffer result" where
  "ensure_writable len b =
     (if writable b \<ge> len then Inr b
      else if read_idx b + writable b \<ge> len then
        rbind (read_ptr (readable b) b) (\<lambda>d.
        rbind (mem_write (buf b) 0 d) (\<lambda>v.
          Inr \<lparr>buf = v, read_idx = 0, write_idx = readable b\<rparr>))
      else if len > - 1 - write_idx b then Inl (Length_error ''Buffer capacity overflow'')
      else rbind (vector_resize (buf b) (unat (write_idx b + len))) (\<lambda>v. Inr (b\<lparr>buf := v\<rparr>)))"

text \<open>
  \<open>append(const char*, size_t)\<close>: the pointer is \<open>None\<close> for null, else the bytes it points to.
\<close>

definition append :: "bytes option \<Rightarrow> size_t \<Rightarrow> buffer \<Rightarrow> buffer result" where
  "append data len b =
     (if len = 0 then Inr b
      else case data of
        None \<Rightarrow> Inl (Invalid_argument ''Buffer::append requires non-null data'')
      | Some d \<Rightarrow>
          rbind (ensure_writable len b) (\<lambda>b1.
          rbind (mem_read d 0 (unat len)) (\<lambda>src.
          rbind (write_ptr src b1) (\<lambda>b2.
            Inr (b2\<lparr>write_idx := write_idx b2 + len\<rparr>)))))"

definition append_string :: "bytes \<Rightarrow> buffer \<Rightarrow> buffer result" where
  "append_string s b = append (Some s) (word_of_nat (length s)) b"

definition consume :: "size_t \<Rightarrow> buffer \<Rightarrow> buffer result" where
  "consume n b =
     (if n > readable b then Inl (Out_of_range ''Buffer::consume'')
      else let b' = b\<lparr>read_idx := read_idx b + n\<rparr> in
        if read_idx b' = write_idx b' then Inr (b'\<lparr>read_idx := 0, write_idx := 0\<rparr>)
        else Inr b')"

definition retrieve_all_as_string :: "buffer \<Rightarrow> (bytes \<times> buffer) result" where
  "retrieve_all_as_string b =
     rbind (read_ptr (readable b) b) (\<lambda>s.
     rbind (consume (readable b) b) (\<lambda>b'. Inr (s, b')))"

text \<open>The loop of \<open>find_crlf\<close>, from index \<open>i\<close>; \<open>data\<close> is the vector from the read cursor on.\<close>

function find_crlf_from :: "bytes \<Rightarrow> size_t \<Rightarrow> size_t \<Rightarrow> size_t result" where
  "find_crlf_from data sz i =
     (if i + 1 < sz then
        rbind (char_at data (unat i)) (\<lambda>c.
        if c = CHR 0x0D then
          rbind (char_at data (unat (i + 1))) (\<lambda>d.
          if d = CHR 0x0A then Inr i else find_crlf_from data sz (i + 1))
        else find_crlf_from data sz (i + 1))
      else Inr npos)"
  by pat_completeness auto
termination
proof (relation "measure (\<lambda>(data, sz, i). unat (sz - (i + 1)))", goal_cases)
  case 1
  show ?case by simp
next
  case 2
  then show ?case by (simp add: unat_diff_Suc_less)
next
  case 3
  then show ?case by (simp add: unat_diff_Suc_less)
qed

declare find_crlf_from.simps [simp del]

definition find_crlf :: "buffer \<Rightarrow> size_t result" where
  "find_crlf b = find_crlf_from (drop (unat (read_idx b)) (buf b)) (readable b) 0"

section \<open>Invariant and abstraction\<close>

definition buffer_inv :: "buffer \<Rightarrow> bool" where
  "buffer_inv b \<longleftrightarrow>
     unat (read_idx b) \<le> unat (write_idx b) \<and>
     unat (write_idx b) \<le> length (buf b) \<and>
     length (buf b) \<le> vector_max_size"

definition contents :: "buffer \<Rightarrow> bytes" where
  "contents b = take (unat (write_idx b) - unat (read_idx b)) (drop (unat (read_idx b)) (buf b))"

lemmas buffer_defs = buffer_inv_def contents_def vector_max_size_def

text \<open>A buffer that holds a given string and nothing else; the concrete inputs below are of this form.\<close>

definition mkbuf :: "bytes \<Rightarrow> buffer" where
  "mkbuf s = \<lparr>buf = s, read_idx = 0, write_idx = word_of_nat (length s)\<rparr>"

lemma mkbuf_inv: "length s < 1000 \<Longrightarrow> buffer_inv (mkbuf s)"
  by (simp add: mkbuf_def buffer_defs unat_of_nat_64)

lemma mkbuf_contents: "length s < 1000 \<Longrightarrow> contents (mkbuf s) = s"
  by (simp add: mkbuf_def buffer_defs unat_of_nat_64)

lemma unat_readable: "buffer_inv b \<Longrightarrow> unat (readable b) = unat (write_idx b) - unat (read_idx b)"
  by (simp add: buffer_inv_def readable_def unat_sub_64)

lemma unat_writable: "buffer_inv b \<Longrightarrow> unat (writable b) = length (buf b) - unat (write_idx b)"
  by (simp add: buffer_inv_def writable_def unat_sub_64 unat_of_nat_64 vector_max_size_def)

lemma length_contents: "buffer_inv b \<Longrightarrow> length (contents b) = unat (readable b)"
  by (auto simp: unat_readable contents_def buffer_inv_def min_def)

lemma length_contents_bound: "buffer_inv b \<Longrightarrow> length (contents b) \<le> vector_max_size"
  by (auto simp: contents_def buffer_inv_def)

lemma read_ptr_contents:
  assumes "buffer_inv b" and "unat n \<le> length (contents b)"
  shows "read_ptr n b = Inr (take (unat n) (contents b))"
proof -
  from assms have "unat n \<le> unat (write_idx b) - unat (read_idx b)"
    by (simp add: length_contents unat_readable)
  moreover from this assms(1) have "unat (read_idx b) + unat n \<le> length (buf b)"
    by (auto simp: buffer_inv_def)
  ultimately show ?thesis by (simp add: read_ptr_def mem_read_def contents_def min_def)
qed

lemma Buffer_new_ok:
  "unat initial \<le> vector_max_size \<Longrightarrow>
     \<exists>b. Buffer_new initial = Inr b \<and> buffer_inv b \<and> contents b = [] \<and> 0 < length (buf b)"
  by (auto simp: Buffer_new_def vector_resize_def buffer_defs unat_gt_0)

lemma write_then_commit:
  assumes "buffer_inv b" and "length d \<le> unat (writable b)"
  shows "\<exists>b1 b2. write_ptr d b = Inr b1 \<and> has_written (word_of_nat (length d)) b1 = Inr b2 \<and>
           buffer_inv b2 \<and> contents b2 = contents b @ d \<and> length (buf b2) = length (buf b)"
proof -
  let ?w = "unat (write_idx b)" and ?r = "unat (read_idx b)"
  define v where "v = take ?w (buf b) @ d @ drop (?w + length d) (buf b)"
  let ?b1 = "b\<lparr>buf := v\<rparr>"
  from assms have fit: "?w + length d \<le> length (buf b)"
    by (auto simp: unat_writable buffer_inv_def)
  with assms have b1: "write_ptr d b = Inr ?b1"
    by (simp add: write_ptr_def mem_write_def v_def)
  have len: "length v = length (buf b)" using fit by (simp add: v_def)
  with assms(1) have inv1: "buffer_inv ?b1" by (simp add: buffer_inv_def)
  have d64: "unat (word_of_nat (length d) :: size_t) = length d"
    using fit assms(1) by (simp add: unat_of_nat_64 buffer_inv_def vector_max_size_def)
  have "word_of_nat (length d) \<le> writable ?b1"
    using assms(2) len by (simp add: word_le_nat_alt d64 writable_def)
  then have b2: "has_written (word_of_nat (length d)) ?b1
      = Inr (?b1\<lparr>write_idx := write_idx b + word_of_nat (length d)\<rparr>)" (is "_ = Inr ?b2")
    by (simp add: has_written_def)
  have w2: "unat (write_idx b + word_of_nat (length d)) = ?w + length d"
    using fit assms(1) by (subst unat_add_64) (simp_all add: d64 buffer_inv_def vector_max_size_def)
  have inv2: "buffer_inv ?b2"
    using inv1 fit len by (simp add: buffer_inv_def w2)
  have "contents ?b2 = take (?w + length d - ?r) (drop ?r v)"
    by (simp add: contents_def w2)
  also have "\<dots> = contents b @ d"
    unfolding v_def using assms(1)
    by (subst take_drop_append_middle) (simp_all add: buffer_inv_def contents_def)
  finally have "contents ?b2 = contents b @ d" .
  with b1 b2 inv2 len show ?thesis by auto
qed

text \<open>When a request for \<open>n\<close> more bytes can be met, by the tail, by compaction or by growth.\<close>

definition room_for :: "nat \<Rightarrow> buffer \<Rightarrow> bool" where
  "room_for n b \<longleftrightarrow>
     n \<le> unat (read_idx b) + unat (writable b) \<or> unat (write_idx b) + n \<le> vector_max_size"

lemma compaction:
  assumes "buffer_inv b"
  shows "\<exists>v. rbind (read_ptr (readable b) b) (mem_write (buf b) 0) = Inr v \<and> length v = length (buf b) \<and>
           take (unat (readable b)) v = contents b"
proof -
  have le: "length (contents b) \<le> length (buf b)"
    using assms by (auto simp: contents_def)
  have "read_ptr (readable b) b = Inr (contents b)"
    using assms by (subst read_ptr_contents) (simp_all add: length_contents)
  with le assms show ?thesis
    by (simp add: mem_write_def length_contents)
qed

lemma ensure_writable_ok:
  assumes inv: "buffer_inv b" and room: "room_for (unat len) b"
  shows "\<exists>b'. ensure_writable len b = Inr b' \<and> buffer_inv b' \<and> contents b' = contents b \<and>
           len \<le> writable b'"
proof (cases "len \<le> writable b")
  case True
  with inv show ?thesis by (simp add: ensure_writable_def)
next
  case tail: False
  let ?w = "unat (write_idx b)" and ?r = "unat (read_idx b)"
  have sum: "unat (read_idx b + writable b) = ?r + unat (writable b)"
    using inv by (subst unat_add_64) (auto simp: unat_writable buffer_inv_def vector_max_size_def)
  show ?thesis
  proof (cases "len \<le> read_idx b + writable b")
    case True
    from compaction [OF inv] obtain d v where
      v: "read_ptr (readable b) b = Inr d" "mem_write (buf b) 0 d = Inr v"
        "length v = length (buf b)" "take (unat (readable b)) v = contents b"
      by (auto simp: result_simps)
    let ?b = "\<lparr>buf = v, read_idx = 0, write_idx = readable b\<rparr>"
    have "ensure_writable len b = Inr ?b"
      using tail True v by (simp add: ensure_writable_def)
    moreover have inv': "buffer_inv ?b"
      using inv v by (auto simp: buffer_inv_def unat_readable [OF inv])
    moreover have "contents ?b = contents b"
      using v by (simp add: contents_def [of ?b])
    moreover have "len \<le> writable ?b"
      using True inv v(3)
      by (simp add: word_le_nat_alt unat_writable [OF inv'] sum unat_writable [OF inv] unat_readable [OF inv])
         (auto simp: buffer_inv_def)
    ultimately show ?thesis by blast
  next
    case False
    with room have fit: "?w + unat len \<le> vector_max_size"
      by (simp add: room_for_def word_le_nat_alt sum)
    then have w: "unat (write_idx b + len) = ?w + unat len"
      by (subst unat_add_64) (simp_all add: vector_max_size_def)
    have cap: "\<not> len > - 1 - write_idx b"
    proof -
      have "unat (- 1 - write_idx b) = 2 ^ 64 - 1 - ?w"
        by (subst unat_sub_64) (simp_all add: unat_max_64 Suc_leI less_Suc_eq_le [symmetric])
      with fit show ?thesis by (simp add: word_less_nat_alt vector_max_size_def)
    qed
    let ?v = "take (?w + unat len) (buf b) @ replicate (?w + unat len - length (buf b)) (CHR 0x00)"
    have longer: "length (buf b) \<le> ?w + unat len"
      using tail inv by (auto simp: word_le_nat_alt unat_writable)
    have "ensure_writable len b = Inr (b\<lparr>buf := ?v\<rparr>)"
      using tail False cap fit by (simp add: ensure_writable_def vector_resize_def w)
    moreover have inv': "buffer_inv (b\<lparr>buf := ?v\<rparr>)"
      using inv fit longer by (auto simp: buffer_inv_def)
    moreover have "contents (b\<lparr>buf := ?v\<rparr>) = contents b"
      using inv longer by (auto simp: contents_def buffer_inv_def)
    moreover have "len \<le> writable (b\<lparr>buf := ?v\<rparr>)"
      using unat_writable [OF inv'] longer by (simp add: word_le_nat_alt)
    ultimately show ?thesis by blast
  qed
qed

lemma ensure_writable_throws:
  assumes inv: "buffer_inv b" and room: "\<not> room_for (unat len) b"
  shows "\<exists>m. ensure_writable len b = Inl (Length_error m)"
proof -
  have sum: "unat (read_idx b + writable b) = unat (read_idx b) + unat (writable b)"
    using inv by (subst unat_add_64) (auto simp: unat_writable buffer_inv_def vector_max_size_def)
  have "\<not> len \<le> writable b" and "\<not> len \<le> read_idx b + writable b"
    using room by (auto simp: room_for_def word_le_nat_alt sum)
  moreover have "unat (write_idx b + len) > vector_max_size" if "\<not> len > - 1 - write_idx b"
  proof -
    have "unat (- 1 - write_idx b) = 2 ^ 64 - 1 - unat (write_idx b)"
      by (subst unat_sub_64) (simp_all add: unat_max_64 Suc_leI less_Suc_eq_le [symmetric])
    with that have "unat (write_idx b + len) = unat (write_idx b) + unat len"
      using unat_le_64 [of "write_idx b"] by (subst unat_add_64) (simp_all add: word_less_nat_alt)
    with room show ?thesis by (simp add: room_for_def)
  qed
  ultimately show ?thesis by (auto simp: ensure_writable_def vector_resize_def)
qed

lemma append_ok:
  assumes inv: "buffer_inv b" and len: "unat len \<le> length d" and room: "room_for (unat len) b"
  shows "\<exists>b'. append (Some d) len b = Inr b' \<and> buffer_inv b' \<and> contents b' = contents b @ take (unat len) d"
proof (cases "len = 0")
  case True
  with inv show ?thesis by (simp add: append_def)
next
  case False
  from ensure_writable_ok [OF inv room] obtain b1 where
    b1: "ensure_writable len b = Inr b1" "buffer_inv b1" "contents b1 = contents b" "len \<le> writable b1"
    by blast
  let ?src = "take (unat len) d"
  have src: "length ?src = unat len" using len by simp
  from b1 have "length ?src \<le> unat (writable b1)" by (simp add: src word_le_nat_alt del: length_take)
  from write_then_commit [OF b1(2) this] obtain b2 b3 where
    b3: "write_ptr ?src b1 = Inr b2" "has_written len b2 = Inr b3" "buffer_inv b3"
      "contents b3 = contents b1 @ ?src"
    by (auto simp: src simp del: length_take)
  have "append (Some d) len b = Inr b3"
    using False b1(1) b3(1,2) len
    by (auto simp: append_def mem_read_def has_written_def split: if_splits)
  with b1(3) b3(3,4) show ?thesis by auto
qed

lemma append_string_ok:
  assumes "buffer_inv b" and "room_for (length s) b"
  shows "\<exists>b'. append_string s b = Inr b' \<and> buffer_inv b' \<and> contents b' = contents b @ s"
proof -
  from assms have "length s < 2 ^ 64"
    by (auto simp: room_for_def unat_writable buffer_inv_def vector_max_size_def)
  then have "unat (word_of_nat (length s) :: size_t) = length s" by (rule unat_of_nat_64)
  with append_ok [OF assms(1), of "word_of_nat (length s)" s] assms(2) show ?thesis
    by (simp add: append_string_def)
qed

lemma append_string_throws:
  assumes "buffer_inv b" and "\<not> room_for (length s) b" and "length s < 2 ^ 64"
  shows "\<exists>m. append_string s b = Inl (Length_error m)"
proof -
  from assms(3) have n: "unat (word_of_nat (length s) :: size_t) = length s" by (rule unat_of_nat_64)
  then have "(word_of_nat (length s) :: size_t) \<noteq> 0"
    using assms(2) by (auto simp: room_for_def)
  with ensure_writable_throws [of b "word_of_nat (length s)"] assms n show ?thesis
    by (auto simp: append_string_def append_def)
qed

lemma append_string_contents:
  assumes "buffer_inv b" and "length s < 2 ^ 64" and "append_string s b = Inr b'"
  shows "buffer_inv b' \<and> contents b' = contents b @ s"
proof (cases "room_for (length s) b")
  case True
  with append_string_ok [OF assms(1) True] assms(3) show ?thesis by auto
next
  case False
  with append_string_throws [OF assms(1) False assms(2)] assms(3) show ?thesis by auto
qed

lemma consume_ok:
  assumes inv: "buffer_inv b" and le: "unat n \<le> length (contents b)"
  shows "\<exists>b'. consume n b = Inr b' \<and> buffer_inv b' \<and> contents b' = drop (unat n) (contents b) \<and>
           length (buf b') = length (buf b)"
proof -
  let ?w = "unat (write_idx b)" and ?r = "unat (read_idx b)"
  have le': "unat n \<le> ?w - ?r" using le inv by (simp add: length_contents unat_readable)
  then have r: "unat (read_idx b + n) = unat n + ?r"
    using inv by (subst unat_add_64) (auto simp: buffer_inv_def vector_max_size_def)
  have "n \<le> readable b" using le' inv by (simp add: word_le_nat_alt unat_readable)
  moreover have "read_idx b + n = write_idx b \<longleftrightarrow> unat n + ?r = ?w"
    by (simp add: word_unat_eq_iff r)
  ultimately show ?thesis
    using inv le' by (auto simp: consume_def Let_def buffer_inv_def contents_def r drop_take) (simp_all add: add.commute)
qed

lemma consume_throws:
  "buffer_inv b \<Longrightarrow> unat n > length (contents b) \<Longrightarrow> consume n b = Inl (Out_of_range ''Buffer::consume'')"
  by (simp add: consume_def length_contents word_less_nat_alt)

lemma retrieve_all_ok:
  assumes "buffer_inv b"
  shows "\<exists>b'. retrieve_all_as_string b = Inr (contents b, b') \<and> buffer_inv b' \<and> contents b' = []"
proof -
  from assms have "unat (readable b) = length (contents b)" by (simp add: length_contents)
  then obtain b' where "consume (readable b) b = Inr b'" "buffer_inv b'" "contents b' = []"
    using consume_ok [OF assms, of "readable b"] by auto
  with assms \<open>unat (readable b) = length (contents b)\<close> show ?thesis
    by (simp add: retrieve_all_as_string_def read_ptr_contents)
qed

section \<open>Searching for a line end\<close>

text \<open>The first carriage return that a line feed follows, on the abstract contents.\<close>

fun crlf_pos :: "bytes \<Rightarrow> nat option" where
  "crlf_pos (c # d # xs) =
     (if c = CHR 0x0D \<and> d = CHR 0x0A then Some 0 else map_option Suc (crlf_pos (d # xs)))"
| "crlf_pos xs = None"

definition crlf_at :: "bytes \<Rightarrow> nat \<Rightarrow> bool" where
  "crlf_at xs j \<longleftrightarrow> j + 1 < length xs \<and> xs ! j = CHR 0x0D \<and> xs ! (j + 1) = CHR 0x0A"

lemma crlf_at_Nil [simp]: "\<not> crlf_at [] j"
  and crlf_at_Suc [simp]: "crlf_at (x # xs) (Suc j) \<longleftrightarrow> crlf_at xs j"
  by (auto simp: crlf_at_def)

lemma crlf_pos_Cons:
  "crlf_pos (x # xs) = (if crlf_at (x # xs) 0 then Some 0 else map_option Suc (crlf_pos xs))"
  by (cases xs) (auto simp: crlf_at_def)

lemma crlf_pos_None_iff: "crlf_pos xs = None \<longleftrightarrow> (\<forall>j. \<not> crlf_at xs j)"
proof (induction xs)
  case Nil
  show ?case by simp
next
  case (Cons x xs)
  have "(\<forall>j. \<not> crlf_at (x # xs) j) \<longleftrightarrow> \<not> crlf_at (x # xs) 0 \<and> (\<forall>j. \<not> crlf_at xs j)"
    by (metis crlf_at_Suc nat.exhaust)
  then show ?case by (simp add: crlf_pos_Cons Cons.IH)
qed

lemma crlf_pos_Some_iff:
  "crlf_pos xs = Some i \<longleftrightarrow> crlf_at xs i \<and> (\<forall>j < i. \<not> crlf_at xs j)"
proof (induction xs arbitrary: i)
  case Nil
  show ?case by simp
next
  case (Cons x xs)
  show ?case
  proof (cases i)
    case 0
    then show ?thesis by (auto simp: crlf_pos_Cons)
  next
    case (Suc k)
    have "(\<forall>j < Suc k. \<not> crlf_at (x # xs) j) \<longleftrightarrow> \<not> crlf_at (x # xs) 0 \<and> (\<forall>j < k. \<not> crlf_at xs j)"
      by (auto simp: less_Suc_eq_0_disj)
    then show ?thesis by (auto simp: Suc crlf_pos_Cons Cons.IH)
  qed
qed

lemma crlf_pos_short: "length xs \<le> 1 \<Longrightarrow> crlf_pos xs = None"
  by (simp add: crlf_pos_None_iff crlf_at_def)

lemma find_crlf_from_eq:
  assumes "unat sz \<le> length data" and "unat sz \<le> vector_max_size" and "unat i \<le> unat sz"
  shows "find_crlf_from data sz i =
     Inr (case crlf_pos (drop (unat i) (take (unat sz) data)) of None \<Rightarrow> npos | Some k \<Rightarrow> i + word_of_nat k)"
  using assms
proof (induction data sz i rule: find_crlf_from.induct)
  case (1 data sz i)
  let ?xs = "take (unat sz) data"
  have i1: "unat (i + 1) = unat i + 1"
    using "1.prems" by (subst unat_add_64) (simp_all add: vector_max_size_def)
  have len: "length ?xs = unat sz" using "1.prems" by simp
  show ?case
  proof (cases "i + 1 < sz")
    case False
    then have "length (drop (unat i) ?xs) \<le> 1"
      using i1 len by (simp add: word_less_nat_alt)
    then show ?thesis
      using False by (simp add: find_crlf_from.simps [of data sz i] crlf_pos_short)
  next
    case True
    then have lt: "unat i + 1 < unat sz" by (simp add: word_less_nat_alt i1)
    have split: "drop (unat i) ?xs = data ! unat i # drop (unat i + 1) ?xs"
      using lt len by (subst Cons_nth_drop_Suc [symmetric]) auto
    have here: "crlf_at (drop (unat i) ?xs) 0 \<longleftrightarrow> data ! unat i = CHR 0x0D \<and> data ! (unat i + 1) = CHR 0x0A"
      using lt len by (auto simp: crlf_at_def)
    have reads: "char_at data (unat i) = Inr (data ! unat i)"
        "char_at data (unat (i + 1)) = Inr (data ! (unat i + 1))"
      using lt "1.prems"(1) i1 by (simp_all add: char_at_def)
    show ?thesis
    proof (cases "data ! unat i = CHR 0x0D \<and> data ! (unat i + 1) = CHR 0x0A")
      case True
      with \<open>i + 1 < sz\<close> reads here split show ?thesis
        by (simp add: find_crlf_from.simps [of data sz i] crlf_pos_Cons)
    next
      case False
      have "find_crlf_from data sz i = find_crlf_from data sz (i + 1)"
        using False \<open>i + 1 < sz\<close> reads by (auto simp: find_crlf_from.simps [of data sz i])
      also have "\<dots> = Inr (case crlf_pos (drop (unat i + 1) ?xs) of None \<Rightarrow> npos
                          | Some k \<Rightarrow> i + 1 + word_of_nat k)"
        using "1.IH" False \<open>i + 1 < sz\<close> reads "1.prems" lt i1
        by (cases "data ! unat i = CHR 0x0D") auto
      also have "\<dots> = Inr (case crlf_pos (drop (unat i) ?xs) of None \<Rightarrow> npos
                          | Some k \<Rightarrow> i + word_of_nat k)"
        using False here split by (auto simp: crlf_pos_Cons split: option.split)
      finally show ?thesis .
    qed
  qed
qed

lemma find_crlf_eq:
  assumes "buffer_inv b"
  shows "find_crlf b = Inr (case crlf_pos (contents b) of None \<Rightarrow> npos | Some k \<Rightarrow> word_of_nat k)"
proof -
  have "unat (readable b) \<le> length (drop (unat (read_idx b)) (buf b))"
    and "unat (readable b) \<le> vector_max_size"
    using assms by (auto simp: unat_readable buffer_inv_def)
  from find_crlf_from_eq [OF this, of 0] show ?thesis
    using assms by (simp add: find_crlf_def contents_def unat_readable cong: option.case_cong)
qed

section \<open>The contract of a byte buffer\<close>

text \<open>
  What the clients of the buffer use: an invariant, the bytes in view, and the laws of the
  operations. \<open>take_line\<close> is the idiom of the HTTP parser, a search for a line end, a copy of
  the line and a \<open>consume\<close> that also drops the two bytes of the line end.
\<close>

locale byte_buffer =
  fixes inv :: "'b \<Rightarrow> bool"
    and view :: "'b \<Rightarrow> bytes"
    and readable_op :: "'b \<Rightarrow> size_t"
    and find_op :: "'b \<Rightarrow> size_t result"
    and read_op :: "size_t \<Rightarrow> 'b \<Rightarrow> bytes result"
    and consume_op :: "size_t \<Rightarrow> 'b \<Rightarrow> 'b result"
    and append_op :: "bytes \<Rightarrow> 'b \<Rightarrow> 'b result"
  assumes view_bound: "inv b \<Longrightarrow> length (view b) \<le> vector_max_size"
    and readable_view: "inv b \<Longrightarrow> unat (readable_op b) = length (view b)"
    and find_view: "inv b \<Longrightarrow>
          find_op b = Inr (case crlf_pos (view b) of None \<Rightarrow> npos | Some k \<Rightarrow> word_of_nat k)"
    and read_view: "inv b \<Longrightarrow> unat n \<le> length (view b) \<Longrightarrow> read_op n b = Inr (take (unat n) (view b))"
    and consume_view: "inv b \<Longrightarrow> unat n \<le> length (view b) \<Longrightarrow>
          \<exists>b'. consume_op n b = Inr b' \<and> inv b' \<and> view b' = drop (unat n) (view b)"
    and append_view: "inv b \<Longrightarrow> length s < 2 ^ 64 \<Longrightarrow> append_op s b = Inr b' \<Longrightarrow>
          inv b' \<and> view b' = view b @ s"
begin

lemma found_index:
  assumes "inv b" and "crlf_pos (view b) = Some k"
  shows "k + 1 < length (view b)" and "unat (word_of_nat k :: size_t) = k"
    and "word_of_nat k \<noteq> npos"
proof -
  from assms(2) show lt: "k + 1 < length (view b)"
    by (simp add: crlf_pos_Some_iff crlf_at_def)
  with view_bound [OF assms(1)] show k: "unat (word_of_nat k :: size_t) = k"
    by (simp add: unat_of_nat_64 vector_max_size_def)
  have "unat npos = 2 ^ 64 - 1" by (simp add: npos_def unat_max_64)
  with k lt view_bound [OF assms(1)] show "word_of_nat k \<noteq> npos"
    by (auto simp: vector_max_size_def)
qed

lemma find_cases:
  assumes "inv b"
  obtains (absent) "crlf_pos (view b) = None" and "find_op b = Inr npos"
  | (found) k where "crlf_pos (view b) = Some k" and "find_op b = Inr (word_of_nat k)"
      and "(word_of_nat k :: size_t) \<noteq> npos" and "unat (word_of_nat k :: size_t) = k"
      and "k + 1 < length (view b)"
proof (cases "crlf_pos (view b)")
  case None
  with find_view [OF assms] absent show ?thesis by simp
next
  case (Some k)
  with find_view [OF assms] found_index [OF assms Some] found show ?thesis by simp
qed

lemma take_line:
  assumes "inv b" and "crlf_pos (view b) = Some k"
  shows "\<exists>line b'. read_op (word_of_nat k) b = Inr line \<and> consume_op (word_of_nat k + 2) b = Inr b' \<and>
           inv b' \<and> length line = k \<and> view b = line @ [CHR 0x0D, CHR 0x0A] @ view b'"
proof -
  note k = found_index [OF assms]
  have k2: "unat (word_of_nat k + 2 :: size_t) = k + 2"
    using k(1,2) view_bound [OF assms(1)] by (subst unat_add_64) (simp_all add: vector_max_size_def)
  obtain b' where b': "consume_op (word_of_nat k + 2) b = Inr b'" "inv b'" "view b' = drop (k + 2) (view b)"
    using consume_view [OF assms(1), of "word_of_nat k + 2"] k(1) k2 by auto
  have "read_op (word_of_nat k) b = Inr (take k (view b))"
    using read_view [OF assms(1), of "word_of_nat k"] k(1,2) by simp
  moreover have "view b = take k (view b) @ [CHR 0x0D, CHR 0x0A] @ drop (k + 2) (view b)"
    using assms(2) k(1)
    by (metis (no_types, lifting) crlf_pos_Some_iff crlf_at_def id_take_nth_drop Cons_nth_drop_Suc
        Suc_eq_plus1 append_Cons append_Nil add_2_eq_Suc' add_lessD1)
  ultimately show ?thesis using b' k(1) by (intro exI [of _ "take k (view b)"] exI [of _ b']) simp
qed

end

interpretation bb: byte_buffer buffer_inv contents readable find_crlf read_ptr consume append_string
proof unfold_locales
  fix b b' :: buffer and n :: size_t and s :: bytes
  assume inv: "buffer_inv b"
  then show "length (contents b) \<le> vector_max_size" by (rule length_contents_bound)
  from inv show "unat (readable b) = length (contents b)" by (simp add: length_contents)
  from inv show "find_crlf b = Inr (case crlf_pos (contents b) of None \<Rightarrow> npos | Some k \<Rightarrow> word_of_nat k)"
    by (rule find_crlf_eq)
  show "read_ptr n b = Inr (take (unat n) (contents b))" if "unat n \<le> length (contents b)"
    using inv that by (rule read_ptr_contents)
  show "\<exists>b'. consume n b = Inr b' \<and> buffer_inv b' \<and> contents b' = drop (unat n) (contents b)"
    if "unat n \<le> length (contents b)"
    using consume_ok [OF inv that] by blast
  show "buffer_inv b' \<and> contents b' = contents b @ s" if "length s < 2 ^ 64" "append_string s b = Inr b'"
    using inv that by (rule append_string_contents)
qed

section \<open>Properties\<close>

text \<open>
  C26: appending a string either succeeds, keeps the invariant and extends the contents by
  exactly that string, or throws \<open>std::length_error\<close>; it succeeds exactly when the tail, a
  compaction or a growth within the vector's limit has room, and it never touches memory
  outside the vector.
\<close>

theorem append_refines:
  assumes "buffer_inv b" and "length s < 2 ^ 64"
  shows "if room_for (length s) b
         then \<exists>b'. append_string s b = Inr b' \<and> buffer_inv b' \<and> contents b' = contents b @ s
         else \<exists>m. append_string s b = Inl (Length_error m)"
  using append_string_ok [OF assms(1)] append_string_throws [OF assms(1) _ assms(2)] by simp

theorem append_refines_witness:
  "\<exists>b'. append_string ''cd'' (mkbuf ''ab'') = Inr b' \<and> buffer_inv b' \<and> contents b' = ''abcd''"
proof -
  have "room_for (Suc (Suc 0)) (mkbuf ''ab'')" by (simp add: room_for_def mkbuf_def vector_max_size_def)
  then show ?thesis
    using append_refines [of "mkbuf ''ab''" "''cd''"] by (simp add: mkbuf_inv mkbuf_contents)
qed

text \<open>
  \<open>consume(n)\<close> drops exactly the first \<open>n\<close> readable bytes and keeps the invariant, and
  throws \<open>std::out_of_range\<close> exactly when fewer than \<open>n\<close> bytes are readable.
\<close>

theorem consume_refines:
  assumes "buffer_inv b"
  shows "if unat n \<le> length (contents b)
         then \<exists>b'. consume n b = Inr b' \<and> buffer_inv b' \<and> contents b' = drop (unat n) (contents b)
         else consume n b = Inl (Out_of_range ''Buffer::consume'')"
  using consume_ok [OF assms] consume_throws [OF assms] by force

theorem consume_refines_witness:
  "(\<exists>b'. consume 2 (mkbuf ''abc'') = Inr b' \<and> buffer_inv b' \<and> contents b' = ''c'') \<and>
   consume 4 (mkbuf ''abc'') = Inl (Out_of_range ''Buffer::consume'')"
  using consume_refines [of "mkbuf ''abc''" 2] consume_refines [of "mkbuf ''abc''" 4]
  by (simp add: mkbuf_inv mkbuf_contents)

text \<open>
  \<open>find_crlf\<close> reads no byte outside the readable range and returns the least index at which
  a carriage return is followed by a line feed, and \<open>npos\<close> exactly when there is none.
\<close>

theorem find_crlf_first:
  assumes "buffer_inv b"
  shows "\<exists>i. find_crlf b = Inr i \<and>
           (if i = npos then \<forall>j. \<not> crlf_at (contents b) j
            else crlf_at (contents b) (unat i) \<and> (\<forall>j < unat i. \<not> crlf_at (contents b) j))"
  using assms
proof (cases rule: bb.find_cases)
  case absent
  then show ?thesis by (simp add: crlf_pos_None_iff)
next
  case (found k)
  then show ?thesis by (simp add: crlf_pos_Some_iff)
qed

theorem find_crlf_first_witness:
  "find_crlf (mkbuf [CHR 0x0D, CHR 0x0D, CHR 0x0A]) = Inr 1"
proof -
  let ?s = "[CHR 0x0D, CHR 0x0D, CHR 0x0A]"
  obtain i where i: "find_crlf (mkbuf ?s) = Inr i"
    and first: "if i = npos then \<forall>j. \<not> crlf_at ?s j
      else crlf_at ?s (unat i) \<and> (\<forall>j < unat i. \<not> crlf_at ?s j)"
    using find_crlf_first [OF mkbuf_inv [of ?s]] mkbuf_contents [of ?s] by (auto cong: if_cong)
  have "crlf_at ?s 1" by (simp add: crlf_at_def)
  with first have "crlf_at ?s (unat i)" by metis
  then have "unat i = 1" by (cases "unat i") (auto simp: crlf_at_def)
  then show ?thesis using i by (simp add: word_unat_eq_iff)
qed

end
