(* ===== verification/Http_Parser.thy ===== *)
theory Http_Parser
  imports Buffer
begin

text \<open>
  The incremental HTTP/1.1 request parser of \<open>include/tinycoro/http_parser.h\<close> and
  \<open>src/http_parser.cpp\<close>: its limits, its four states, the header-line rules and the driving
  loop, over the buffer of \<open>Buffer\<close>. Byte counts keep their width of 64 bits.
\<close>

section \<open>Data\<close>

datatype parse_result = INCOMPLETE | COMPLETE | ERROR

datatype parse_state = REQUEST_LINE | HEADERS | BODY | DONE

record http_request =
  rq_method :: string
  rq_path :: string
  rq_version :: string
  rq_headers :: "string \<rightharpoonup> string"
  rq_body :: string

record limits =
  lim_request_line_bytes :: size_t
  lim_header_bytes :: size_t
  lim_body_bytes :: size_t

record http_parser =
  hp_limits :: limits
  hp_state :: parse_state
  hp_request :: http_request
  hp_content_length :: size_t
  hp_header_bytes :: size_t
  hp_content_length_seen :: bool

definition default_limits :: limits where
  "default_limits = \<lparr>lim_request_line_bytes = 8 * 1024, lim_header_bytes = 64 * 1024,
     lim_body_bytes = 1024 * 1024\<rparr>"

definition empty_request :: http_request where
  "empty_request = \<lparr>rq_method = [], rq_path = [], rq_version = [], rq_headers = Map.empty, rq_body = []\<rparr>"

definition HttpParser :: "limits \<Rightarrow> http_parser" where
  "HttpParser lim = \<lparr>hp_limits = lim, hp_state = REQUEST_LINE, hp_request = empty_request,
     hp_content_length = 0, hp_header_bytes = 0, hp_content_length_seen = False\<rparr>"

definition reset :: "http_parser \<Rightarrow> http_parser" where
  "reset p = p\<lparr>hp_state := REQUEST_LINE, hp_request := empty_request, hp_content_length := 0,
     hp_header_bytes := 0, hp_content_length_seen := False\<rparr>"

section \<open>Text helpers\<close>

text \<open>\<open>std::string::find_first_not_of\<close> and \<open>find_last_not_of\<close>; \<open>None\<close> is \<open>npos\<close>.\<close>

fun find_first_not_of :: "char set \<Rightarrow> string \<Rightarrow> nat option" where
  "find_first_not_of cs [] = None"
| "find_first_not_of cs (x # xs) =
     (if x \<in> cs then map_option Suc (find_first_not_of cs xs) else Some 0)"

definition find_last_not_of :: "char set \<Rightarrow> string \<Rightarrow> nat option" where
  "find_last_not_of cs xs =
     map_option (\<lambda>i. length xs - 1 - i) (find_first_not_of cs (rev xs))"

definition trim_chars :: "char set" where
  "trim_chars = {CHR '' '', CHR 0x09, CHR 0x0D, CHR 0x0A}"

definition trim :: "string \<Rightarrow> string" where
  "trim value =
     (case find_first_not_of trim_chars value of
        None \<Rightarrow> []
      | Some first \<Rightarrow>
          (case find_last_not_of trim_chars value of
             None \<Rightarrow> []
           | Some final \<Rightarrow> take (final - first + 1) (drop first value)))"

text \<open>\<open>std::tolower\<close> and \<open>std::isspace\<close> of the C locale.\<close>

definition tolower :: "char \<Rightarrow> char" where
  "tolower c = (let n = of_char c :: nat in if 65 \<le> n \<and> n \<le> 90 then char_of (n + 32) else c)"

definition iequals :: "string \<Rightarrow> string \<Rightarrow> bool" where
  "iequals lhs rhs \<longleftrightarrow>
     length lhs = length rhs \<and> list_all2 (\<lambda>left right. tolower left = tolower right) lhs rhs"

definition digit_value :: "char \<Rightarrow> nat option" where
  "digit_value c = (let n = of_char c :: nat in if 48 \<le> n \<and> n \<le> 57 then Some (n - 48) else None)"

text \<open>
  \<open>std::from_chars\<close> in base ten for \<open>std::size_t\<close>: the longest prefix of digits, an error for no
  digit or for a value that does not fit. The result is the value and the unread rest.
\<close>

fun dec_value :: "nat \<Rightarrow> string \<Rightarrow> nat \<times> string" where
  "dec_value acc [] = (acc, [])"
| "dec_value acc (c # cs) =
     (case digit_value c of None \<Rightarrow> (acc, c # cs) | Some d \<Rightarrow> dec_value (10 * acc + d) cs)"

definition from_chars :: "string \<Rightarrow> (size_t \<times> string) option" where
  "from_chars s =
     (case s of
        [] \<Rightarrow> None
      | c # _ \<Rightarrow>
          if digit_value c = None then None
          else (case dec_value 0 s of
                  (n, rest) \<Rightarrow> if n < 2 ^ 64 then Some (word_of_nat n, rest) else None))"

definition parse_size :: "string \<Rightarrow> size_t option" where
  "parse_size value =
     (if value = [] then None
      else case from_chars value of
        None \<Rightarrow> None
      | Some (parsed, rest) \<Rightarrow> if rest \<noteq> [] then None else Some parsed)"

definition isspace :: "char \<Rightarrow> bool" where
  "isspace c \<longleftrightarrow> c \<in> {CHR '' '', CHR 0x09, CHR 0x0A, CHR 0x0B, CHR 0x0C, CHR 0x0D}"

text \<open>\<open>input >> word\<close>: skips white space, then takes the longest word; \<open>None\<close> sets \<open>failbit\<close>.\<close>

definition extract_word :: "string \<Rightarrow> (string \<times> string) option" where
  "extract_word s =
     (let t = dropWhile isspace s in
      if t = [] then None
      else Some (takeWhile (\<lambda>c. \<not> isspace c) t, dropWhile (\<lambda>c. \<not> isspace c) t))"

section \<open>The states of the parser\<close>

text \<open>
  The words of the request line. The stream writes each field as it is extracted, so a line
  with too few words leaves the fields already read, as in the source.
\<close>

definition set_request :: "(http_request \<Rightarrow> http_request) \<Rightarrow> http_parser \<Rightarrow> http_parser" where
  "set_request f p = p\<lparr>hp_request := f (hp_request p)\<rparr>"

definition request_words :: "http_parser \<Rightarrow> string \<Rightarrow> parse_result \<times> http_parser" where
  "request_words p line =
     (case extract_word line of
        None \<Rightarrow> (ERROR, p)
      | Some (m, r1) \<Rightarrow>
          let p1 = set_request (rq_method_update (\<lambda>_. m)) p in
          (case extract_word r1 of
             None \<Rightarrow> (ERROR, p1)
           | Some (u, r2) \<Rightarrow>
               let p2 = set_request (rq_path_update (\<lambda>_. u)) p1 in
               (case extract_word r2 of
                  None \<Rightarrow> (ERROR, p2)
                | Some (v, r3) \<Rightarrow>
                    let p3 = set_request (rq_version_update (\<lambda>_. v)) p2 in
                    if extract_word r3 \<noteq> None then (ERROR, p3)
                    else if v \<noteq> ''HTTP/1.1'' \<and> v \<noteq> ''HTTP/1.0'' then (ERROR, p3)
                    else (INCOMPLETE, p3\<lparr>hp_state := HEADERS\<rparr>))))"

definition parse_request_line ::
  "http_parser \<Rightarrow> buffer \<Rightarrow> (parse_result \<times> http_parser \<times> buffer) result" where
  "parse_request_line p b =
     rbind (find_crlf b) (\<lambda>e.
     if e = npos then
       Inr (if readable b > lim_request_line_bytes (hp_limits p) then ERROR else INCOMPLETE, p, b)
     else if e > lim_request_line_bytes (hp_limits p) then Inr (ERROR, p, b)
     else
       rbind (read_ptr e b) (\<lambda>line.
       rbind (consume (e + 2) b) (\<lambda>b'.
         case request_words p line of (r, p') \<Rightarrow> Inr (r, p', b'))))"

text \<open>\<open>line.find(':')\<close>; \<open>None\<close> is \<open>npos\<close>.\<close>

fun find_char :: "char \<Rightarrow> string \<Rightarrow> nat option" where
  "find_char c [] = None"
| "find_char c (x # xs) = (if x = c then Some 0 else map_option Suc (find_char c xs))"

text \<open>One non-empty header line; \<open>None\<close> is the result \<open>ERROR\<close>.\<close>

definition header_line :: "http_parser \<Rightarrow> string \<Rightarrow> http_parser option" where
  "header_line p line =
     (case find_char (CHR '':'') line of
        None \<Rightarrow> None
      | Some colon \<Rightarrow>
          let key = trim (take colon line); value = trim (drop (colon + 1) line) in
          let store = set_request (rq_headers_update (\<lambda>h. h(key \<mapsto> value))) in
          if key = [] then None
          else if iequals key ''Content-Length'' then
            (case parse_size value of
               None \<Rightarrow> None
             | Some parsed \<Rightarrow>
                 if parsed > lim_body_bytes (hp_limits p) then None
                 else if hp_content_length_seen p \<and> parsed \<noteq> hp_content_length p then None
                 else Some (store (p\<lparr>hp_content_length_seen := True, hp_content_length := parsed\<rparr>)))
          else if iequals key ''Transfer-Encoding'' \<and> \<not> iequals value ''identity'' then None
          else Some (store p))"

lemma find_crlf_from_bound:
  "find_crlf_from data sz i = Inr e \<Longrightarrow> e \<noteq> npos \<Longrightarrow> e + 1 < sz"
proof (induction data sz i rule: find_crlf_from.induct)
  case (1 data sz i)
  from "1.prems" "1.IH" show ?case
    by (subst (asm) (1) find_crlf_from.simps) (auto simp: result_simps split: if_splits)
qed

lemma consume_shrinks:
  assumes "consume n b = Inr b'" and "n \<noteq> 0"
  shows "unat (readable b') < unat (readable b)"
proof -
  from assms have le: "n \<le> readable b"
    and r: "readable b' = readable b - n"
    by (auto simp: consume_def readable_def Let_def algebra_simps split: if_splits)
  from le have "unat (readable b - n) = unat (readable b) - unat n" by (rule unat_sub)
  moreover have "0 < unat n" using assms(2) by (simp add: unat_gt_0)
  moreover have "unat n \<le> unat (readable b)" using le by (simp add: word_le_nat_alt)
  ultimately show ?thesis using r by simp
qed

lemma line_shrinks:
  assumes "find_crlf b = Inr e" and "e \<noteq> npos" and "consume (e + 2) b = Inr b'"
  shows "unat (readable b') < unat (readable b)"
proof -
  from assms(1,2) have lt: "e + 1 < readable b"
    by (auto simp: find_crlf_def dest: find_crlf_from_bound)
  have "e + 2 \<noteq> 0"
  proof
    assume "e + 2 = 0"
    then have "e + 1 = - 1" by (simp add: eq_neg_iff_add_eq_0 add.commute)
    with lt show False by simp
  qed
  with assms(3) show ?thesis by (rule consume_shrinks)
qed

function parse_headers ::
  "http_parser \<Rightarrow> buffer \<Rightarrow> (parse_result \<times> http_parser \<times> buffer) result" where
  "parse_headers p b =
     rbind (find_crlf b) (\<lambda>e.
     if e = npos then
       Inr (if hp_header_bytes p + readable b > lim_header_bytes (hp_limits p)
            then ERROR else INCOMPLETE, p, b)
     else if hp_header_bytes p + e + 2 > lim_header_bytes (hp_limits p) then Inr (ERROR, p, b)
     else
       let p1 = p\<lparr>hp_header_bytes := hp_header_bytes p + (e + 2)\<rparr> in
       if e = 0 then
         rbind (consume 2 b) (\<lambda>b'.
           Inr (INCOMPLETE, p1\<lparr>hp_state := if hp_content_length p1 = 0 then DONE else BODY\<rparr>, b'))
       else
         rbind (read_ptr e b) (\<lambda>line.
         rbind (consume (e + 2) b) (\<lambda>b'.
           case header_line p1 line of
             None \<Rightarrow> Inr (ERROR, p1, b')
           | Some p2 \<Rightarrow> parse_headers p2 b')))"
  by pat_completeness auto
termination
proof (relation "measure (\<lambda>(p, b). unat (readable b))", goal_cases)
  case 1
  show ?case by simp
next
  case 2
  then show ?case by (auto intro: line_shrinks)
qed

declare parse_headers.simps [simp del]

definition parse_body ::
  "http_parser \<Rightarrow> buffer \<Rightarrow> (parse_result \<times> http_parser \<times> buffer) result" where
  "parse_body p b =
     (if hp_content_length p > lim_body_bytes (hp_limits p) then Inr (ERROR, p, b)
      else if readable b < hp_content_length p then Inr (INCOMPLETE, p, b)
      else
        rbind (read_ptr (hp_content_length p) b) (\<lambda>s.
        let p1 = set_request (rq_body_update (\<lambda>_. s)) p in
        rbind (consume (hp_content_length p) b) (\<lambda>b'.
          Inr (COMPLETE, p1\<lparr>hp_state := DONE\<rparr>, b'))))"

definition parse_step ::
  "http_parser \<Rightarrow> buffer \<Rightarrow> (parse_result \<times> http_parser \<times> buffer) result" where
  "parse_step p b =
     (case hp_state p of
        REQUEST_LINE \<Rightarrow> parse_request_line p b
      | HEADERS \<Rightarrow> parse_headers p b
      | BODY \<Rightarrow> parse_body p b
      | DONE \<Rightarrow> Inr (COMPLETE, p, b))"

text \<open>The states follow one another; the loop of \<open>parse\<close> ends because none is entered twice.\<close>

fun state_rank :: "parse_state \<Rightarrow> nat" where
  "state_rank REQUEST_LINE = 3"
| "state_rank HEADERS = 2"
| "state_rank BODY = 1"
| "state_rank DONE = 0"

lemma set_request_simps [simp]:
  "hp_limits (set_request f p) = hp_limits p"
  "hp_state (set_request f p) = hp_state p"
  "hp_request (set_request f p) = f (hp_request p)"
  "hp_content_length (set_request f p) = hp_content_length p"
  "hp_header_bytes (set_request f p) = hp_header_bytes p"
  "hp_content_length_seen (set_request f p) = hp_content_length_seen p"
  by (simp_all add: set_request_def)

lemma request_words_frame [simp]:
  "hp_limits (snd (request_words p line)) = hp_limits p"
  "hp_content_length (snd (request_words p line)) = hp_content_length p"
  "hp_header_bytes (snd (request_words p line)) = hp_header_bytes p"
  "hp_content_length_seen (snd (request_words p line)) = hp_content_length_seen p"
  by (simp_all add: request_words_def Let_def split: option.split)

lemma request_words_state:
  "fst (request_words p line) = INCOMPLETE \<and> hp_state (snd (request_words p line)) = HEADERS \<or>
   fst (request_words p line) = ERROR \<and> hp_state (snd (request_words p line)) = hp_state p"
  by (simp add: request_words_def Let_def split: option.split)

lemma header_line_frame:
  "header_line p line = Some p' \<Longrightarrow>
     hp_limits p' = hp_limits p \<and> hp_state p' = hp_state p \<and> hp_header_bytes p' = hp_header_bytes p"
  by (auto simp: header_line_def Let_def split: option.splits if_splits)

text \<open>How \<open>parse_headers\<close> can return: one case per exit of its loop body, and the next turn.\<close>

lemma parse_headers_cases:
  assumes "parse_headers p b = Inr (r, p', b')"
  obtains (partial) "find_crlf b = Inr npos" and "p' = p" and "b' = b"
      and "r = (if hp_header_bytes p + readable b > lim_header_bytes (hp_limits p)
                then ERROR else INCOMPLETE)"
  | (limit) e where "find_crlf b = Inr e" and "e \<noteq> npos" and "r = ERROR" and "p' = p" and "b' = b"
      and "hp_header_bytes p + e + 2 > lim_header_bytes (hp_limits p)"
  | (blank) "find_crlf b = Inr 0" and "r = INCOMPLETE" and "consume 2 b = Inr b'"
      and "p' = p\<lparr>hp_header_bytes := hp_header_bytes p + 2,
                  hp_state := if hp_content_length p = 0 then DONE else BODY\<rparr>"
      and "\<not> hp_header_bytes p + 2 > lim_header_bytes (hp_limits p)"
  | (bad) e line where "find_crlf b = Inr e" and "e \<noteq> npos" and "e \<noteq> 0" and "read_ptr e b = Inr line"
      and "consume (e + 2) b = Inr b'" and "r = ERROR"
      and "p' = p\<lparr>hp_header_bytes := hp_header_bytes p + (e + 2)\<rparr>" and "header_line p' line = None"
      and "\<not> hp_header_bytes p + e + 2 > lim_header_bytes (hp_limits p)"
  | (more) e line b1 p2 where "find_crlf b = Inr e" and "e \<noteq> npos" and "e \<noteq> 0"
      and "read_ptr e b = Inr line" and "consume (e + 2) b = Inr b1"
      and "header_line (p\<lparr>hp_header_bytes := hp_header_bytes p + (e + 2)\<rparr>) line = Some p2"
      and "\<not> hp_header_bytes p + e + 2 > lim_header_bytes (hp_limits p)"
      and "parse_headers p2 b1 = Inr (r, p', b')"
proof -
  from assms obtain e where e: "find_crlf b = Inr e"
    by (subst (asm) parse_headers.simps) (auto simp: result_simps)
  let ?p1 = "p\<lparr>hp_header_bytes := hp_header_bytes p + (e + 2)\<rparr>"
  consider "e = npos" | "e \<noteq> npos" "hp_header_bytes p + e + 2 > lim_header_bytes (hp_limits p)"
    | "e \<noteq> npos" "\<not> hp_header_bytes p + e + 2 > lim_header_bytes (hp_limits p)" "e = 0"
    | "e \<noteq> npos" "\<not> hp_header_bytes p + e + 2 > lim_header_bytes (hp_limits p)" "e \<noteq> 0"
    by blast
  then show ?thesis
  proof cases
    case 1
    with e assms show ?thesis
      by (intro partial) (auto simp: parse_headers.simps [of p b])
  next
    case 2
    with e assms show ?thesis
      by (intro limit [of e]) (simp_all add: parse_headers.simps [of p b])
  next
    case 3
    with e assms show ?thesis
      by (intro blank) (auto simp: parse_headers.simps [of p b] result_simps Let_def)
  next
    case 4
    with e assms obtain line b1 where l: "read_ptr e b = Inr line" "consume (e + 2) b = Inr b1"
      by (auto simp: parse_headers.simps [of p b] result_simps Let_def)
    show ?thesis
    proof (cases "header_line ?p1 line")
      case None
      with 4 e l assms show ?thesis
        by (intro bad [of e line]) (simp_all add: parse_headers.simps [of p b])
    next
      case (Some p2)
      with 4 e l assms show ?thesis
        by (intro more [of e line b1 p2]) (simp_all add: parse_headers.simps [of p b])
    qed
  qed
qed

lemma parse_headers_state:
  "parse_headers p b = Inr (r, p', b') \<Longrightarrow>
     hp_limits p' = hp_limits p \<and>
     (r = ERROR \<and> hp_state p' = hp_state p \<or>
      r = INCOMPLETE \<and> (hp_state p' = hp_state p \<or> hp_state p' = BODY \<or> hp_state p' = DONE))"
proof (induction "unat (readable b)" arbitrary: p b rule: less_induct)
  case less
  from less.prems show ?case
  proof (cases rule: parse_headers_cases)
    case (more e line b1 p2)
    from more(1,2,5) have "unat (readable b1) < unat (readable b)" by (rule line_shrinks)
    from less.hyps [OF this more(8)] header_line_frame [OF more(6)] show ?thesis by auto
  qed auto
qed

lemma parse_step_rank:
  assumes "parse_step p b = Inr (INCOMPLETE, p', b')" and "hp_state p' \<noteq> hp_state p"
  shows "state_rank (hp_state p') < state_rank (hp_state p)"
proof (cases "hp_state p")
  case REQUEST_LINE
  with assms obtain line where "p' = snd (request_words p line)" "fst (request_words p line) = INCOMPLETE"
    by (auto simp: parse_step_def parse_request_line_def result_simps case_prod_unfold split: if_splits)
  with request_words_state [of p line] REQUEST_LINE show ?thesis by simp
next
  case HEADERS
  with assms show ?thesis by (auto simp: parse_step_def dest!: parse_headers_state)
next
  case BODY
  with assms show ?thesis by (auto simp: parse_step_def parse_body_def result_simps Let_def split: if_splits)
next
  case DONE
  with assms show ?thesis by (simp add: parse_step_def)
qed

function parse :: "http_parser \<Rightarrow> buffer \<Rightarrow> (parse_result \<times> http_parser \<times> buffer) result" where
  "parse p b =
     rbind (parse_step p b) (\<lambda>(r, p', b').
     if r = ERROR \<or> r = COMPLETE then Inr (r, p', b')
     else if hp_state p' = hp_state p then Inr (INCOMPLETE, p', b')
     else parse p' b')"
  by pat_completeness auto
termination
proof (relation "measure (\<lambda>(p, b). state_rank (hp_state p))", goal_cases)
  case 1
  show ?case by simp
next
  case (2 p b x r y p' b')
  then have "r = INCOMPLETE" by (cases r) auto
  with 2 show ?case by (auto dest: parse_step_rank)
qed

declare parse.simps [simp del]

end
