(* ===== verification/Http_Spec.thy ===== *)
theory Http_Spec
  imports Http_Parser
begin

text \<open>
  The parser seen from outside: a reference parser on plain byte strings with unbounded
  arithmetic, the refinement that ties the buffer-based parser to it, and how the reference parser
  treats input that arrives in fragments or is followed by more.
\<close>

section \<open>A reference parser on byte strings\<close>

definition spec_request_line :: "http_parser \<Rightarrow> bytes \<Rightarrow> parse_result \<times> http_parser \<times> bytes" where
  "spec_request_line p xs =
     (case crlf_pos xs of
        None \<Rightarrow> (if length xs > unat (lim_request_line_bytes (hp_limits p)) then ERROR else INCOMPLETE, p, xs)
      | Some k \<Rightarrow>
          if k > unat (lim_request_line_bytes (hp_limits p)) then (ERROR, p, xs)
          else (fst (request_words p (take k xs)), snd (request_words p (take k xs)), drop (k + 2) xs))"

function spec_headers :: "http_parser \<Rightarrow> bytes \<Rightarrow> parse_result \<times> http_parser \<times> bytes" where
  "spec_headers p xs =
     (case crlf_pos xs of
        None \<Rightarrow>
          (if unat (hp_header_bytes p) + length xs > unat (lim_header_bytes (hp_limits p))
           then ERROR else INCOMPLETE, p, xs)
      | Some k \<Rightarrow>
          if unat (hp_header_bytes p) + k + 2 > unat (lim_header_bytes (hp_limits p)) then (ERROR, p, xs)
          else
            let p1 = p\<lparr>hp_header_bytes := hp_header_bytes p + (word_of_nat k + 2)\<rparr> in
            if k = 0 then
              (INCOMPLETE, p1\<lparr>hp_state := if hp_content_length p = 0 then DONE else BODY\<rparr>, drop 2 xs)
            else
              (case header_line p1 (take k xs) of
                 None \<Rightarrow> (ERROR, p1, drop (k + 2) xs)
               | Some p2 \<Rightarrow> spec_headers p2 (drop (k + 2) xs)))"
  by pat_completeness auto
termination
  by (relation "measure (\<lambda>(p, xs). length xs)") (auto simp: crlf_pos_Some_iff crlf_at_def)

declare spec_headers.simps [simp del]

definition counted :: "http_parser \<Rightarrow> nat \<Rightarrow> http_parser" where
  "counted p k = p\<lparr>hp_header_bytes := hp_header_bytes p + (word_of_nat k + 2)\<rparr>"

lemma counted_simps [simp]:
  "hp_limits (counted p k) = hp_limits p"
  "hp_state (counted p k) = hp_state p"
  "hp_request (counted p k) = hp_request p"
  "hp_content_length (counted p k) = hp_content_length p"
  "hp_content_length_seen (counted p k) = hp_content_length_seen p"
  by (simp_all add: counted_def)

text \<open>One equation and one induction case per way a header line is treated.\<close>

abbreviation over_limit :: "http_parser \<Rightarrow> nat \<Rightarrow> bool" where
  "over_limit p k \<equiv> unat (hp_header_bytes p) + k + 2 > unat (lim_header_bytes (hp_limits p))"

lemma spec_headers_more:
  "crlf_pos xs = Some k \<Longrightarrow> \<not> over_limit p k \<Longrightarrow> k \<noteq> 0 \<Longrightarrow> header_line (counted p k) (take k xs) = Some p2 \<Longrightarrow>
     spec_headers p xs = spec_headers p2 (drop (k + 2) xs)"
  by (simp add: spec_headers.simps [of p xs] Let_def counted_def)

lemma spec_headers_bad:
  "crlf_pos xs = Some k \<Longrightarrow> \<not> over_limit p k \<Longrightarrow> k \<noteq> 0 \<Longrightarrow> header_line (counted p k) (take k xs) = None \<Longrightarrow>
     spec_headers p xs = (ERROR, counted p k, drop (k + 2) xs)"
  by (simp add: spec_headers.simps [of p xs] Let_def counted_def)

lemma spec_headers_blank:
  "crlf_pos xs = Some 0 \<Longrightarrow> \<not> over_limit p 0 \<Longrightarrow>
     spec_headers p xs =
       (INCOMPLETE, (counted p 0)\<lparr>hp_state := if hp_content_length p = 0 then DONE else BODY\<rparr>, drop 2 xs)"
  by (simp add: spec_headers.simps [of p xs] Let_def counted_def)

lemma spec_headers_limit:
  "crlf_pos xs = Some k \<Longrightarrow> over_limit p k \<Longrightarrow> spec_headers p xs = (ERROR, p, xs)"
  by (simp add: spec_headers.simps [of p xs])

lemma spec_headers_partial:
  "crlf_pos xs = None \<Longrightarrow>
     spec_headers p xs =
       (if unat (hp_header_bytes p) + length xs > unat (lim_header_bytes (hp_limits p))
        then ERROR else INCOMPLETE, p, xs)"
  by (simp add: spec_headers.simps [of p xs])

lemma spec_headers_induct [case_names partial limit blank bad more]:
  assumes "\<And>p xs. crlf_pos xs = None \<Longrightarrow> P p xs"
    and "\<And>p xs k. crlf_pos xs = Some k \<Longrightarrow> over_limit p k \<Longrightarrow> P p xs"
    and "\<And>p xs. crlf_pos xs = Some 0 \<Longrightarrow> \<not> over_limit p 0 \<Longrightarrow> P p xs"
    and "\<And>p xs k. crlf_pos xs = Some k \<Longrightarrow> \<not> over_limit p k \<Longrightarrow> k \<noteq> 0 \<Longrightarrow>
           header_line (counted p k) (take k xs) = None \<Longrightarrow> P p xs"
    and "\<And>p xs k p2. crlf_pos xs = Some k \<Longrightarrow> \<not> over_limit p k \<Longrightarrow> k \<noteq> 0 \<Longrightarrow>
           header_line (counted p k) (take k xs) = Some p2 \<Longrightarrow> P p2 (drop (k + 2) xs) \<Longrightarrow> P p xs"
  shows "P p xs"
proof (induction p xs rule: spec_headers.induct)
  case (1 p xs)
  show ?case
  proof (cases "crlf_pos xs")
    case None
    then show ?thesis by (rule assms(1))
  next
    case (Some k)
    show ?thesis
    proof (cases "over_limit p k \<or> k = 0")
      case True
      with Some assms(2,3) show ?thesis by blast
    next
      case False
      then show ?thesis
        using assms(4,5) [OF Some] "1.IH" [OF Some _ refl]
        by (cases "header_line (counted p k) (take k xs)") (auto simp: counted_def)
    qed
  qed
qed

definition spec_body :: "http_parser \<Rightarrow> bytes \<Rightarrow> parse_result \<times> http_parser \<times> bytes" where
  "spec_body p xs =
     (let n = unat (hp_content_length p) in
      if n > unat (lim_body_bytes (hp_limits p)) then (ERROR, p, xs)
      else if length xs < n then (INCOMPLETE, p, xs)
      else (COMPLETE, (set_request (rq_body_update (\<lambda>_. take n xs)) p)\<lparr>hp_state := DONE\<rparr>, drop n xs))"

definition spec_step :: "http_parser \<Rightarrow> bytes \<Rightarrow> parse_result \<times> http_parser \<times> bytes" where
  "spec_step p xs =
     (case hp_state p of
        REQUEST_LINE \<Rightarrow> spec_request_line p xs
      | HEADERS \<Rightarrow> spec_headers p xs
      | BODY \<Rightarrow> spec_body p xs
      | DONE \<Rightarrow> (COMPLETE, p, xs))"

text \<open>At most three steps change the state, so three turns of the loop are enough fuel.\<close>

fun spec_loop :: "nat \<Rightarrow> http_parser \<Rightarrow> bytes \<Rightarrow> parse_result \<times> http_parser \<times> bytes" where
  "spec_loop 0 p xs = spec_step p xs"
| "spec_loop (Suc n) p xs =
     (case spec_step p xs of
        (r, p', xs') \<Rightarrow>
          if r \<noteq> INCOMPLETE \<or> hp_state p' = hp_state p then (r, p', xs') else spec_loop n p' xs')"

definition spec_parse :: "http_parser \<Rightarrow> bytes \<Rightarrow> parse_result \<times> http_parser \<times> bytes" where
  "spec_parse p xs = spec_loop (state_rank (hp_state p)) p xs"

section \<open>The buffer-based parser refines the reference parser\<close>

text \<open>
  The running count of header bytes stays within the limit, and the limit leaves room for the
  sums the code forms (a buffer holds at most \<open>2^63 - 1\<close> bytes).
\<close>

definition parser_ok :: "http_parser \<Rightarrow> bool" where
  "parser_ok p \<longleftrightarrow>
     unat (hp_header_bytes p) \<le> unat (lim_header_bytes (hp_limits p)) \<and>
     unat (lim_header_bytes (hp_limits p)) \<le> 2 ^ 63"

definition agrees :: "(parse_result \<times> http_parser \<times> buffer) result \<Rightarrow> parse_result \<times> http_parser \<times> bytes \<Rightarrow> bool" where
  "agrees out spec \<longleftrightarrow>
     (\<exists>b'. out = Inr (fst spec, fst (snd spec), b') \<and> buffer_inv b' \<and> contents b' = snd (snd spec))"

lemma request_line_agrees:
  assumes "buffer_inv b"
  shows "agrees (parse_request_line p b) (spec_request_line p (contents b))"
  using assms
proof (cases rule: bb.find_cases)
  case absent
  with assms show ?thesis
    by (simp add: agrees_def parse_request_line_def spec_request_line_def word_less_nat_alt length_contents)
next
  case (found k)
  from bb.take_line [OF assms found(1)] obtain line b' where
    l: "read_ptr (word_of_nat k) b = Inr line" "consume (word_of_nat k + 2) b = Inr b'"
      "buffer_inv b'" "length line = k" "contents b = line @ [CHR 0x0D, CHR 0x0A] @ contents b'"
    by blast
  have "take k (contents b) = line" "drop (k + 2) (contents b) = contents b'"
    using l(4) by (simp_all add: l(5))
  with found l(1-3) assms show ?thesis
    by (simp add: agrees_def parse_request_line_def spec_request_line_def word_less_nat_alt case_prod_unfold)
qed

lemma headers_agree:
  assumes "buffer_inv b" and "parser_ok p"
  shows "agrees (parse_headers p b) (spec_headers p (contents b))"
  using assms
proof (induction "length (contents b)" arbitrary: p b rule: less_induct)
  case less
  note ok = less.prems(2) [unfolded parser_ok_def]
  have room: "length (contents b) \<le> 2 ^ 63 - 1"
    using length_contents_bound [OF less.prems(1)] by (simp add: vector_max_size_def)
  from less.prems(1) show ?case
  proof (cases rule: bb.find_cases)
    case absent
    have "unat (hp_header_bytes p + readable b) = unat (hp_header_bytes p) + length (contents b)"
      using ok room less.prems(1) by (subst unat_add_64) (simp_all add: length_contents)
    with absent less.prems(1) show ?thesis
      by (simp add: agrees_def parse_headers.simps [of p b] spec_headers.simps [of p "contents b"] word_less_nat_alt)
  next
    case (found k)
    have k2: "unat (word_of_nat k + 2 :: size_t) = k + 2"
      using found(4,5) room by (subst unat_add_64) simp_all
    have sum: "unat (hp_header_bytes p + word_of_nat k + 2) = unat (hp_header_bytes p) + k + 2"
      unfolding add.assoc using ok found(5) room by (subst unat_add_64) (simp_all add: k2)
    show ?thesis
    proof (cases "unat (hp_header_bytes p) + k + 2 > unat (lim_header_bytes (hp_limits p))")
      case True
      with found less.prems(1) show ?thesis
        by (simp add: agrees_def parse_headers.simps [of p b] spec_headers.simps [of p "contents b"]
            word_less_nat_alt sum)
    next
      case False
      let ?p1 = "p\<lparr>hp_header_bytes := hp_header_bytes p + (word_of_nat k + 2)\<rparr>"
      from bb.take_line [OF less.prems(1) found(1)] obtain line b' where
        l: "read_ptr (word_of_nat k) b = Inr line" "consume (word_of_nat k + 2) b = Inr b'"
          "buffer_inv b'" "length line = k" "contents b = line @ [CHR 0x0D, CHR 0x0A] @ contents b'"
        by blast
      have cut: "take k (contents b) = line" "drop (k + 2) (contents b) = contents b'"
        using l(4) by (simp_all add: l(5))
      show ?thesis
      proof (cases "k = 0")
        case True
        with found l(1-3) cut(2) False sum show ?thesis
          by (simp add: agrees_def parse_headers.simps [of p b] spec_headers.simps [of p "contents b"]
              word_less_nat_alt numeral_2_eq_2)
      next
        case nonblank: False
        then have nz: "(word_of_nat k :: size_t) \<noteq> 0" using found(4) by force
        have conc: "parse_headers p b =
            (case header_line ?p1 line of None \<Rightarrow> Inr (ERROR, ?p1, b') | Some p2 \<Rightarrow> parse_headers p2 b')"
          using found l(1,2) False nz by (simp add: parse_headers.simps [of p b] word_less_nat_alt sum Let_def)
        have spec: "spec_headers p (contents b) =
            (case header_line ?p1 line of None \<Rightarrow> (ERROR, ?p1, contents b') | Some p2 \<Rightarrow> spec_headers p2 (contents b'))"
          using found False nonblank cut
          by (simp add: spec_headers.simps [of p "contents b"] Let_def split: option.split)
        show ?thesis
        proof (cases "header_line ?p1 line")
          case None
          with l conc spec show ?thesis by (simp add: agrees_def)
        next
          case (Some p2)
          have "parser_ok p2"
            using header_line_frame [OF Some] ok False sum by (simp add: parser_ok_def add.assoc)
          moreover have "length (contents b') < length (contents b)" by (simp add: l(5))
          ultimately have "agrees (parse_headers p2 b') (spec_headers p2 (contents b'))"
            using less.hyps l(3) by blast
          with conc spec Some show ?thesis by simp
        qed
      qed
    qed
  qed
qed

lemma body_agrees:
  assumes "buffer_inv b"
  shows "agrees (parse_body p b) (spec_body p (contents b))"
proof (cases "hp_content_length p > lim_body_bytes (hp_limits p) \<or> readable b < hp_content_length p")
  case True
  with assms show ?thesis
    by (auto simp: agrees_def parse_body_def spec_body_def word_less_nat_alt length_contents)
next
  case False
  then have le: "unat (hp_content_length p) \<le> length (contents b)"
    using assms by (simp add: word_less_nat_alt length_contents)
  from bb.consume_view [OF assms this] obtain b' where
    "consume (hp_content_length p) b = Inr b'" "buffer_inv b'"
    "contents b' = drop (unat (hp_content_length p)) (contents b)"
    by blast
  with False le bb.read_view [OF assms le] show ?thesis
    by (simp add: agrees_def parse_body_def spec_body_def word_less_nat_alt Let_def)
qed

lemma step_agrees:
  "buffer_inv b \<Longrightarrow> parser_ok p \<Longrightarrow> agrees (parse_step p b) (spec_step p (contents b))"
  by (cases "hp_state p")
     (simp_all add: parse_step_def spec_step_def request_line_agrees headers_agree body_agrees,
      simp add: agrees_def)

lemma spec_headers_state:
  "spec_headers p xs = (r, p', xs') \<Longrightarrow>
     hp_limits p' = hp_limits p \<and>
     (r = ERROR \<and> hp_state p' = hp_state p \<or>
      r = INCOMPLETE \<and> (hp_state p' = hp_state p \<or> hp_state p' = BODY \<or> hp_state p' = DONE))"
proof (induction p xs rule: spec_headers_induct)
  case (more p xs k p2)
  from more.IH more.prems header_line_frame [OF more.hyps(4)] show ?case
    by (simp add: spec_headers_more [OF more.hyps])
qed (auto simp: spec_headers_partial spec_headers_limit spec_headers_blank spec_headers_bad split: if_splits)

lemma spec_step_rank:
  assumes "spec_step p xs = (INCOMPLETE, p', xs')" and "hp_state p' \<noteq> hp_state p"
  shows "state_rank (hp_state p') < state_rank (hp_state p)"
proof (cases "hp_state p")
  case REQUEST_LINE
  with assms obtain line where "p' = snd (request_words p line)" "fst (request_words p line) = INCOMPLETE"
    by (auto simp: spec_step_def spec_request_line_def split: if_splits option.splits)
  with request_words_state [of p line] REQUEST_LINE show ?thesis by simp
next
  case HEADERS
  with assms show ?thesis by (auto simp: spec_step_def dest!: spec_headers_state)
next
  case BODY
  with assms show ?thesis by (auto simp: spec_step_def spec_body_def Let_def split: if_splits)
next
  case DONE
  with assms show ?thesis by (simp add: spec_step_def)
qed

text \<open>The equation of the source's loop, recovered for the reference parser.\<close>

lemma spec_loop_fuel:
  "state_rank (hp_state p) \<le> n \<Longrightarrow> spec_loop n p xs = spec_parse p xs"
proof (induction n arbitrary: p xs rule: less_induct)
  case (less n)
  obtain r p' xs' where st: "spec_step p xs = (r, p', xs')" by (cases "spec_step p xs") auto
  show ?case
  proof (cases "r = INCOMPLETE \<and> hp_state p' \<noteq> hp_state p")
    case True
    then have "state_rank (hp_state p') < state_rank (hp_state p)"
      using st spec_step_rank by auto
    with less.prems obtain m k where n: "n = Suc m" "state_rank (hp_state p) = Suc k"
        "state_rank (hp_state p') \<le> m" "state_rank (hp_state p') \<le> k"
      by (cases n; cases "state_rank (hp_state p)") auto
    have "spec_loop m p' xs' = spec_parse p' xs'" using less.IH n by simp
    moreover have "spec_loop k p' xs' = spec_parse p' xs'"
      using less.IH [of k] n less.prems by simp
    ultimately show ?thesis using True st n by (simp add: spec_parse_def)
  next
    case False
    with st show ?thesis by (cases n; cases "state_rank (hp_state p)") (auto simp: spec_parse_def)
  qed
qed

lemma spec_parse_unfold:
  "spec_parse p xs =
     (case spec_step p xs of
        (r, p', xs') \<Rightarrow>
          if r \<noteq> INCOMPLETE \<or> hp_state p' = hp_state p then (r, p', xs') else spec_parse p' xs')"
proof -
  have le: "state_rank (hp_state q) \<le> 3" for q by (cases "hp_state q") simp_all
  have "spec_parse p xs = spec_loop (Suc 3) p xs"
    using le [of p] by (intro spec_loop_fuel [symmetric]) simp
  then show ?thesis by (simp only: spec_loop.simps(2) spec_loop_fuel [OF le])
qed

lemma counted_ok:
  assumes "parser_ok p" and "\<not> over_limit p k" and "k + 1 < length xs" and "length xs \<le> vector_max_size"
  shows "parser_ok (counted p k)"
proof -
  have "unat (word_of_nat k :: size_t) = k"
    using assms(3,4) by (intro unat_of_nat_64) (simp add: vector_max_size_def)
  then have "unat (word_of_nat k + 2 :: size_t) = k + 2"
    using assms(3,4) by (subst unat_add_64) (simp_all add: vector_max_size_def)
  then have "unat (hp_header_bytes p + (word_of_nat k + 2)) = unat (hp_header_bytes p) + (k + 2)"
    using assms(1,2) by (subst unat_add_64) (simp_all add: parser_ok_def)
  with assms(1,2) show ?thesis by (simp add: parser_ok_def counted_def)
qed

lemma spec_headers_ok:
  "parser_ok p \<Longrightarrow> length xs \<le> vector_max_size \<Longrightarrow> parser_ok (fst (snd (spec_headers p xs)))"
proof (induction p xs rule: spec_headers_induct)
  case (partial p xs)
  then show ?case by (simp add: spec_headers_partial)
next
  case (limit p xs k)
  then show ?case by (simp add: spec_headers_limit)
next
  case (blank p xs)
  moreover from blank have "0 + 1 < length xs" by (simp add: crlf_pos_Some_iff crlf_at_def)
  ultimately have "parser_ok (counted p 0)" by (intro counted_ok [of p 0 xs]) auto
  with blank show ?case by (simp add: spec_headers_blank parser_ok_def)
next
  case (bad p xs k)
  moreover from bad have "k + 1 < length xs" by (simp add: crlf_pos_Some_iff crlf_at_def)
  ultimately show ?case by (simp add: spec_headers_bad counted_ok [of p k xs])
next
  case (more p xs k p2)
  from more.hyps(1) have "k + 1 < length xs" by (simp add: crlf_pos_Some_iff crlf_at_def)
  with more have "parser_ok (counted p k)" by (intro counted_ok [of p k xs]) auto
  with header_line_frame [OF more.hyps(4)] have "parser_ok p2" by (simp add: parser_ok_def)
  with more.IH more.prems(2) show ?case by (simp add: spec_headers_more [OF more.hyps])
qed

lemma spec_step_ok:
  assumes "parser_ok p" and "spec_step p xs = (r, p', xs')" and "length xs \<le> vector_max_size"
  shows "parser_ok p' \<and> hp_limits p' = hp_limits p"
proof (cases "hp_state p")
  case HEADERS
  with assms have "spec_headers p xs = (r, p', xs')" by (simp add: spec_step_def)
  with spec_headers_ok [OF assms(1,3)] spec_headers_state [of p xs r p' xs'] show ?thesis by simp
next
  case REQUEST_LINE
  with assms show ?thesis
    by (auto simp: spec_step_def spec_request_line_def parser_ok_def split: option.splits if_splits)
next
  case BODY
  with assms show ?thesis
    by (auto simp: spec_step_def spec_body_def parser_ok_def Let_def split: if_splits)
next
  case DONE
  with assms show ?thesis by (simp add: spec_step_def)
qed

lemma parse_agrees:
  "buffer_inv b \<Longrightarrow> parser_ok p \<Longrightarrow> agrees (parse p b) (spec_parse p (contents b))"
proof (induction p b rule: parse.induct)
  case (1 p b)
  obtain r p' xs' where st: "spec_step p (contents b) = (r, p', xs')"
    by (cases "spec_step p (contents b)") auto
  with step_agrees [OF "1.prems"] obtain b' where
    b': "parse_step p b = Inr (r, p', b')" "buffer_inv b'" "contents b' = xs'"
    by (auto simp: agrees_def)
  have ok: "parser_ok p'"
    using spec_step_ok [OF "1.prems"(2) st] length_contents_bound [OF "1.prems"(1)] by simp
  show ?case
  proof (cases "r = INCOMPLETE \<and> hp_state p' \<noteq> hp_state p")
    case True
    then have "agrees (parse p' b') (spec_parse p' (contents b'))"
      using "1.IH" [OF b'(1) refl refl] b'(2) ok by simp
    with True b' st show ?thesis
      by (simp add: parse.simps [of p b] spec_parse_unfold [of p "contents b"])
  next
    case False
    then show ?thesis using b' st
      by (cases r) (auto simp: agrees_def parse.simps [of p b] spec_parse_unfold [of p "contents b"])
  qed
qed

section \<open>Fragmentation and pipelining\<close>

lemma crlf_pos_append: "crlf_pos xs = Some k \<Longrightarrow> crlf_pos (xs @ ys) = Some k"
  by (auto simp: crlf_pos_Some_iff crlf_at_def nth_append)

lemma crlf_pos_append_None:
  assumes "crlf_pos xs = None" and "crlf_pos (xs @ ys) = Some k"
  shows "length xs \<le> k + 1"
proof (rule ccontr)
  assume "\<not> length xs \<le> k + 1"
  with assms(2) have "crlf_at xs k"
    by (simp add: crlf_pos_Some_iff crlf_at_def nth_append)
  with assms(1) show False by (simp add: crlf_pos_None_iff)
qed

lemma crlf_pos_prefix: "crlf_pos xs = Some k \<Longrightarrow> take k (xs @ ys) = take k xs \<and> drop (k + 2) (xs @ ys) = drop (k + 2) xs @ ys"
  by (auto simp: crlf_pos_Some_iff crlf_at_def)

text \<open>What more input does to an unfinished and to a finished header section.\<close>

lemma spec_headers_append:
  "spec_headers p xs = (INCOMPLETE, p', xs') \<Longrightarrow> hp_state p = HEADERS \<Longrightarrow>
     spec_headers p (xs @ ys) =
       (if hp_state p' = HEADERS then spec_headers p' (xs' @ ys) else (INCOMPLETE, p', xs' @ ys))"
proof (induction p xs rule: spec_headers_induct)
  case (partial p xs)
  then show ?case by (auto simp: spec_headers_partial split: if_splits)
next
  case (limit p xs k)
  then show ?case by (simp add: spec_headers_limit)
next
  case (blank p xs)
  note app = crlf_pos_append [OF blank(1), of ys] crlf_pos_prefix [OF blank(1), of ys]
  have "spec_headers p (xs @ ys) =
      (INCOMPLETE, (counted p 0)\<lparr>hp_state := if hp_content_length p = 0 then DONE else BODY\<rparr>, drop 2 xs @ ys)"
    using app blank(2) by (simp add: spec_headers_blank numeral_2_eq_2)
  with blank show ?case by (auto simp: spec_headers_blank split: if_splits)
next
  case (bad p xs k)
  then show ?case by (simp add: spec_headers_bad)
next
  case (more p xs k p2)
  note app = crlf_pos_append [OF more.hyps(1), of ys] crlf_pos_prefix [OF more.hyps(1), of ys]
  have "spec_headers p (xs @ ys) = spec_headers p2 (drop (k + 2) xs @ ys)"
    using app more.hyps(2-4) spec_headers_more [of "xs @ ys" k p p2]
    by (simp del: take_append drop_append)
  with more.IH more.prems header_line_frame [OF more.hyps(4)] show ?case
    by (simp add: spec_headers_more [OF more.hyps])
qed

lemma spec_step_append:
  assumes "spec_step p xs = (INCOMPLETE, p', xs')"
  shows "if hp_state p' = hp_state p then spec_step p (xs @ ys) = spec_step p' (xs' @ ys)
         else spec_step p (xs @ ys) = (INCOMPLETE, p', xs' @ ys)"
proof (cases "hp_state p")
  case REQUEST_LINE
  show ?thesis
  proof (cases "crlf_pos xs")
    case None
    with REQUEST_LINE assms show ?thesis
      by (auto simp: spec_step_def spec_request_line_def split: if_splits)
  next
    case (Some k)
    then have "hp_state p' = HEADERS"
      using REQUEST_LINE assms request_words_state [of p "take k xs"]
      by (auto simp: spec_step_def spec_request_line_def split: if_splits)
    with Some REQUEST_LINE assms crlf_pos_append [OF Some, of ys] crlf_pos_prefix [OF Some, of ys]
    show ?thesis by (auto simp: spec_step_def spec_request_line_def split: if_splits)
  qed
next
  case HEADERS
  with assms spec_headers_append [of p xs p' xs' ys] show ?thesis by (simp add: spec_step_def)
next
  case BODY
  with assms show ?thesis by (auto simp: spec_step_def spec_body_def Let_def split: if_splits)
next
  case DONE
  with assms show ?thesis by (simp add: spec_step_def)
qed

lemma spec_parse_fragments:
  "spec_parse p xs = (INCOMPLETE, p', xs') \<Longrightarrow> spec_parse p (xs @ ys) = spec_parse p' (xs' @ ys)"
proof (induction "state_rank (hp_state p)" arbitrary: p xs rule: less_induct)
  case less
  obtain r q zs where st: "spec_step p xs = (r, q, zs)" by (cases "spec_step p xs") auto
  show ?case
  proof (cases "r = INCOMPLETE \<and> hp_state q \<noteq> hp_state p")
    case True
    with st have "spec_step p (xs @ ys) = (INCOMPLETE, q, zs @ ys)"
      using spec_step_append [of p xs q zs ys] by simp
    moreover have "spec_parse q (zs @ ys) = spec_parse p' (xs' @ ys)"
      using less True st spec_step_rank [of p xs q zs] by (simp add: spec_parse_unfold [of p xs])
    ultimately show ?thesis using True by (simp add: spec_parse_unfold [of p "xs @ ys"])
  next
    case False
    with st less.prems have eq: "r = INCOMPLETE" "q = p'" "zs = xs'" "hp_state p' = hp_state p"
      by (auto simp: spec_parse_unfold [of p xs] split: if_splits)
    with st have "spec_step p (xs @ ys) = spec_step p' (xs' @ ys)"
      using spec_step_append [of p xs p' xs' ys] by simp
    with eq show ?thesis
      by (simp add: spec_parse_unfold [of p "xs @ ys"] spec_parse_unfold [of p' "xs' @ ys"])
  qed
qed

lemma spec_step_complete_append:
  assumes "spec_step p xs = (COMPLETE, p', xs')"
  shows "spec_step p (xs @ ys) = (COMPLETE, p', xs' @ ys)"
proof (cases "hp_state p")
  case REQUEST_LINE
  then show ?thesis
    using assms request_words_state [of p]
    by (auto simp: spec_step_def spec_request_line_def split: option.splits if_splits)
       (metis parse_result.distinct)+
next
  case HEADERS
  with assms spec_headers_state [of p xs COMPLETE p' xs'] show ?thesis by (simp add: spec_step_def)
next
  case BODY
  with assms show ?thesis by (auto simp: spec_step_def spec_body_def Let_def split: if_splits)
next
  case DONE
  with assms show ?thesis by (simp add: spec_step_def)
qed

lemma spec_parse_pipelined:
  "spec_parse p xs = (COMPLETE, p', xs') \<Longrightarrow> spec_parse p (xs @ ys) = (COMPLETE, p', xs' @ ys)"
proof (induction "state_rank (hp_state p)" arbitrary: p xs rule: less_induct)
  case less
  obtain r q zs where st: "spec_step p xs = (r, q, zs)" by (cases "spec_step p xs") auto
  show ?case
  proof (cases "r = INCOMPLETE \<and> hp_state q \<noteq> hp_state p")
    case True
    with st have "spec_step p (xs @ ys) = (INCOMPLETE, q, zs @ ys)"
      using spec_step_append [of p xs q zs ys] by simp
    moreover have "spec_parse q (zs @ ys) = (COMPLETE, p', xs' @ ys)"
      using less True st spec_step_rank [of p xs q zs] by (simp add: spec_parse_unfold [of p xs])
    ultimately show ?thesis using True by (simp add: spec_parse_unfold [of p "xs @ ys"])
  next
    case False
    with st less.prems have "spec_step p xs = (COMPLETE, p', xs')"
      by (auto simp: spec_parse_unfold [of p xs] split: if_splits)
    then show ?thesis
      using spec_step_complete_append [of p xs p' xs' ys] by (simp add: spec_parse_unfold [of p "xs @ ys"])
  qed
qed

end
