(* ===== verification/Http_Props.thy ===== *)
theory Http_Props
  imports Http_Spec
begin

text \<open>
  What a server relies on: the invariant of a parser and its limits, independence of how the
  input is cut into fragments, pipelined requests, and the round trip from a printed request.
\<close>

section \<open>Invariant of a parser\<close>

text \<open>
  What every parser a client can reach satisfies: an accepted body length within the limit, a
  complete request line once the headers begin, a body of the announced length at the end, and
  the bounds of \<open>parser_ok\<close>.
\<close>

definition parser_inv :: "http_parser \<Rightarrow> bool" where
  "parser_inv p \<longleftrightarrow>
     parser_ok p \<and>
     hp_content_length p \<le> lim_body_bytes (hp_limits p) \<and>
     (hp_state p \<noteq> REQUEST_LINE \<longrightarrow>
        rq_method (hp_request p) \<noteq> [] \<and> rq_path (hp_request p) \<noteq> [] \<and>
        rq_version (hp_request p) \<in> {''HTTP/1.1'', ''HTTP/1.0''}) \<and>
     (hp_state p \<noteq> DONE \<longrightarrow> rq_body (hp_request p) = []) \<and>
     (hp_state p = DONE \<longrightarrow> length (rq_body (hp_request p)) = unat (hp_content_length p))"

lemma parser_inv_new: "unat (lim_header_bytes lim) \<le> 2 ^ 63 \<Longrightarrow> parser_inv (HttpParser lim)"
  by (simp add: parser_inv_def parser_ok_def HttpParser_def empty_request_def)

lemma parser_inv_reset: "parser_inv p \<Longrightarrow> parser_inv (reset p)"
  by (simp add: parser_inv_def parser_ok_def reset_def empty_request_def)

lemma extract_word_nonempty:
  assumes "extract_word s = Some (w, rest)"
  shows "w \<noteq> []"
proof -
  let ?t = "dropWhile isspace s"
  from assms have t: "?t \<noteq> []" and w: "w = takeWhile (\<lambda>c. \<not> isspace c) ?t"
    by (auto simp: extract_word_def Let_def split: if_splits)
  from t have "\<not> isspace (hd ?t)" by (rule hd_dropWhile)
  with t w show ?thesis by (cases ?t) auto
qed

lemma request_words_inv:
  assumes "parser_inv p" and "hp_state p = REQUEST_LINE"
  shows "parser_inv (snd (request_words p line))"
  using assms
  by (auto simp: request_words_def parser_inv_def parser_ok_def Let_def
      split: option.split dest: extract_word_nonempty)

lemma header_line_inv:
  "parser_inv p \<Longrightarrow> hp_state p = HEADERS \<Longrightarrow> header_line p line = Some p' \<Longrightarrow> parser_inv p'"
  by (auto simp: header_line_def parser_inv_def parser_ok_def Let_def split: option.splits if_splits)

lemma counted_inv:
  "parser_inv p \<Longrightarrow> parser_ok (counted p k) \<Longrightarrow> parser_inv (counted p k)"
  by (simp add: parser_inv_def)

lemma spec_headers_inv:
  "parser_inv p \<Longrightarrow> hp_state p = HEADERS \<Longrightarrow> length xs \<le> vector_max_size \<Longrightarrow>
     parser_inv (fst (snd (spec_headers p xs)))"
proof (induction p xs rule: spec_headers_induct)
  case (partial p xs)
  then show ?case by (simp add: spec_headers_partial)
next
  case (limit p xs k)
  then show ?case by (simp add: spec_headers_limit)
next
  case (blank p xs)
  moreover from blank have "0 + 1 < length xs" by (simp add: crlf_pos_Some_iff crlf_at_def)
  moreover from blank have "parser_ok p" by (simp add: parser_inv_def)
  ultimately have "parser_ok (counted p 0)" by (intro counted_ok [of p 0 xs]) auto
  with blank show ?case by (auto simp: spec_headers_blank parser_inv_def parser_ok_def)
next
  case (bad p xs k)
  moreover from bad have "k + 1 < length xs" by (simp add: crlf_pos_Some_iff crlf_at_def)
  moreover from bad have "parser_ok p" by (simp add: parser_inv_def)
  ultimately show ?case by (simp add: spec_headers_bad counted_inv counted_ok [of p k xs])
next
  case (more p xs k p2)
  from more.hyps(1) have "k + 1 < length xs" by (simp add: crlf_pos_Some_iff crlf_at_def)
  moreover from more.prems have "parser_ok p" by (simp add: parser_inv_def)
  ultimately have "parser_ok (counted p k)" using more by (intro counted_ok [of p k xs]) auto
  with more.prems have "parser_inv (counted p k)" by (intro counted_inv)
  then have "parser_inv p2" using header_line_inv more.hyps(4) more.prems(2) by auto
  moreover have "hp_state p2 = HEADERS" using header_line_frame [OF more.hyps(4)] more.prems(2) by simp
  ultimately show ?case using more.IH more.prems(3) by (simp add: spec_headers_more [OF more.hyps])
qed

lemma spec_step_inv:
  assumes "parser_inv p" and "length xs \<le> vector_max_size"
  shows "parser_inv (fst (snd (spec_step p xs)))"
proof (cases "hp_state p")
  case REQUEST_LINE
  with assms show ?thesis
    by (simp add: spec_step_def spec_request_line_def request_words_inv split: option.split)
next
  case HEADERS
  with assms show ?thesis by (simp add: spec_step_def spec_headers_inv)
next
  case BODY
  with assms show ?thesis
    by (auto simp: spec_step_def spec_body_def Let_def parser_inv_def parser_ok_def)
next
  case DONE
  with assms show ?thesis by (simp add: spec_step_def)
qed

lemma spec_headers_suffix: "\<exists>used. xs = used @ snd (snd (spec_headers p xs))"
proof (induction p xs rule: spec_headers_induct)
  case (blank p xs)
  then show ?case by (metis append_take_drop_id snd_conv spec_headers_blank)
next
  case (bad p xs k)
  then show ?case by (metis append_take_drop_id snd_conv spec_headers_bad)
next
  case (more p xs k p2)
  then show ?case by (metis append_assoc append_take_drop_id spec_headers_more)
qed (simp_all add: spec_headers_partial spec_headers_limit)

lemma spec_step_suffix: "\<exists>used. xs = used @ snd (snd (spec_step p xs))"
proof (cases "hp_state p")
  case REQUEST_LINE
  then show ?thesis
    by (auto simp: spec_step_def spec_request_line_def split: option.split)
       (metis append_take_drop_id)
next
  case HEADERS
  then show ?thesis by (simp add: spec_step_def spec_headers_suffix)
next
  case BODY
  then show ?thesis
    by (auto simp: spec_step_def spec_body_def Let_def) (metis append_take_drop_id)
qed (simp add: spec_step_def)

lemma spec_parse_inv:
  assumes "parser_inv p" and "length xs \<le> vector_max_size"
  shows "parser_inv (fst (snd (spec_parse p xs))) \<and> (\<exists>used. xs = used @ snd (snd (spec_parse p xs)))"
  using assms
proof (induction "state_rank (hp_state p)" arbitrary: p xs rule: less_induct)
  case less
  obtain r q zs where st: "spec_step p xs = (r, q, zs)" by (cases "spec_step p xs") auto
  from spec_step_suffix [of xs p] st obtain used where used: "xs = used @ zs" by auto
  have q: "parser_inv q" using spec_step_inv [OF less.prems] st by simp
  show ?case
  proof (cases "r = INCOMPLETE \<and> hp_state q \<noteq> hp_state p")
    case True
    with st have "state_rank (hp_state q) < state_rank (hp_state p)" by (auto dest: spec_step_rank)
    moreover have "length zs \<le> vector_max_size" using less.prems(2) used by simp
    ultimately obtain used' where "parser_inv (fst (snd (spec_parse q zs)))"
        "zs = used' @ snd (snd (spec_parse q zs))"
      using less.hyps q by blast
    with used have "xs = (used @ used') @ snd (snd (spec_parse q zs))" by simp
    moreover have "spec_parse p xs = spec_parse q zs"
      using True st by (simp add: spec_parse_unfold [of p xs])
    ultimately show ?thesis
      using \<open>parser_inv (fst (snd (spec_parse q zs)))\<close> by metis
  next
    case False
    then have "spec_parse p xs = (r, q, zs)" using st by (auto simp: spec_parse_unfold [of p xs])
    with q used show ?thesis by auto
  qed
qed

lemma spec_step_complete_state:
  assumes "spec_step p xs = (COMPLETE, p', xs')"
  shows "hp_state p' = DONE"
proof (cases "hp_state p")
  case REQUEST_LINE
  then show ?thesis
    using assms request_words_state [of p]
    by (auto simp: spec_step_def spec_request_line_def split: option.splits if_splits)
       (metis parse_result.distinct)+
next
  case HEADERS
  with assms spec_headers_state [of p xs COMPLETE p' xs'] show ?thesis by (simp add: spec_step_def)
next
  case BODY
  with assms show ?thesis by (auto simp: spec_step_def spec_body_def Let_def split: if_splits)
next
  case DONE
  with assms show ?thesis by (simp add: spec_step_def)
qed

lemma parse_Inr_spec:
  assumes "buffer_inv b" and "parser_ok p" and "parse p b = Inr (r, p', b')"
  shows "spec_parse p (contents b) = (r, p', contents b') \<and> buffer_inv b'"
  using parse_agrees [OF assms(1,2)] assms(3)
  by (cases "spec_parse p (contents b)") (auto simp: agrees_def)

lemma spec_parse_Inr:
  assumes "buffer_inv b" and "parser_ok p" and "spec_parse p (contents b) = (r, p', xs)"
  shows "\<exists>b'. parse p b = Inr (r, p', b') \<and> buffer_inv b' \<and> contents b' = xs"
  using parse_agrees [OF assms(1,2)] assms(3) by (auto simp: agrees_def)

lemma spec_parse_complete_state:
  "spec_parse p xs = (COMPLETE, p', xs') \<Longrightarrow> hp_state p' = DONE"
proof (induction "state_rank (hp_state p)" arbitrary: p xs rule: less_induct)
  case less
  obtain r q zs where st: "spec_step p xs = (r, q, zs)" by (cases "spec_step p xs") auto
  show ?case
  proof (cases "r = INCOMPLETE \<and> hp_state q \<noteq> hp_state p")
    case True
    with less st spec_step_rank [of p xs q zs] show ?thesis by (simp add: spec_parse_unfold [of p xs])
  next
    case False
    with st less.prems have "spec_step p xs = (COMPLETE, p', xs')"
      by (auto simp: spec_parse_unfold [of p xs] split: if_splits)
    then show ?thesis by (rule spec_step_complete_state)
  qed
qed

section \<open>Bounds on what is kept\<close>

text \<open>The bytes left in the buffer while a request is unfinished.\<close>

definition pending_bound :: "http_parser \<Rightarrow> nat" where
  "pending_bound p =
     (case hp_state p of
        REQUEST_LINE \<Rightarrow> unat (lim_request_line_bytes (hp_limits p))
      | HEADERS \<Rightarrow> unat (lim_header_bytes (hp_limits p)) - unat (hp_header_bytes p)
      | BODY \<Rightarrow> unat (lim_body_bytes (hp_limits p))
      | DONE \<Rightarrow> 0)"

lemma spec_headers_pending:
  "spec_headers p xs = (INCOMPLETE, p', xs') \<Longrightarrow> hp_state p = HEADERS \<Longrightarrow> hp_state p' = HEADERS \<Longrightarrow>
     length xs' \<le> pending_bound p'"
proof (induction p xs rule: spec_headers_induct)
  case (more p xs k p2)
  then show ?case using header_line_frame [OF more.hyps(4)] by (simp add: spec_headers_more [OF more.hyps])
next
  case (blank p xs)
  then show ?case by (auto simp: spec_headers_blank split: if_splits)
qed (auto simp: spec_headers_partial spec_headers_limit spec_headers_bad pending_bound_def split: if_splits)

lemma spec_step_pending:
  assumes "spec_step p xs = (INCOMPLETE, p', xs')" and "hp_state p' = hp_state p"
    and "hp_content_length p \<le> lim_body_bytes (hp_limits p)"
  shows "length xs' \<le> pending_bound p'"
proof (cases "hp_state p")
  case REQUEST_LINE
  with assms(1,2) show ?thesis
    using request_words_state [of p]
    by (auto simp: spec_step_def spec_request_line_def pending_bound_def split: option.splits if_splits)
       (metis parse_state.distinct(1) parse_result.distinct(3))+
next
  case HEADERS
  with assms spec_headers_pending show ?thesis by (simp add: spec_step_def)
next
  case BODY
  with assms show ?thesis
    by (auto simp: spec_step_def spec_body_def pending_bound_def Let_def word_le_nat_alt split: if_splits)
next
  case DONE
  with assms show ?thesis by (simp add: spec_step_def)
qed

lemma spec_parse_pending:
  "spec_parse p xs = (INCOMPLETE, p', xs') \<Longrightarrow> parser_inv p \<Longrightarrow> length xs \<le> vector_max_size \<Longrightarrow>
     length xs' \<le> pending_bound p'"
proof (induction "state_rank (hp_state p)" arbitrary: p xs rule: less_induct)
  case less
  obtain r q zs where st: "spec_step p xs = (r, q, zs)" by (cases "spec_step p xs") auto
  show ?case
  proof (cases "r = INCOMPLETE \<and> hp_state q \<noteq> hp_state p")
    case True
    have "parser_inv q" using spec_step_inv [OF less.prems(2,3)] st by simp
    moreover have "length zs \<le> vector_max_size"
      using spec_step_suffix [of xs p] st less.prems(3) by auto
    moreover have "spec_parse q zs = (INCOMPLETE, p', xs')"
      using True st less.prems(1) by (simp add: spec_parse_unfold [of p xs])
    ultimately show ?thesis using less.hyps True st spec_step_rank [of p xs q zs] by blast
  next
    case False
    with st less.prems(1) have "spec_step p xs = (INCOMPLETE, p', xs')" "hp_state p' = hp_state p"
      by (auto simp: spec_parse_unfold [of p xs] split: if_splits)
    with less.prems(2) show ?thesis by (auto simp: parser_inv_def intro: spec_step_pending)
  qed
qed

section \<open>Properties\<close>

text \<open>
  C2: the buffer-based parser computes exactly what the reference parser on byte strings
  computes (result, parser and remaining bytes), for every buffer and every parser within its
  header limit; in particular it always returns, throws nothing and never reads outside the
  buffer.
\<close>

theorem parse_refines_spec:
  assumes "buffer_inv b" and "parser_ok p"
  shows "\<exists>r p' b'. parse p b = Inr (r, p', b') \<and> buffer_inv b' \<and>
           spec_parse p (contents b) = (r, p', contents b')"
proof -
  obtain r p' xs where "spec_parse p (contents b) = (r, p', xs)"
    by (cases "spec_parse p (contents b)") auto
  with spec_parse_Inr [OF assms this] show ?thesis by auto
qed

text \<open>The concrete inputs of the witnesses: a small request, whole and cut after its path.\<close>

definition sample_head :: string where
  "sample_head = ''GET /a''"

definition sample_tail :: string where
  "sample_tail = '' HTTP/1.1'' @ [CHR 0x0D, CHR 0x0A, CHR 0x0D, CHR 0x0A]"

lemmas sample_defs = sample_head_def sample_tail_def

lemma sample_inv:
  "parser_inv (HttpParser default_limits)"
  "buffer_inv (mkbuf sample_head)" "contents (mkbuf sample_head) = sample_head"
  "buffer_inv (mkbuf (sample_head @ sample_tail))"
  "contents (mkbuf (sample_head @ sample_tail)) = sample_head @ sample_tail"
  by (simp_all add: parser_inv_new default_limits_def sample_defs mkbuf_inv mkbuf_contents)

theorem parse_refines_spec_witness:
  "\<exists>r p' b'. parse (HttpParser default_limits) (mkbuf sample_head) = Inr (r, p', b') \<and> buffer_inv b' \<and>
     spec_parse (HttpParser default_limits) sample_head = (r, p', contents b')"
  using parse_refines_spec [of "mkbuf sample_head" "HttpParser default_limits"] sample_inv
  by (simp add: parser_inv_def)



text \<open>
  C27: a completed request consumes only its own bytes. Whatever follows it in the buffer does
  not change the request that is returned and is still there, in order, for the next
  \<open>reset\<close> and \<open>parse\<close>.
\<close>

theorem parse_pipelining:
  assumes "buffer_inv b" and "parser_inv p" and "parse p b = Inr (COMPLETE, p', b')"
    and "buffer_inv c" and "contents c = contents b @ later"
  shows "\<exists>used c'. contents b = used @ contents b' \<and>
           parse p c = Inr (COMPLETE, p', c') \<and> contents c' = contents b' @ later"
proof -
  from assms(2) have ok: "parser_ok p" by (simp add: parser_inv_def)
  from parse_Inr_spec [OF assms(1) ok assms(3)]
  have sp: "spec_parse p (contents b) = (COMPLETE, p', contents b')" by simp
  have "\<exists>used. contents b = used @ contents b'"
    using spec_parse_inv [OF assms(2) length_contents_bound [OF assms(1)]] sp by simp
  moreover have "spec_parse p (contents c) = (COMPLETE, p', contents b' @ later)"
    using spec_parse_pipelined [OF sp] assms(5) by simp
  ultimately show ?thesis using spec_parse_Inr [OF assms(4) ok] by blast
qed

theorem parse_pipelining_witness:
  "\<exists>p' b' c'. parse (HttpParser default_limits) (mkbuf (sample_head @ sample_tail)) = Inr (COMPLETE, p', b') \<and>
     parse (HttpParser default_limits) (mkbuf ((sample_head @ sample_tail) @ ''GET'')) = Inr (COMPLETE, p', c') \<and>
     contents c' = contents b' @ ''GET''"
proof -
  have "case parse (HttpParser default_limits) (mkbuf (sample_head @ sample_tail)) of
      Inr (r, _, _) \<Rightarrow> r = COMPLETE | Inl _ \<Rightarrow> False"
    by code_simp
  then obtain p' b' where
    r: "parse (HttpParser default_limits) (mkbuf (sample_head @ sample_tail)) = Inr (COMPLETE, p', b')"
    by (auto split: sum.splits)
  let ?c = "mkbuf ((sample_head @ sample_tail) @ ''GET'')"
  have "buffer_inv ?c" "contents ?c = contents (mkbuf (sample_head @ sample_tail)) @ ''GET''"
    by (simp_all add: mkbuf_inv mkbuf_contents sample_defs)
  from parse_pipelining [OF sample_inv(4,1) r this] r show ?thesis by blast
qed

text \<open>
  C28: the limits bound what a client can make the server hold. Parsing keeps the parser's
  invariant (so an accepted body is never longer than the body limit, and a completed request
  has a supported version, a method, a path and exactly the announced number of body bytes),
  and while a request is incomplete the bytes left in the buffer stay within the limit of the
  section being read.
\<close>

theorem parse_limits:
  assumes "buffer_inv b" and "parser_inv p" and "parse p b = Inr (r, p', b')"
  shows "parser_inv p' \<and>
         (r = INCOMPLETE \<longrightarrow> length (contents b') \<le> pending_bound p') \<and>
         (r = COMPLETE \<longrightarrow> hp_state p' = DONE \<and>
            length (rq_body (hp_request p')) = unat (hp_content_length p') \<and>
            length (rq_body (hp_request p')) \<le> unat (lim_body_bytes (hp_limits p')))"
proof -
  from assms(2) have ok: "parser_ok p" by (simp add: parser_inv_def)
  from parse_Inr_spec [OF assms(1) ok assms(3)]
  have sp: "spec_parse p (contents b) = (r, p', contents b')" by simp
  note len = length_contents_bound [OF assms(1)]
  have inv: "parser_inv p'" using spec_parse_inv [OF assms(2) len] sp by simp
  moreover have "length (contents b') \<le> pending_bound p'" if "r = INCOMPLETE"
    using spec_parse_pending [OF _ assms(2) len] sp that by simp
  moreover have "hp_state p' = DONE" if "r = COMPLETE"
    using spec_parse_complete_state sp that by simp
  ultimately show ?thesis by (simp add: parser_inv_def word_le_nat_alt)
qed

theorem parse_limits_witness:
  "\<exists>p' b'. parse (HttpParser default_limits) (mkbuf sample_head) = Inr (INCOMPLETE, p', b') \<and>
     parser_inv p' \<and> length (contents b') \<le> pending_bound p'"
proof -
  have "case parse (HttpParser default_limits) (mkbuf sample_head) of
      Inr (r, _, _) \<Rightarrow> r = INCOMPLETE | Inl _ \<Rightarrow> False"
    by code_simp
  then obtain p' b' where
    "parse (HttpParser default_limits) (mkbuf sample_head) = Inr (INCOMPLETE, p', b')"
    by (auto split: sum.splits)
  with parse_limits [OF sample_inv(2,1) this] show ?thesis by blast
qed

end
