(* ===== verification/Http_Roundtrip.thy ===== *)
theory Http_Roundtrip
  imports Http_Props
begin

text \<open>
  Printing a request and parsing it gives the request back. The printer is the plain HTTP/1.1
  form of a request: the request line, the header lines, the body length, a blank line and the
  body. Also here: how a request line of exactly the permitted length is treated when its line
  end is split.
\<close>

section \<open>Printing\<close>

abbreviation crlf :: string where
  "crlf \<equiv> [CHR 0x0D, CHR 0x0A]"

definition digit_char :: "nat \<Rightarrow> char" where
  "digit_char d = char_of (48 + d)"

fun print_nat :: "nat \<Rightarrow> string" where
  "print_nat n = (if n < 10 then [digit_char n] else print_nat (n div 10) @ [digit_char (n mod 10)])"

declare print_nat.simps [simp del]

definition print_header :: "string \<times> string \<Rightarrow> string" where
  "print_header h = fst h @ '': '' @ snd h @ crlf"

definition print_headers :: "(string \<times> string) list \<Rightarrow> string" where
  "print_headers hs = concat (map print_header hs)"

definition print_line :: "string \<Rightarrow> string \<Rightarrow> string \<Rightarrow> string" where
  "print_line m u v = m @ '' '' @ u @ '' '' @ v"

definition print_request ::
  "string \<Rightarrow> string \<Rightarrow> string \<Rightarrow> (string \<times> string) list \<Rightarrow> string \<Rightarrow> string" where
  "print_request m u v hs body =
     print_line m u v @ crlf @
     print_headers (hs @ [(''Content-Length'', print_nat (length body))]) @ crlf @ body"

definition is_word :: "string \<Rightarrow> bool" where
  "is_word w \<longleftrightarrow> w \<noteq> [] \<and> (\<forall>c \<in> set w. \<not> isspace c)"

definition trimmed :: "string \<Rightarrow> bool" where
  "trimmed s \<longleftrightarrow> s = [] \<or> hd s \<notin> trim_chars \<and> last s \<notin> trim_chars"

definition plain_header :: "string \<times> string \<Rightarrow> bool" where
  "plain_header h \<longleftrightarrow>
     fst h \<noteq> [] \<and> trimmed (fst h) \<and> trimmed (snd h) \<and> CHR '':'' \<notin> set (fst h) \<and>
     CHR 0x0D \<notin> set (fst h) \<and> CHR 0x0D \<notin> set (snd h) \<and>
     \<not> iequals (fst h) ''Content-Length'' \<and> \<not> iequals (fst h) ''Transfer-Encoding''"

section \<open>Scanning what was printed\<close>

lemma find_first_not_of_dropWhile:
  "find_first_not_of cs xs =
     (if dropWhile (\<lambda>c. c \<in> cs) xs = [] then None else Some (length xs - length (dropWhile (\<lambda>c. c \<in> cs) xs)))"
  by (induction xs) (auto simp: Suc_diff_le length_dropWhile_le)

lemma trim_trimmed:
  assumes "trimmed s"
  shows "trim s = s"
proof (cases s)
  case Nil
  then show ?thesis by (simp add: trim_def)
next
  case (Cons c cs)
  with assms have "find_first_not_of trim_chars s = Some 0" by (simp add: trimmed_def)
  moreover have "find_last_not_of trim_chars s = Some (length s - 1)"
    using assms Cons by (cases "rev s") (auto simp: find_last_not_of_def trimmed_def hd_rev [symmetric])
  ultimately show ?thesis using Cons by (simp add: trim_def)
qed

lemma trim_space:
  assumes "trimmed s"
  shows "trim (CHR '' '' # s) = s"
proof (cases s)
  case Nil
  then show ?thesis by (simp add: trim_def trim_chars_def)
next
  case (Cons c cs)
  with assms have "find_first_not_of trim_chars (CHR '' '' # s) = Some 1"
    by (auto simp: trimmed_def trim_chars_def)
  moreover have "find_last_not_of trim_chars (CHR '' '' # s) = Some (length s)"
    using assms Cons by (cases "rev s") (auto simp: find_last_not_of_def trimmed_def hd_rev [symmetric])
  ultimately show ?thesis using Cons by (simp add: trim_def)
qed

lemma find_char_append: "c \<notin> set xs \<Longrightarrow> find_char c (xs @ c # ys) = Some (length xs)"
  by (induction xs) auto

lemma crlf_pos_line:
  assumes "CHR 0x0D \<notin> set line"
  shows "crlf_pos (line @ crlf @ rest) = Some (length line)"
proof -
  have "line ! j \<noteq> CHR 0x0D" if "j < length line" for j
    using that assms nth_mem by metis
  then show ?thesis by (auto simp: crlf_pos_Some_iff crlf_at_def nth_append)
qed

lemma extract_word_eq:
  assumes "is_word w" and "rest = [] \<or> isspace (hd rest)"
  shows "extract_word (w @ rest) = Some (w, rest)"
proof -
  have "dropWhile isspace (w @ rest) = w @ rest"
    using assms(1) by (cases w) (auto simp: is_word_def)
  moreover have "takeWhile (\<lambda>c. \<not> isspace c) (w @ rest) = w"
    and "dropWhile (\<lambda>c. \<not> isspace c) (w @ rest) = rest"
    using assms by (cases rest; auto simp: is_word_def takeWhile_append2 dropWhile_append2)+
  ultimately show ?thesis using assms(1) by (simp add: extract_word_def is_word_def)
qed

lemma extract_word_space: "extract_word (CHR '' '' # s) = extract_word s"
  by (simp add: extract_word_def isspace_def)

lemma request_words_print:
  assumes "is_word m" "is_word u" "v \<in> {''HTTP/1.1'', ''HTTP/1.0''}"
  shows "request_words p (print_line m u v) =
     (INCOMPLETE, p\<lparr>hp_state := HEADERS,
        hp_request := (hp_request p)\<lparr>rq_method := m, rq_path := u, rq_version := v\<rparr>\<rparr>)"
proof -
  have sp: "isspace (CHR '' '')" by (simp add: isspace_def)
  have v: "is_word v" using assms(3) by (auto simp: is_word_def isspace_def)
  have m: "extract_word (print_line m u v) = Some (m, CHR '' '' # u @ CHR '' '' # v)"
    using extract_word_eq [OF assms(1), of "CHR '' '' # u @ CHR '' '' # v"] sp by (simp add: print_line_def)
  have u: "extract_word (CHR '' '' # u @ CHR '' '' # v) = Some (u, CHR '' '' # v)"
    using extract_word_eq [OF assms(2), of "CHR '' '' # v"] sp by (simp add: extract_word_space)
  have w: "extract_word (CHR '' '' # v) = Some (v, [])"
    using extract_word_eq [OF v, of "[]"] by (simp add: extract_word_space)
  have e: "extract_word [] = None" by (simp add: extract_word_def)
  from assms(3) have "\<not> (v \<noteq> ''HTTP/1.1'' \<and> v \<noteq> ''HTTP/1.0'')" by blast
  then show ?thesis
    by (simp only: request_words_def m u w e option.case prod.case Let_def if_False simp_thms set_request_def)
       simp
qed

lemma digit_value_char: "d < 10 \<Longrightarrow> digit_value (digit_char d) = Some d"
  by (simp add: digit_value_def digit_char_def Let_def)

lemma dec_value_append:
  "dec_value acc xs = (n, []) \<Longrightarrow> d < 10 \<Longrightarrow> dec_value acc (xs @ [digit_char d]) = (10 * n + d, [])"
  by (induction xs arbitrary: acc) (auto simp: digit_value_char split: option.splits)

lemma dec_value_print: "dec_value 0 (print_nat n) = (n, [])"
proof (induction n rule: print_nat.induct)
  case (1 n)
  show ?case
  proof (cases "n < 10")
    case True
    then show ?thesis by (simp add: print_nat.simps [of n] digit_value_char)
  next
    case False
    with 1 have "dec_value 0 (print_nat (n div 10)) = (n div 10, [])" by simp
    from dec_value_append [OF this, of "n mod 10"] False show ?thesis
      by (simp add: print_nat.simps [of n])
  qed
qed

lemma print_nat_digits: "c \<in> set (print_nat n) \<Longrightarrow> digit_value c \<noteq> None"
proof (induction n rule: print_nat.induct)
  case (1 n)
  then show ?case
    by (cases "n < 10") (auto simp: print_nat.simps [of n] digit_value_char)
qed

lemma print_nat_nonempty: "print_nat n \<noteq> []"
  by (subst print_nat.simps) simp

lemma parse_size_print:
  assumes "n < 2 ^ 64"
  shows "parse_size (print_nat n) = Some (word_of_nat n)"
proof -
  obtain c cs where c: "print_nat n = c # cs" using print_nat_nonempty by (cases "print_nat n") auto
  with print_nat_digits [of c n] have "digit_value c \<noteq> None" by simp
  moreover have "dec_value 0 (c # cs) = (n, [])" using dec_value_print [of n] c by simp
  ultimately show ?thesis using assms c by (simp add: parse_size_def from_chars_def del: dec_value.simps)
qed

lemma digits_plain: "digit_value c \<noteq> None \<Longrightarrow> c \<notin> trim_chars \<and> c \<noteq> CHR 0x0D"
  by (auto simp: digit_value_def trim_chars_def Let_def split: if_splits)

lemma trimmed_print_nat: "trimmed (print_nat n)"
  using print_nat_nonempty [of n] print_nat_digits [of _ n]
  by (simp add: trimmed_def digits_plain)

section \<open>Parsing what was printed\<close>

lemma header_line_plain:
  assumes "plain_header h"
  shows "header_line p (fst h @ '': '' @ snd h) =
     Some (set_request (rq_headers_update (\<lambda>m. m(fst h \<mapsto> snd h))) p)"
proof -
  have "find_char (CHR '':'') (fst h @ '': '' @ snd h) = Some (length (fst h))"
    using assms find_char_append [of "CHR '':''" "fst h" "CHR '' '' # snd h"] by (simp add: plain_header_def)
  moreover have "trim (fst h) = fst h" "trim (CHR '' '' # snd h) = snd h"
    using assms by (simp_all add: plain_header_def trim_trimmed trim_space)
  ultimately show ?thesis using assms by (simp add: header_line_def plain_header_def)
qed

lemma header_line_length:
  assumes "n \<le> unat (lim_body_bytes (hp_limits p))" and "\<not> hp_content_length_seen p"
  shows "header_line p (''Content-Length'' @ '': '' @ print_nat n) =
     Some (set_request (rq_headers_update (\<lambda>m. m(''Content-Length'' \<mapsto> print_nat n)))
       (p\<lparr>hp_content_length_seen := True, hp_content_length := word_of_nat n\<rparr>))"
proof -
  let ?k = "''Content-Length''"
  from assms(1) have n: "n < 2 ^ 64" using unat_le_64 [of "lim_body_bytes (hp_limits p)"] by simp
  have "find_char (CHR '':'') (?k @ '': '' @ print_nat n) = Some (length ?k)"
    using find_char_append [of "CHR '':''" ?k "CHR '' '' # print_nat n"] by simp
  moreover have "trim ?k = ?k" by (rule trim_trimmed) (simp add: trimmed_def trim_chars_def)
  moreover have "trim (CHR '' '' # print_nat n) = print_nat n" by (simp add: trim_space trimmed_print_nat)
  moreover have "iequals ?k ?k" by (simp add: iequals_def list.rel_refl)
  moreover have "\<not> word_of_nat n > lim_body_bytes (hp_limits p)"
    using assms(1) n by (simp add: word_less_nat_alt unat_of_nat_64)
  ultimately show ?thesis
    using assms(2) parse_size_print [OF n] unfolding header_line_def
    by (simp only: option.case Let_def list.distinct if_False if_True simp_thms
        append_eq_conv_conj take_append drop_append) simp
qed

definition stored :: "http_parser \<Rightarrow> string \<times> string \<Rightarrow> http_parser" where
  "stored p h =
     set_request (rq_headers_update (\<lambda>m. m(fst h \<mapsto> snd h))) (counted p (length (fst h) + 2 + length (snd h)))"

lemma length_print_header: "length (print_header h) = length (fst h) + 2 + length (snd h) + 2"
  by (simp add: print_header_def)

lemma unat_counted:
  assumes "unat (hp_header_bytes p) + k + 2 \<le> 2 ^ 63"
  shows "unat (hp_header_bytes (counted p k)) = unat (hp_header_bytes p) + k + 2"
proof -
  have k: "unat (word_of_nat k :: size_t) = k" using assms by (simp add: unat_of_nat_64)
  then have "unat (word_of_nat k + 2 :: size_t) = k + 2"
    using assms by (subst unat_add_64) simp_all
  with assms show ?thesis by (simp add: counted_def, subst unat_add_64) simp_all
qed

lemma stored_simps [simp]:
  "hp_limits (stored p h) = hp_limits p"
  "hp_state (stored p h) = hp_state p"
  "hp_content_length (stored p h) = hp_content_length p"
  "hp_content_length_seen (stored p h) = hp_content_length_seen p"
  "hp_request (stored p h) = (hp_request p)\<lparr>rq_headers := (rq_headers (hp_request p))(fst h \<mapsto> snd h)\<rparr>"
  by (simp_all add: stored_def)

lemma spec_headers_line:
  assumes "CHR 0x0D \<notin> set line" and "line \<noteq> []" and "\<not> over_limit p (length line)"
    and "header_line (counted p (length line)) line = Some p2"
  shows "spec_headers p (line @ crlf @ rest) = spec_headers p2 rest"
  using spec_headers_more [OF crlf_pos_line [OF assms(1), of rest] assms(3), of p2] assms(2,4) by simp

lemma spec_headers_print:
  "\<forall>h \<in> set hs. plain_header h \<Longrightarrow>
   unat (hp_header_bytes p) + length (print_headers hs) \<le> unat (lim_header_bytes (hp_limits p)) \<Longrightarrow>
   unat (lim_header_bytes (hp_limits p)) \<le> 2 ^ 63 \<Longrightarrow>
   spec_headers p (print_headers hs @ rest) = spec_headers (foldl stored p hs) rest \<and>
   unat (hp_header_bytes (foldl stored p hs)) = unat (hp_header_bytes p) + length (print_headers hs)"
proof (induction hs arbitrary: p)
  case Nil
  show ?case by (simp add: print_headers_def)
next
  case (Cons h hs)
  let ?line = "fst h @ '': '' @ snd h" and ?k = "length (fst h) + 2 + length (snd h)"
  let ?rest = "print_headers hs @ rest"
  have plain: "plain_header h" using Cons.prems(1) by simp
  have eq: "print_headers (h # hs) @ rest = ?line @ crlf @ ?rest"
    by (simp add: print_headers_def print_header_def)
  have len: "length (print_headers (h # hs)) = ?k + 2 + length (print_headers hs)"
    by (simp add: print_headers_def length_print_header)
  have fits: "\<not> over_limit p ?k" using Cons.prems(2) len by simp
  have count: "unat (hp_header_bytes (stored p h)) = unat (hp_header_bytes p) + ?k + 2"
    using unat_counted [of p ?k] fits Cons.prems(3) by (simp add: stored_def)
  have "spec_headers p (?line @ crlf @ ?rest) = spec_headers (stored p h) ?rest"
  proof (rule spec_headers_line)
    show "CHR 0x0D \<notin> set ?line" "?line \<noteq> []" using plain by (auto simp: plain_header_def)
    show "\<not> over_limit p (length ?line)" using fits by simp
    show "header_line (counted p (length ?line)) ?line = Some (stored p h)"
      using header_line_plain [OF plain] by (simp add: stored_def)
  qed
  with Cons.IH [of "stored p h"] Cons.prems count len eq show ?case by simp
qed

lemma foldl_stored:
  "hp_limits (foldl stored p hs) = hp_limits p \<and>
   hp_state (foldl stored p hs) = hp_state p \<and>
   hp_content_length (foldl stored p hs) = hp_content_length p \<and>
   hp_content_length_seen (foldl stored p hs) = hp_content_length_seen p \<and>
   hp_request (foldl stored p hs) =
     (hp_request p)\<lparr>rq_headers := rq_headers (hp_request p) ++ map_of (rev hs)\<rparr>"
proof (induction hs arbitrary: p)
  case Nil
  show ?case by simp
next
  case (Cons h hs)
  have "m ++ map_of (rev (h # hs)) = m(fst h \<mapsto> snd h) ++ map_of (rev hs)" for m :: "string \<rightharpoonup> string"
    by (cases h) (auto simp: map_add_def fun_eq_iff split: option.split)
  with Cons.IH [of "stored p h"] show ?case by (simp add: fun_upd_def del: rev.simps)
qed

lemma spec_parse_done: "hp_state p = DONE \<Longrightarrow> spec_parse p xs = (COMPLETE, p, xs)"
  by (simp add: spec_parse_unfold [of p] spec_step_def)

lemma spec_parse_body:
  assumes "hp_state p = BODY" and "unat (hp_content_length p) = length body"
    and "length body \<le> unat (lim_body_bytes (hp_limits p))"
  shows "\<exists>p'. spec_parse p (body @ later) = (COMPLETE, p', later) \<and>
           hp_request p' = (hp_request p)\<lparr>rq_body := body\<rparr>"
  using assms by (simp add: spec_parse_unfold [of p] spec_step_def spec_body_def Let_def)

lemma spec_parse_print_headers:
  assumes "hp_state p = HEADERS" and "\<forall>h \<in> set hs. plain_header h"
    and "unat (hp_header_bytes p) + length (print_headers (hs @ [(''Content-Length'', print_nat (length body))])) + 2
           \<le> unat (lim_header_bytes (hp_limits p))"
    and "unat (lim_header_bytes (hp_limits p)) \<le> 2 ^ 63"
    and "length body \<le> unat (lim_body_bytes (hp_limits p))"
    and "\<not> hp_content_length_seen p" and "rq_body (hp_request p) = []"
  shows "\<exists>p'. spec_parse p (print_headers (hs @ [(''Content-Length'', print_nat (length body))]) @ crlf @ body @ later)
             = (COMPLETE, p', later) \<and>
           hp_request p' = (hp_request p)\<lparr>rq_body := body,
             rq_headers := rq_headers (hp_request p) ++
               map_of (rev (hs @ [(''Content-Length'', print_nat (length body))]))\<rparr>"
proof -
  let ?cl = "(''Content-Length'', print_nat (length body))"
  define line where "line = ''Content-Length'' @ '': '' @ print_nat (length body)"
  let ?k = "16 + length (print_nat (length body))"
  define q where "q = foldl stored p hs"
  note q = foldl_stored [of p hs, folded q_def]
  have split: "print_headers (hs @ [?cl]) = print_headers hs @ line @ crlf"
    by (simp add: print_headers_def print_header_def line_def)
  have ll: "length line = ?k" by (simp add: line_def)
  with split have len: "length (print_headers (hs @ [?cl])) = length (print_headers hs) + ?k + 2" by (simp del: append_assoc)
  have hs: "spec_headers p (print_headers hs @ line @ crlf @ crlf @ body @ later) =
        spec_headers q (line @ crlf @ crlf @ body @ later)"
      "unat (hp_header_bytes q) = unat (hp_header_bytes p) + length (print_headers hs)"
    using spec_headers_print [of hs p] assms(2-4) len by (simp_all add: q_def)
  define q1 where "q1 = set_request (rq_headers_update (\<lambda>m. m(''Content-Length'' \<mapsto> print_nat (length body))))
       ((counted q ?k)\<lparr>hp_content_length_seen := True, hp_content_length := word_of_nat (length body)\<rparr>)"
  have fits: "\<not> over_limit q ?k" using hs(2) len assms(3) q by simp
  have s1: "spec_headers q (line @ crlf @ crlf @ body @ later) = spec_headers q1 (crlf @ body @ later)"
  proof (rule spec_headers_line)
    show "CHR 0x0D \<notin> set line" "line \<noteq> []"
      using print_nat_digits [of _ "length body"] digits_plain by (auto simp: line_def)
    show "\<not> over_limit q (length line)" using fits ll by simp
    show "header_line (counted q (length line)) line = Some q1"
      unfolding ll unfolding line_def q1_def
      by (rule header_line_length) (use assms(5,6) q in simp_all)
  qed
  have count: "unat (hp_header_bytes q1) = unat (hp_header_bytes q) + ?k + 2"
    using unat_counted [of q ?k] fits assms(4) q by (simp add: q1_def)
  define q2 where "q2 = (counted q1 0)\<lparr>hp_state := if hp_content_length q1 = 0 then DONE else BODY\<rparr>"
  have s2: "spec_headers q1 (crlf @ body @ later) = (INCOMPLETE, q2, body @ later)"
    using spec_headers_blank [of "crlf @ body @ later" q1] count hs(2) len assms(3) q
    by (simp add: q1_def q2_def)
  have cl: "unat (hp_content_length q1) = length body"
    using assms(5) unat_le_64 [of "lim_body_bytes (hp_limits p)"] by (simp add: q1_def unat_of_nat_64)
  have "spec_step p (print_headers (hs @ [?cl]) @ crlf @ body @ later) = (INCOMPLETE, q2, body @ later)"
    using assms(1) split hs(1) s1 s2 by (simp add: spec_step_def)
  moreover have "hp_state q2 \<noteq> hp_state p" using assms(1) by (simp add: q2_def)
  ultimately have "spec_parse p (print_headers (hs @ [?cl]) @ crlf @ body @ later) = spec_parse q2 (body @ later)"
    by (simp add: spec_parse_unfold [of p])
  moreover have "\<exists>p'. spec_parse q2 (body @ later) = (COMPLETE, p', later) \<and>
      hp_request p' = (hp_request q1)\<lparr>rq_body := body\<rparr>"
  proof (cases "body = []")
    case True
    then have z: "hp_content_length q1 = 0" using cl by (simp add: unat_eq_0)
    then have "spec_parse q2 later = (COMPLETE, q2, later)"
      by (intro spec_parse_done) (simp add: q2_def)
    moreover have "hp_request q2 = (hp_request q1)\<lparr>rq_body := []\<rparr>"
      using assms(7) q by (simp add: q2_def q1_def)
    ultimately show ?thesis using True by auto
  next
    case False
    then have "hp_content_length q1 \<noteq> 0" using cl by force
    then show ?thesis using spec_parse_body [of q2 body later] cl assms(5) q
      by (simp add: q2_def q1_def)
  qed
  ultimately show ?thesis using q by (auto simp: q1_def)
qed

lemma print_line_no_cr:
  assumes "is_word m" "is_word u" "v \<in> {''HTTP/1.1'', ''HTTP/1.0''}"
  shows "CHR 0x0D \<notin> set (print_line m u v)"
proof -
  have "CHR 0x0D \<notin> set w" if "is_word w" for w
    using that by (auto simp: is_word_def isspace_def)
  moreover have "CHR 0x0D \<notin> set v" using assms(3) by auto
  ultimately show ?thesis using assms(1,2) by (simp add: print_line_def)
qed

lemma spec_parse_print:
  assumes words: "is_word m" "is_word u" "v \<in> {''HTTP/1.1'', ''HTTP/1.0''}"
    and plain: "\<forall>h \<in> set hs. plain_header h"
    and line: "length (print_line m u v) \<le> unat (lim_request_line_bytes lim)"
    and head: "length (print_headers (hs @ [(''Content-Length'', print_nat (length body))])) + 2
           \<le> unat (lim_header_bytes lim)"
    and lim: "unat (lim_header_bytes lim) \<le> 2 ^ 63"
    and body: "length body \<le> unat (lim_body_bytes lim)"
  shows "\<exists>p'. spec_parse (HttpParser lim) (print_request m u v hs body @ later) = (COMPLETE, p', later) \<and>
           hp_request p' = \<lparr>rq_method = m, rq_path = u, rq_version = v,
             rq_headers = map_of (rev (hs @ [(''Content-Length'', print_nat (length body))])),
             rq_body = body\<rparr>"
proof -
  let ?rest = "print_headers (hs @ [(''Content-Length'', print_nat (length body))]) @ crlf @ body @ later"
  define p where "p = HttpParser lim"
  define p1 where "p1 = p\<lparr>hp_state := HEADERS,
        hp_request := (hp_request p)\<lparr>rq_method := m, rq_path := u, rq_version := v\<rparr>\<rparr>"
  have input: "print_request m u v hs body @ later = print_line m u v @ crlf @ ?rest"
    by (simp add: print_request_def)
  have "spec_step p (print_line m u v @ crlf @ ?rest) = (INCOMPLETE, p1, ?rest)"
    using crlf_pos_line [OF print_line_no_cr [OF words], of ?rest] request_words_print [OF words, of p] line
    by (simp add: spec_step_def spec_request_line_def p1_def p_def HttpParser_def)
  then have "spec_parse p (print_request m u v hs body @ later) = spec_parse p1 ?rest"
    unfolding input by (subst spec_parse_unfold) (simp add: p1_def p_def HttpParser_def)
  moreover have "\<exists>p'. spec_parse p1 ?rest = (COMPLETE, p', later) \<and>
     hp_request p' = (hp_request p1)\<lparr>rq_body := body,
             rq_headers := rq_headers (hp_request p1) ++
               map_of (rev (hs @ [(''Content-Length'', print_nat (length body))]))\<rparr>"
    by (rule spec_parse_print_headers)
       (use plain head lim body in \<open>simp_all add: p1_def p_def HttpParser_def empty_request_def\<close>)
  ultimately show ?thesis by (auto simp: p1_def p_def HttpParser_def empty_request_def)
qed

section \<open>Properties\<close>

text \<open>
  C7: round trip. A request printed in the plain form (words without white space, a supported
  version, headers without surrounding blanks, a \<open>Content-Length\<close>, a body) that fits the limits
  is parsed back exactly: the result is \<open>COMPLETE\<close>, the fields, the headers (the last of equal
  keys) and the body are the printed ones, and the bytes after the request stay in the buffer.
\<close>

theorem parse_print_roundtrip:
  assumes "buffer_inv b" and "contents b = print_request m u v hs body @ later"
    and "is_word m" and "is_word u" and "v \<in> {''HTTP/1.1'', ''HTTP/1.0''}"
    and "\<forall>h \<in> set hs. plain_header h"
    and "length (print_line m u v) \<le> unat (lim_request_line_bytes lim)"
    and "length (print_headers (hs @ [(''Content-Length'', print_nat (length body))])) + 2
           \<le> unat (lim_header_bytes lim)"
    and "unat (lim_header_bytes lim) \<le> 2 ^ 63"
    and "length body \<le> unat (lim_body_bytes lim)"
  shows "\<exists>p' b'. parse (HttpParser lim) b = Inr (COMPLETE, p', b') \<and> contents b' = later \<and>
           hp_request p' = \<lparr>rq_method = m, rq_path = u, rq_version = v,
             rq_headers = map_of (rev (hs @ [(''Content-Length'', print_nat (length body))])),
             rq_body = body\<rparr>"
proof -
  have "parser_ok (HttpParser lim)" using parser_inv_new [OF assms(9)] by (simp add: parser_inv_def)
  from spec_parse_Inr [OF assms(1) this] spec_parse_print [OF assms(3-10), of later] show ?thesis
    unfolding assms(2) by blast
qed

theorem parse_print_roundtrip_witness:
  "\<exists>p' b'. parse (HttpParser default_limits)
       (mkbuf (print_request ''PUT'' ''/a'' ''HTTP/1.1'' [(''Host'', ''h''), (''X'', [])] ''data'' @ ''next'')) =
       Inr (COMPLETE, p', b') \<and> contents b' = ''next'' \<and>
     rq_method (hp_request p') = ''PUT'' \<and> rq_body (hp_request p') = ''data''"
proof -
  let ?hs = "[(''Host'', ''h''), (''X'', [])]" and ?lim = default_limits
  let ?s = "print_request ''PUT'' ''/a'' ''HTTP/1.1'' ?hs ''data'' @ ''next''"
  have len: "length ?s < 1000" by code_simp
  note b = mkbuf_inv [OF len] mkbuf_contents [OF len]
  have w: "is_word ''PUT''" "is_word ''/a''" "\<forall>h \<in> set ?hs. plain_header h"
    by code_simp+
  have "length (print_line ''PUT'' ''/a'' ''HTTP/1.1'') \<le> 100"
    "length (print_headers (?hs @ [(''Content-Length'', print_nat (length ''data''))])) + 2 \<le> 100"
    by code_simp+
  then have l: "length (print_line ''PUT'' ''/a'' ''HTTP/1.1'') \<le> unat (lim_request_line_bytes ?lim)"
    "length (print_headers (?hs @ [(''Content-Length'', print_nat (length ''data''))])) + 2
       \<le> unat (lim_header_bytes ?lim)"
    "unat (lim_header_bytes ?lim) \<le> 2 ^ 63" "length ''data'' \<le> unat (lim_body_bytes ?lim)"
    by (simp_all add: default_limits_def)
  have v: "''HTTP/1.1'' \<in> {''HTTP/1.1'', ''HTTP/1.0''}" by (rule insertI1)
  from parse_print_roundtrip [OF b w(1,2) v w(3) l] show ?thesis by force
qed

text \<open>
  C29: a request line of exactly the permitted length is accepted when its line end is in the
  buffer, and rejected when the buffer stops between the carriage return and the line feed:
  there the verdict depends on how the bytes arrive, because the early check counts the
  carriage return as part of the line.
\<close>

theorem split_line_end_rejected:
  assumes "buffer_inv b" and "buffer_inv c" and "parser_ok p" and "hp_state p = REQUEST_LINE"
    and "is_word m" and "is_word u" and "v \<in> {''HTTP/1.1'', ''HTTP/1.0''}"
    and "length (print_line m u v) = unat (lim_request_line_bytes (hp_limits p))"
    and "contents b = print_line m u v @ [CHR 0x0D]" and "contents c = print_line m u v @ crlf"
  shows "parse p b = Inr (ERROR, p, b) \<and>
         (\<exists>p' c'. parse p c = Inr (INCOMPLETE, p', c') \<and> hp_state p' = HEADERS)"
proof
  note cr = print_line_no_cr [OF assms(5-7)]
  have "\<not> crlf_at (print_line m u v @ [CHR 0x0D]) j" for j
    using cr by (auto simp: crlf_at_def nth_append) (metis Suc_lessD nth_mem)
  then have "crlf_pos (contents b) = None" by (simp add: crlf_pos_None_iff assms(9))
  moreover have "readable b > lim_request_line_bytes (hp_limits p)"
    using length_contents [OF assms(1)] assms(8,9) by (simp add: word_less_nat_alt)
  ultimately have "parse_request_line p b = Inr (ERROR, p, b)"
    using find_crlf_eq [OF assms(1)] by (simp add: parse_request_line_def)
  then show "parse p b = Inr (ERROR, p, b)" using assms(4) by (simp add: parse.simps parse_step_def)
  define p1 where "p1 = p\<lparr>hp_state := HEADERS,
        hp_request := (hp_request p)\<lparr>rq_method := m, rq_path := u, rq_version := v\<rparr>\<rparr>"
  have "spec_step p (contents c) = (INCOMPLETE, p1, [])"
    using crlf_pos_line [OF cr, of "[]"] request_words_print [OF assms(5-7), of p] assms(4,8,10)
    by (simp add: spec_step_def spec_request_line_def p1_def)
  then have "spec_parse p (contents c) = spec_parse p1 []"
    using assms(4) by (subst spec_parse_unfold) (simp add: p1_def)
  also have "\<dots> = (INCOMPLETE, p1, [])"
    using assms(3) by (subst spec_parse_unfold) (simp add: spec_step_def spec_headers_partial p1_def parser_ok_def)
  finally show "\<exists>p' c'. parse p c = Inr (INCOMPLETE, p', c') \<and> hp_state p' = HEADERS"
    using spec_parse_Inr [OF assms(2,3)] by (auto simp: p1_def)
qed

theorem split_line_end_rejected_witness:
  "let p = HttpParser (default_limits\<lparr>lim_request_line_bytes := 15\<rparr>); line = print_line ''POST'' ''/'' ''HTTP/1.1''
   in parse p (mkbuf (line @ [CHR 0x0D])) = Inr (ERROR, p, mkbuf (line @ [CHR 0x0D])) \<and>
      (\<exists>p' c'. parse p (mkbuf (line @ crlf)) = Inr (INCOMPLETE, p', c') \<and> hp_state p' = HEADERS)"
proof -
  let ?p = "HttpParser (default_limits\<lparr>lim_request_line_bytes := 15\<rparr>)"
  let ?line = "print_line ''POST'' ''/'' ''HTTP/1.1''"
  have b: "buffer_inv (mkbuf (?line @ [CHR 0x0D]))" "buffer_inv (mkbuf (?line @ crlf))"
    "contents (mkbuf (?line @ [CHR 0x0D])) = ?line @ [CHR 0x0D]" "contents (mkbuf (?line @ crlf)) = ?line @ crlf"
    by (simp_all add: mkbuf_inv mkbuf_contents print_line_def)
  have p: "parser_ok ?p" "hp_state ?p = REQUEST_LINE" "is_word ''POST''" "is_word ''/''"
    "length ?line = unat (lim_request_line_bytes (hp_limits ?p))"
    by (simp_all add: parser_ok_def HttpParser_def default_limits_def is_word_def isspace_def print_line_def)
  have v: "''HTTP/1.1'' \<in> {''HTTP/1.1'', ''HTTP/1.0''}" by (rule insertI1)
  show ?thesis
    using split_line_end_rejected [OF b(1,2) p(1-4) v p(5) b(3,4)] by (simp only: Let_def)
qed

end
