(* ===== verification/Effects.thy ===== *)
theory Effects
  imports Prelude "HOL-Library.Finite_Map"
begin

text \<open>
  Stateful code that may throw. An operation on a state returns its value or its exception
  together with the state it leaves behind: a C++ exception does not undo what was done before
  it. Also here: what the development uses of finite maps, which model
  \<open>std::unordered_map\<close>.
\<close>

section \<open>Operations that throw\<close>

type_synonym ('s, 'a) eff = "'s \<Rightarrow> 'a result \<times> 's"

definition eret :: "'a \<Rightarrow> ('s, 'a) eff" where
  "eret x s = (Inr x, s)"

definition ethrow :: "exn \<Rightarrow> ('s, 'a) eff" where
  "ethrow e s = (Inl e, s)"

definition ebind :: "('s, 'a) eff \<Rightarrow> ('a \<Rightarrow> ('s, 'b) eff) \<Rightarrow> ('s, 'b) eff" where
  "ebind m f s = (case m s of (Inl e, s') \<Rightarrow> (Inl e, s') | (Inr x, s') \<Rightarrow> f x s')"

text \<open>\<open>try { m } catch (...) { h }\<close>; undefined behaviour is not an exception and is not caught.\<close>

definition ecatch :: "('s, 'a) eff \<Rightarrow> (exn \<Rightarrow> ('s, 'a) eff) \<Rightarrow> ('s, 'a) eff" where
  "ecatch m h s =
     (case m s of
        (Inl e, s') \<Rightarrow> if e = Undefined_behaviour then (Inl e, s') else h e s'
      | (Inr x, s') \<Rightarrow> (Inr x, s'))"

definition emodify :: "('s \<Rightarrow> 's) \<Rightarrow> ('s, unit) eff" where
  "emodify f s = (Inr (), f s)"

lemma eff_simps [simp]:
  "eret x s = (Inr x, s)"
  "ethrow e s = (Inl e, s)"
  "emodify f s = (Inr (), f s)"
  by (simp_all add: eret_def ethrow_def emodify_def)

lemma ebind_throw [simp]: "m s = (Inl e, s') \<Longrightarrow> ebind m f s = (Inl e, s')"
  by (simp add: ebind_def)

lemma ebind_ret [simp]: "m s = (Inr x, s') \<Longrightarrow> ebind m f s = f x s'"
  by (simp add: ebind_def)

lemma ebind_eq_Inr:
  "ebind m f s = (Inr y, s'') \<longleftrightarrow> (\<exists>x s'. m s = (Inr x, s') \<and> f x s' = (Inr y, s''))"
  by (auto simp: ebind_def split: prod.splits sum.splits)

lemma ebind_eq_Inl:
  "ebind m f s = (Inl e, s'') \<longleftrightarrow>
     m s = (Inl e, s'') \<or> (\<exists>x s'. m s = (Inr x, s') \<and> f x s' = (Inl e, s''))"
  by (auto simp: ebind_def split: prod.splits sum.splits)

lemma ecatch_ret [simp]: "m s = (Inr x, s') \<Longrightarrow> ecatch m h s = (Inr x, s')"
  by (simp add: ecatch_def)

lemma ecatch_throw [simp]: "m s = (Inl e, s') \<Longrightarrow> e \<noteq> Undefined_behaviour \<Longrightarrow> ecatch m h s = h e s'"
  by (simp add: ecatch_def)

section \<open>Weakest preconditions\<close>

text \<open>
  \<open>wp m Q E s\<close>: from state \<open>s\<close> the operation \<open>m\<close> does not run into undefined behaviour; if it
  returns, \<open>Q\<close> holds of its value and state, and if it throws, \<open>E\<close> holds of the exception and
  state.
\<close>

definition wp :: "('s, 'a) eff \<Rightarrow> ('a \<Rightarrow> 's \<Rightarrow> bool) \<Rightarrow> (exn \<Rightarrow> 's \<Rightarrow> bool) \<Rightarrow> 's \<Rightarrow> bool" where
  "wp m Q E s =
     (case m s of
        (Inr x, s') \<Rightarrow> Q x s'
      | (Inl e, s') \<Rightarrow> e \<noteq> Undefined_behaviour \<and> E e s')"

named_theorems wp_rules \<open>weakest preconditions of the combinators and operations\<close>

lemma wp_eret [simp]: "wp (eret x) Q E s = Q x s"
  by (simp add: wp_def)

lemma wp_ethrow [simp]: "wp (ethrow e) Q E s = (e \<noteq> Undefined_behaviour \<and> E e s)"
  by (simp add: wp_def)

lemma wp_emodify [simp]: "wp (emodify f) Q E s = Q () (f s)"
  by (simp add: wp_def)

lemma wp_Pair [simp]:
  "wp (Pair (Inr x)) Q E s = Q x s"
  "wp (Pair (Inl e)) Q E s = (e \<noteq> Undefined_behaviour \<and> E e s)"
  by (simp_all add: wp_def)

lemma wp_ebind: "wp (ebind m f) Q E s = wp m (\<lambda>x. wp (f x) Q E) E s"
  by (auto simp: wp_def ebind_def split: prod.splits sum.splits)

lemma wp_ecatch: "wp (ecatch m h) Q E s = wp m Q (\<lambda>e. wp (h e) Q E) s"
  by (auto simp: wp_def ecatch_def split: prod.splits sum.splits)

lemma wp_if: "wp (if c then m else m') Q E s = (if c then wp m Q E s else wp m' Q E s)"
  by simp

lemma wp_conseq:
  assumes "wp m Q E s" and "\<And>x s'. Q x s' \<Longrightarrow> Q' x s'" and "\<And>e s'. E e s' \<Longrightarrow> E' e s'"
  shows "wp m Q' E' s"
  using assms by (auto simp: wp_def split: prod.splits sum.splits)

lemma wp_bindI:
  assumes "wp m R E s" and "\<And>x s'. R x s' \<Longrightarrow> wp (f x) Q E s'"
  shows "wp (ebind m f) Q E s"
  unfolding wp_ebind using assms by (rule wp_conseq)

lemma wp_returns: "wp m Q E s \<Longrightarrow> m s = (Inr x, s') \<Longrightarrow> Q x s'"
  by (simp add: wp_def)

lemma wp_throws: "wp m Q E s \<Longrightarrow> m s = (Inl e, s') \<Longrightarrow> e \<noteq> Undefined_behaviour \<and> E e s'"
  by (simp add: wp_def)

section \<open>What an operation leaves alone\<close>

definition preserves :: "('s \<Rightarrow> 'b) \<Rightarrow> ('s, 'a) eff \<Rightarrow> bool" where
  "preserves f m \<longleftrightarrow> (\<forall>s. f (snd (m s)) = f s)"

named_theorems preserve_rules \<open>observations that operations do not change\<close>

lemma preservesD: "preserves f m \<Longrightarrow> f (snd (m s)) = f s"
  by (simp add: preserves_def)

lemma preserves_result: "preserves f m \<Longrightarrow> m s = (r, s') \<Longrightarrow> f s' = f s"
  by (metis preservesD snd_conv)

lemma preserves_eret [preserve_rules]: "preserves f (eret x)"
  by (simp add: preserves_def)

lemma preserves_ethrow [preserve_rules]: "preserves f (ethrow e)"
  by (simp add: preserves_def)

lemma preserves_emodify [preserve_rules]: "(\<And>s. f (g s) = f s) \<Longrightarrow> preserves f (emodify g)"
  by (simp add: preserves_def)

lemma preserves_ebind [preserve_rules]:
  "preserves f m \<Longrightarrow> (\<And>x. preserves f (g x)) \<Longrightarrow> preserves f (ebind m g)"
  by (auto simp: preserves_def ebind_def split: prod.splits sum.splits) (metis snd_conv)+

lemma preserves_ecatch [preserve_rules]:
  "preserves f m \<Longrightarrow> (\<And>e. preserves f (h e)) \<Longrightarrow> preserves f (ecatch m h)"
  by (auto simp: preserves_def ecatch_def split: prod.splits sum.splits) (metis snd_conv)+

lemma preserves_if [preserve_rules]:
  "preserves f m \<Longrightarrow> preserves f m' \<Longrightarrow> preserves f (if c then m else m')"
  by simp

lemma wp_preserves:
  assumes "wp m Q E s" and "preserves f m"
  shows "wp m (\<lambda>x s'. Q x s' \<and> f s' = f s) (\<lambda>e s'. E e s' \<and> f s' = f s) s"
  using assms preservesD [OF assms(2), of s] by (simp add: wp_def split: prod.splits sum.splits)

end
