(* ===== verification/Event_Loop.thy ===== *)
theory Event_Loop
  imports Effects
begin

text \<open>
  The edge-triggered readiness loop of \<open>include/tinycoro/event_loop.h\<close> and
  \<open>src/event_loop.cpp\<close>. The kernel is a parameter: a record of the system calls the code makes,
  over a state of the kernel's own. Channels are objects the clients own; the loop keeps their
  addresses, so a lookup of a channel that is gone is a use of freed memory.
\<close>

section \<open>The kernel interface\<close>

datatype ctl_op = CTL_ADD | CTL_MOD | CTL_DEL

text \<open>
  \<open>os_epoll_create1\<close> and \<open>os_epoll_wait\<close> return an error number on the left; \<open>os_epoll_ctl\<close> returns
  \<open>None\<close> on success; \<open>os_now\<close> reads the steady clock in nanoseconds.
\<close>

record 'k os =
  os_epoll_create1 :: "'k \<Rightarrow> (int + int) \<times> 'k"
  os_epoll_ctl :: "int \<Rightarrow> ctl_op \<Rightarrow> int \<Rightarrow> u32 \<Rightarrow> 'k \<Rightarrow> int option \<times> 'k"
  os_epoll_wait :: "int \<Rightarrow> nat \<Rightarrow> int \<Rightarrow> 'k \<Rightarrow> (int + (u32 \<times> int) list) \<times> 'k"
  os_close :: "int \<Rightarrow> 'k \<Rightarrow> 'k"
  os_now :: "'k \<Rightarrow> int \<times> 'k"

definition EPOLLIN :: u32 where "EPOLLIN = 0x1"
definition EPOLLOUT :: u32 where "EPOLLOUT = 0x4"
definition EPOLLERR :: u32 where "EPOLLERR = 0x8"
definition EPOLLHUP :: u32 where "EPOLLHUP = 0x10"
definition EPOLLRDHUP :: u32 where "EPOLLRDHUP = 0x2000"
definition EPOLLET :: u32 where "EPOLLET = 0x80000000"
definition EINTR :: int where "EINTR = 4"

section \<open>Events and channels\<close>

type_synonym event = u32

definition READ :: event where "READ = 0x1"
definition WRITE :: event where "WRITE = 0x2"

definition event_or :: "event \<Rightarrow> event \<Rightarrow> event" where
  "event_or lhs rhs = lhs OR rhs"

definition event_and :: "event \<Rightarrow> event \<Rightarrow> bool" where
  "event_and lhs rhs \<longleftrightarrow> lhs AND rhs \<noteq> 0"

text \<open>A channel with callbacks of type \<open>'cb\<close>; an empty \<open>std::function\<close> is \<open>None\<close>.\<close>

record 'cb channel =
  ch_fd :: int
  ch_on_read :: "'cb option"
  ch_on_write :: "'cb option"
  ch_interest :: event

text \<open>The members of \<open>EventLoop\<close>, next to the kernel it talks to. Address 0 is the null pointer.\<close>

record 'k loop_world =
  lp_kernel :: 'k
  lp_poller :: int
  lp_running :: bool
  lp_channels :: "(int, nat) fmap"

definition kMaxEvents :: nat where
  "kMaxEvents = 256"

section \<open>Talking to epoll\<close>

definition to_epoll_events :: "event \<Rightarrow> u32" where
  "to_epoll_events interest =
     (let events = EPOLLET OR EPOLLRDHUP;
          events = (if event_and interest READ then events OR EPOLLIN else events)
      in if event_and interest WRITE then events OR EPOLLOUT else events)"

definition epoll_ctl ::
  "'k os \<Rightarrow> ctl_op \<Rightarrow> int \<Rightarrow> u32 \<Rightarrow> (('k, 'm) loop_world_scheme, int option) eff" where
  "epoll_ctl os op fd events w =
     (case os_epoll_ctl os (lp_poller w) op fd events (lp_kernel w) of
        (r, k) \<Rightarrow> (Inr r, w\<lparr>lp_kernel := k\<rparr>))"

definition ctl_add :: "'k os \<Rightarrow> 'cb channel \<Rightarrow> (('k, 'm) loop_world_scheme, unit) eff" where
  "ctl_add os ch =
     ebind (epoll_ctl os CTL_ADD (ch_fd ch) (to_epoll_events (ch_interest ch))) (\<lambda>r.
       case r of None \<Rightarrow> eret () | Some errno \<Rightarrow> ethrow (System_error errno ''epoll_ctl ADD''))"

definition ctl_mod :: "'k os \<Rightarrow> 'cb channel \<Rightarrow> (('k, 'm) loop_world_scheme, unit) eff" where
  "ctl_mod os ch =
     ebind (epoll_ctl os CTL_MOD (ch_fd ch) (to_epoll_events (ch_interest ch))) (\<lambda>r.
       case r of None \<Rightarrow> eret () | Some errno \<Rightarrow> ethrow (System_error errno ''epoll_ctl MOD''))"

definition ctl_del :: "'k os \<Rightarrow> int \<Rightarrow> (('k, 'm) loop_world_scheme, unit) eff" where
  "ctl_del os fd = ebind (epoll_ctl os CTL_DEL fd 0) (\<lambda>_. eret ())"

definition init_poller :: "'k os \<Rightarrow> (('k, 'm) loop_world_scheme, unit) eff" where
  "init_poller os w =
     (case os_epoll_create1 os (lp_kernel w) of
        (Inl errno, k) \<Rightarrow> (Inl (System_error errno ''epoll_create1''), w\<lparr>lp_kernel := k, lp_poller := -1\<rparr>)
      | (Inr fd, k) \<Rightarrow> (Inr (), w\<lparr>lp_kernel := k, lp_poller := fd\<rparr>))"

definition destroy_poller :: "'k os \<Rightarrow> (('k, 'm) loop_world_scheme, unit) eff" where
  "destroy_poller os w =
     (if lp_poller w \<ge> 0
      then (Inr (), w\<lparr>lp_kernel := os_close os (lp_poller w) (lp_kernel w), lp_poller := -1\<rparr>)
      else (Inr (), w))"

section \<open>Registration\<close>

text \<open>The argument \<open>p\<close> is the address of the channel, \<open>ch\<close> what it points to.\<close>

definition add_channel :: "'k os \<Rightarrow> nat \<Rightarrow> 'cb channel \<Rightarrow> (('k, 'm) loop_world_scheme, unit) eff" where
  "add_channel os p ch w =
     (if p = 0 \<or> ch_fd ch < 0 then (Inl (Invalid_argument ''invalid channel''), w)
      else if fmlookup (lp_channels w) (ch_fd ch) \<noteq> None
      then (Inl (Logic_error ''channel already registered''), w)
      else
        ecatch (ctl_add os ch)
          (\<lambda>e. ebind (emodify (\<lambda>w. w\<lparr>lp_channels := fmdrop (ch_fd ch) (lp_channels w)\<rparr>)) (\<lambda>_. ethrow e))
          (w\<lparr>lp_channels := fmupd (ch_fd ch) p (lp_channels w)\<rparr>))"

definition update_channel :: "'k os \<Rightarrow> nat \<Rightarrow> 'cb channel \<Rightarrow> (('k, 'm) loop_world_scheme, unit) eff" where
  "update_channel os p ch w =
     (if p = 0 \<or> ch_fd ch < 0 then (Inl (Invalid_argument ''invalid channel''), w)
      else if fmlookup (lp_channels w) (ch_fd ch) \<noteq> Some p
      then (Inl (Logic_error ''channel is not registered''), w)
      else ctl_mod os ch w)"

definition remove_channel :: "'k os \<Rightarrow> nat \<Rightarrow> 'cb channel \<Rightarrow> (('k, 'm) loop_world_scheme, unit) eff" where
  "remove_channel os p ch w =
     (if p = 0 \<or> ch_fd ch < 0 then (Inr (), w)
      else if fmlookup (lp_channels w) (ch_fd ch) \<noteq> Some p then (Inr (), w)
      else ctl_del os (ch_fd ch) (w\<lparr>lp_channels := fmdrop (ch_fd ch) (lp_channels w)\<rparr>))"

section \<open>Dispatch\<close>

text \<open>
  \<open>chan_at w p\<close> is the channel at address \<open>p\<close>, \<open>None\<close> when no channel lives there. \<open>invoke cb\<close> runs
  a callback, which may change the registrations and the channels.
\<close>

definition call_if :: "bool \<Rightarrow> 'cb option \<Rightarrow> ('cb \<Rightarrow> ('w, unit) eff) \<Rightarrow> ('w, unit) eff" where
  "call_if c cb invoke =
     (if c then (case cb of None \<Rightarrow> eret () | Some f \<Rightarrow> invoke f) else eret ())"

definition dispatch_event ::
  "(('k, 'm) loop_world_scheme \<Rightarrow> nat \<Rightarrow> 'cb channel option) \<Rightarrow>
   ('cb \<Rightarrow> (('k, 'm) loop_world_scheme, unit) eff) \<Rightarrow>
   u32 \<Rightarrow> int \<Rightarrow> (('k, 'm) loop_world_scheme, unit) eff" where
  "dispatch_event chan_at invoke events fd w =
     (case fmlookup (lp_channels w) fd of
        None \<Rightarrow> (Inr (), w)
      | Some p \<Rightarrow>
          let terminal = events AND (EPOLLERR OR EPOLLHUP OR EPOLLRDHUP) \<noteq> 0 in
          (case chan_at w p of
             None \<Rightarrow> (Inl Undefined_behaviour, w)
           | Some ch \<Rightarrow>
               ebind (call_if (events AND EPOLLIN \<noteq> 0 \<or> terminal) (ch_on_read ch) invoke) (\<lambda>_ w1.
                 if fmlookup (lp_channels w1) fd \<noteq> Some p then (Inr (), w1)
                 else
                   (case chan_at w1 p of
                      None \<Rightarrow> (Inl Undefined_behaviour, w1)
                    | Some ch1 \<Rightarrow>
                        call_if (events AND EPOLLOUT \<noteq> 0 \<or> terminal) (ch_on_write ch1) invoke w1))
               w))"

fun dispatch_all ::
  "(('k, 'm) loop_world_scheme \<Rightarrow> nat \<Rightarrow> 'cb channel option) \<Rightarrow>
   ('cb \<Rightarrow> (('k, 'm) loop_world_scheme, unit) eff) \<Rightarrow>
   (u32 \<times> int) list \<Rightarrow> (('k, 'm) loop_world_scheme, unit) eff" where
  "dispatch_all chan_at invoke [] = eret ()"
| "dispatch_all chan_at invoke ((events, fd) # rest) =
     ebind (dispatch_event chan_at invoke events fd) (\<lambda>_. dispatch_all chan_at invoke rest)"

definition dispatch_events ::
  "'k os \<Rightarrow> (('k, 'm) loop_world_scheme \<Rightarrow> nat \<Rightarrow> 'cb channel option) \<Rightarrow>
   ('cb \<Rightarrow> (('k, 'm) loop_world_scheme, unit) eff) \<Rightarrow>
   int \<Rightarrow> (('k, 'm) loop_world_scheme, nat) eff" where
  "dispatch_events os chan_at invoke timeout_ms w =
     (case os_epoll_wait os (lp_poller w) kMaxEvents timeout_ms (lp_kernel w) of
        (Inl errno, k) \<Rightarrow>
          (if errno = EINTR then Inr 0 else Inl (System_error errno ''epoll_wait''), w\<lparr>lp_kernel := k\<rparr>)
      | (Inr evs, k) \<Rightarrow>
          if length evs > kMaxEvents then (Inl Undefined_behaviour, w\<lparr>lp_kernel := k\<rparr>)
          else ebind (dispatch_all chan_at invoke evs) (\<lambda>_. eret (length evs)) (w\<lparr>lp_kernel := k\<rparr>))"

definition poll ::
  "'k os \<Rightarrow> (('k, 'm) loop_world_scheme \<Rightarrow> nat \<Rightarrow> 'cb channel option) \<Rightarrow>
   ('cb \<Rightarrow> (('k, 'm) loop_world_scheme, unit) eff) \<Rightarrow>
   int \<Rightarrow> (('k, 'm) loop_world_scheme, unit) eff" where
  "poll os chan_at invoke timeout_ms =
     ebind (dispatch_events os chan_at invoke timeout_ms) (\<lambda>_. eret ())"

text \<open>\<open>run\<close> may go on for ever; \<open>None\<close> is the run that never returns.\<close>

partial_function (option) loop_while ::
  "'k os \<Rightarrow> (('k, 'm) loop_world_scheme \<Rightarrow> nat \<Rightarrow> 'cb channel option) \<Rightarrow>
   ('cb \<Rightarrow> (('k, 'm) loop_world_scheme, unit) eff) \<Rightarrow>
   ('k, 'm) loop_world_scheme \<Rightarrow> (unit result \<times> ('k, 'm) loop_world_scheme) option" where
  "loop_while os chan_at invoke w =
     (if lp_running w
      then let r = dispatch_events os chan_at invoke 10 w in
        (case fst r of
           Inl e \<Rightarrow> Some (Inl e, snd r)
         | Inr _ \<Rightarrow> loop_while os chan_at invoke (snd r))
      else Some (Inr (), w))"

definition loop_run ::
  "'k os \<Rightarrow> (('k, 'm) loop_world_scheme \<Rightarrow> nat \<Rightarrow> 'cb channel option) \<Rightarrow>
   ('cb \<Rightarrow> (('k, 'm) loop_world_scheme, unit) eff) \<Rightarrow>
   ('k, 'm) loop_world_scheme \<Rightarrow> (unit result \<times> ('k, 'm) loop_world_scheme) option" where
  "loop_run os chan_at invoke w = loop_while os chan_at invoke (w\<lparr>lp_running := True\<rparr>)"

definition loop_stop :: "(('k, 'm) loop_world_scheme, unit) eff" where
  "loop_stop = emodify (\<lambda>w. w\<lparr>lp_running := False\<rparr>)"

section \<open>What registration does\<close>

lemma fmdrop_fmupd_fresh: "fmlookup m x = None \<Longrightarrow> fmdrop x (fmupd x y m) = m"
  by (rule fmap_ext) simp

lemma wp_epoll_ctl:
  "(\<And>r k. Q r (w\<lparr>lp_kernel := k\<rparr>)) \<Longrightarrow> wp (epoll_ctl os op fd events) Q E w"
  by (simp add: wp_def epoll_ctl_def split: prod.split)

lemma wp_add_channel [wp_rules]:
  assumes "p \<noteq> 0" and "0 \<le> ch_fd ch" and "fmlookup (lp_channels w) (ch_fd ch) = None"
    and "\<And>k. Q () (w\<lparr>lp_channels := fmupd (ch_fd ch) p (lp_channels w), lp_kernel := k\<rparr>)"
    and "\<And>k errno. E (System_error errno ''epoll_ctl ADD'') (w\<lparr>lp_kernel := k\<rparr>)"
  shows "wp (add_channel os p ch) Q E w"
proof -
  let ?w = "w\<lparr>lp_channels := fmupd (ch_fd ch) p (lp_channels w)\<rparr>"
  let ?undo = "\<lambda>e. ebind (emodify (\<lambda>w. w\<lparr>lp_channels := fmdrop (ch_fd ch) (lp_channels w)\<rparr>)) (\<lambda>_. ethrow e)"
  have "wp (ecatch (ctl_add os ch) ?undo) Q E ?w"
    unfolding ctl_add_def wp_ecatch wp_ebind
    using assms(3-5)
    by (intro wp_epoll_ctl) (auto simp: fmdrop_fmupd_fresh wp_ebind split: option.split)
  then show ?thesis using assms(1-3) by (simp add: wp_def add_channel_def)
qed

lemma wp_update_channel [wp_rules]:
  assumes "p \<noteq> 0" and "0 \<le> ch_fd ch" and "fmlookup (lp_channels w) (ch_fd ch) = Some p"
    and "\<And>k. Q () (w\<lparr>lp_kernel := k\<rparr>)"
    and "\<And>k errno. E (System_error errno ''epoll_ctl MOD'') (w\<lparr>lp_kernel := k\<rparr>)"
  shows "wp (update_channel os p ch) Q E w"
proof -
  have "wp (ctl_mod os ch) Q E w"
    unfolding ctl_mod_def wp_ebind using assms(4,5) by (intro wp_epoll_ctl) (auto split: option.split)
  then show ?thesis using assms(1-3) by (simp add: wp_def update_channel_def)
qed

lemma wp_remove_channel [wp_rules]:
  assumes "p \<noteq> 0" and "0 \<le> ch_fd ch" and "fmlookup (lp_channels w) (ch_fd ch) = Some p"
    and "\<And>k. Q () (w\<lparr>lp_channels := fmdrop (ch_fd ch) (lp_channels w), lp_kernel := k\<rparr>)"
  shows "wp (remove_channel os p ch) Q E w"
proof -
  have "wp (ctl_del os (ch_fd ch)) Q E (w\<lparr>lp_channels := fmdrop (ch_fd ch) (lp_channels w)\<rparr>)"
    unfolding ctl_del_def wp_ebind using assms(4) by (intro wp_epoll_ctl) simp
  then show ?thesis using assms(1-3) by (simp add: wp_def remove_channel_def)
qed

section \<open>Clients of the loop\<close>

text \<open>
  What the owner of channels promises: while its invariant holds, every registered address is a
  live channel, and the callbacks of registered channels keep the invariant even when they
  throw. Then no dispatch touches a freed channel.
\<close>

locale loop_client =
  fixes inv :: "('k, 'm) loop_world_scheme \<Rightarrow> bool"
    and chan_at :: "('k, 'm) loop_world_scheme \<Rightarrow> nat \<Rightarrow> 'cb channel option"
    and invoke :: "'cb \<Rightarrow> (('k, 'm) loop_world_scheme, unit) eff"
  assumes chan_live: "inv w \<Longrightarrow> fmlookup (lp_channels w) fd = Some p \<Longrightarrow> chan_at w p \<noteq> None"
    and invoke_inv: "inv w \<Longrightarrow> fmlookup (lp_channels w) fd = Some p \<Longrightarrow> chan_at w p = Some ch \<Longrightarrow>
          ch_on_read ch = Some cb \<or> ch_on_write ch = Some cb \<Longrightarrow> wp (invoke cb) (\<lambda>_. inv) (\<lambda>_. inv) w"
    and inv_kernel: "inv w \<Longrightarrow> inv (w\<lparr>lp_kernel := k\<rparr>)"
begin

lemma call_if_inv:
  "inv w \<Longrightarrow> fmlookup (lp_channels w) fd = Some p \<Longrightarrow> chan_at w p = Some ch \<Longrightarrow>
     cb = ch_on_read ch \<or> cb = ch_on_write ch \<Longrightarrow> wp (call_if c cb invoke) (\<lambda>_. inv) (\<lambda>_. inv) w"
  by (auto simp: call_if_def intro: invoke_inv split: option.split)

lemma dispatch_event_inv:
  assumes "inv w"
  shows "wp (dispatch_event chan_at invoke events fd) (\<lambda>_. inv) (\<lambda>_. inv) w"
proof (cases "fmlookup (lp_channels w) fd")
  case None
  with assms show ?thesis by (simp add: wp_def dispatch_event_def)
next
  case (Some p)
  define terminal where "terminal \<longleftrightarrow> events AND (EPOLLERR OR EPOLLHUP OR EPOLLRDHUP) \<noteq> 0"
  define second where "second = (\<lambda>(_ :: unit) w1.
      if fmlookup (lp_channels w1) fd \<noteq> Some p then (Inr (), w1)
      else (case chan_at w1 p of
              None \<Rightarrow> (Inl Undefined_behaviour, w1)
            | Some ch1 \<Rightarrow> call_if (events AND EPOLLOUT \<noteq> 0 \<or> terminal) (ch_on_write ch1) invoke w1) :: unit result \<times> _)"
  obtain ch where ch: "chan_at w p = Some ch" using chan_live [OF assms Some] by blast
  have "wp (second u) (\<lambda>_. inv) (\<lambda>_. inv) w1" if w1: "inv w1" for u w1
  proof (cases "fmlookup (lp_channels w1) fd = Some p")
    case True
    then obtain ch1 where "chan_at w1 p = Some ch1" using chan_live [OF w1 True] by blast
    with True call_if_inv [OF w1 True] show ?thesis by (simp add: wp_def second_def)
  next
    case False
    with w1 show ?thesis by (simp add: wp_def second_def)
  qed
  with call_if_inv [OF assms Some ch]
  have "wp (ebind (call_if (events AND EPOLLIN \<noteq> 0 \<or> terminal) (ch_on_read ch) invoke) second)
      (\<lambda>_. inv) (\<lambda>_. inv) w"
    by (blast intro: wp_bindI)
  moreover have "dispatch_event chan_at invoke events fd w =
      ebind (call_if (events AND EPOLLIN \<noteq> 0 \<or> terminal) (ch_on_read ch) invoke) second w"
    unfolding dispatch_event_def second_def terminal_def Let_def using Some ch by simp
  ultimately show ?thesis by (simp add: wp_def)
qed

lemma dispatch_all_inv: "inv w \<Longrightarrow> wp (dispatch_all chan_at invoke evs) (\<lambda>_. inv) (\<lambda>_. inv) w"
proof (induction evs arbitrary: w)
  case Nil
  then show ?case by simp
next
  case (Cons e evs)
  show ?case
    using dispatch_event_inv [OF Cons.prems] Cons.IH by (cases e) (auto intro: wp_bindI)
qed

lemma dispatch_events_inv:
  assumes "inv w"
    and "\<And>evs k. os_epoll_wait os (lp_poller w) kMaxEvents t (lp_kernel w) = (Inr evs, k) \<Longrightarrow>
      length evs \<le> kMaxEvents"
  shows "wp (dispatch_events os chan_at invoke t) (\<lambda>_. inv) (\<lambda>_. inv) w"
proof -
  obtain r k where rk: "os_epoll_wait os (lp_poller w) kMaxEvents t (lp_kernel w) = (r, k)" by force
  show ?thesis
  proof (cases r)
    case (Inl errno)
    with rk inv_kernel [OF assms(1)] show ?thesis by (simp add: wp_def dispatch_events_def)
  next
    case (Inr evs)
    with rk assms(2) have "length evs \<le> kMaxEvents" by simp
    moreover have "wp (ebind (dispatch_all chan_at invoke evs) (\<lambda>_. eret (length evs)))
        (\<lambda>_. inv) (\<lambda>_. inv) (w\<lparr>lp_kernel := k\<rparr>)"
      using dispatch_all_inv [OF inv_kernel [OF assms(1)]] by (rule wp_bindI) simp
    ultimately show ?thesis using rk Inr by (simp add: wp_def dispatch_events_def)
  qed
qed

lemma poll_inv:
  assumes "inv w"
    and "\<And>evs k. os_epoll_wait os (lp_poller w) kMaxEvents t (lp_kernel w) = (Inr evs, k) \<Longrightarrow>
      length evs \<le> kMaxEvents"
  shows "wp (poll os chan_at invoke t) (\<lambda>_. inv) (\<lambda>_. inv) w"
proof -
  have "wp (dispatch_events os chan_at invoke t) (\<lambda>_. inv) (\<lambda>_. inv) w" by (rule dispatch_events_inv [OF assms])
  then show ?thesis unfolding poll_def by (rule wp_bindI) simp
qed

lemma loop_while_inv:
  assumes inv: "inv w" and kernel: "\<And>fd t k evs k'. os_epoll_wait os fd kMaxEvents t k = (Inr evs, k') \<Longrightarrow> length evs \<le> kMaxEvents"
    and st: "loop_while os chan_at invoke w = Some y"
  shows "fst y \<noteq> Inl Undefined_behaviour \<and> inv (snd y)"
proof -
  let ?P = "\<lambda>os' chan_at' invoke' w y. os' = os \<and> chan_at' = chan_at \<and> invoke' = invoke \<and> inv w \<longrightarrow>
    fst y \<noteq> Inl Undefined_behaviour \<and> inv (snd y)"
  have "?P os chan_at invoke w y"
  proof (rule loop_while.raw_induct [OF _ st, of ?P], intro impI, elim conjE)
    fix loop os' chan_at' invoke' w y
    assume IH: "\<And>os' chan_at' invoke' w y. loop os' chan_at' invoke' w = Some y \<Longrightarrow> ?P os' chan_at' invoke' w y"
      and step: "(if lp_running w
        then let r = dispatch_events os' chan_at' invoke' 10 w in
          (case fst r of Inl e \<Rightarrow> Some (Inl e, snd r) | Inr _ \<Rightarrow> loop os' chan_at' invoke' (snd r))
        else Some (Inr (), w)) = Some y"
      and eq: "os' = os" "chan_at' = chan_at" "invoke' = invoke" and inv: "inv w"
    obtain r w1 where r: "dispatch_events os chan_at invoke 10 w = (r, w1)" by force
    have "wp (dispatch_events os chan_at invoke 10) (\<lambda>_. inv) (\<lambda>_. inv) w"
      by (rule dispatch_events_inv [OF inv]) (rule kernel)
    with r have "r \<noteq> Inl Undefined_behaviour \<and> inv w1"
      by (auto simp: wp_def split: sum.splits)
    with step r eq inv IH [of os chan_at invoke w1 y] show "fst y \<noteq> Inl Undefined_behaviour \<and> inv (snd y)"
      by (cases r) (auto split: if_splits)
  qed
  with inv show ?thesis by simp
qed

end

section \<open>Properties\<close>

text \<open>
  What the kernel's documentation promises of an epoll instance, for a view \<open>reg\<close> of its interest
  list: a successful \<open>EPOLL_CTL_ADD\<close> or \<open>EPOLL_CTL_MOD\<close> records the given events, a failed one
  changes nothing, and after \<open>EPOLL_CTL_DEL\<close> the descriptor is not in the list.
\<close>

definition epoll_contract :: "'k os \<Rightarrow> ('k \<Rightarrow> int \<Rightarrow> u32 option) \<Rightarrow> bool" where
  "epoll_contract os reg \<longleftrightarrow>
     (\<forall>poller fd ev k r k'. os_epoll_ctl os poller CTL_ADD fd ev k = (r, k') \<longrightarrow>
        reg k' = (if r = None then (reg k)(fd \<mapsto> ev) else reg k)) \<and>
     (\<forall>poller fd ev k r k'. os_epoll_ctl os poller CTL_MOD fd ev k = (r, k') \<longrightarrow>
        reg k' = (if r = None then (reg k)(fd \<mapsto> ev) else reg k)) \<and>
     (\<forall>poller fd ev k r k'. os_epoll_ctl os poller CTL_DEL fd ev k = (r, k') \<longrightarrow>
        reg k' = (reg k)(fd := None))"

text \<open>The interest list holds exactly the registered descriptors, with the interest \<open>ints\<close> of each.\<close>

definition mirrored ::
  "('k \<Rightarrow> int \<Rightarrow> u32 option) \<Rightarrow> (int \<Rightarrow> event) \<Rightarrow> ('k, 'm) loop_world_scheme \<Rightarrow> bool" where
  "mirrored reg ints w \<longleftrightarrow>
     reg (lp_kernel w) =
       (\<lambda>fd. if fmlookup (lp_channels w) fd = None then None else Some (to_epoll_events (ints fd)))"

lemma contract_set:
  assumes "epoll_contract os reg" and "op = CTL_ADD \<or> op = CTL_MOD"
    and "os_epoll_ctl os poller op fd ev k = (r, k')"
  shows "reg k' = (if r = None then (reg k)(fd \<mapsto> ev) else reg k)"
  using assms unfolding epoll_contract_def by metis

lemma contract_del:
  assumes "epoll_contract os reg" and "os_epoll_ctl os poller CTL_DEL fd ev k = (r, k')"
  shows "reg k' = (reg k)(fd := None)"
  using assms unfolding epoll_contract_def by metis

lemma mirrored_add:
  assumes "epoll_contract os reg" and "mirrored reg ints w" and "add_channel os p ch w = (r, w')"
  shows "mirrored reg (if r = Inr () then ints(ch_fd ch := ch_interest ch) else ints) w'"
  using assms(2,3)
  by (auto simp: add_channel_def ctl_add_def epoll_ctl_def ebind_def ecatch_def mirrored_def
      fmdrop_fmupd_fresh split: if_splits prod.splits option.splits
      dest!: contract_set [OF assms(1), of CTL_ADD, simplified] intro!: ext)

lemma mirrored_update:
  assumes "epoll_contract os reg" and "mirrored reg ints w" and "update_channel os p ch w = (r, w')"
  shows "mirrored reg (if r = Inr () then ints(ch_fd ch := ch_interest ch) else ints) w'"
  using assms(2,3)
  by (auto simp: update_channel_def ctl_mod_def epoll_ctl_def ebind_def mirrored_def
      split: if_splits prod.splits option.splits
      dest!: contract_set [OF assms(1), of CTL_MOD, simplified] intro!: ext)

lemma mirrored_remove:
  assumes "epoll_contract os reg" and "mirrored reg ints w" and "remove_channel os p ch w = (r, w')"
  shows "mirrored reg ints w'"
  using assms(2,3)
  by (auto simp: remove_channel_def ctl_del_def epoll_ctl_def ebind_def mirrored_def
      split: if_splits prod.splits dest!: contract_del [OF assms(1)] intro!: ext)

text \<open>
  C30: the loop's table and the kernel's interest list agree. Whatever sequence of successes and
  failures the kernel reports, after \<open>add_channel\<close>, \<open>update_channel\<close> and \<open>remove_channel\<close> epoll
  watches exactly the descriptors in the table, each with the interest last accepted for it; a
  throwing call leaves both as they were.
\<close>

theorem registration_mirrors_kernel:
  assumes "epoll_contract os reg" and "mirrored reg ints w"
  shows "mirrored reg (if fst (add_channel os p ch w) = Inr ()
           then ints(ch_fd ch := ch_interest ch) else ints) (snd (add_channel os p ch w)) \<and>
         mirrored reg (if fst (update_channel os p ch w) = Inr ()
           then ints(ch_fd ch := ch_interest ch) else ints) (snd (update_channel os p ch w)) \<and>
         mirrored reg ints (snd (remove_channel os p ch w))"
  using mirrored_add [OF assms, of p ch] mirrored_update [OF assms, of p ch]
    mirrored_remove [OF assms, of p ch]
  by (metis prod.collapse)

text \<open>
  A small kernel that keeps the contract: an interest list, a script of readiness reports, and a
  clock that a wait without reports moves forward. The witnesses run on it.
\<close>

record demo_kernel =
  dk_reg :: "(int, u32) fmap"
  dk_events :: "(u32 \<times> int) list list"
  dk_clock :: int

fun demo_ctl :: "int \<Rightarrow> ctl_op \<Rightarrow> int \<Rightarrow> u32 \<Rightarrow> demo_kernel \<Rightarrow> int option \<times> demo_kernel" where
  "demo_ctl poller CTL_ADD fd ev k =
     (if fmlookup (dk_reg k) fd \<noteq> None then (Some 17, k) else (None, k\<lparr>dk_reg := fmupd fd ev (dk_reg k)\<rparr>))"
| "demo_ctl poller CTL_MOD fd ev k =
     (if fmlookup (dk_reg k) fd = None then (Some 2, k) else (None, k\<lparr>dk_reg := fmupd fd ev (dk_reg k)\<rparr>))"
| "demo_ctl poller CTL_DEL fd ev k =
     (if fmlookup (dk_reg k) fd = None then (Some 2, k) else (None, k\<lparr>dk_reg := fmdrop fd (dk_reg k)\<rparr>))"

definition demo_wait :: "int \<Rightarrow> nat \<Rightarrow> int \<Rightarrow> demo_kernel \<Rightarrow> (int + (u32 \<times> int) list) \<times> demo_kernel" where
  "demo_wait poller n timeout k =
     (case dk_events k of
        [] \<Rightarrow> (Inr [], k\<lparr>dk_clock := dk_clock k + max 0 timeout * 1000000\<rparr>)
      | evs # rest \<Rightarrow> (Inr (take n evs), k\<lparr>dk_events := rest\<rparr>))"

definition demo_os :: "demo_kernel os" where
  "demo_os = \<lparr>os_epoll_create1 = (\<lambda>k. (Inr 3, k)), os_epoll_ctl = demo_ctl, os_epoll_wait = demo_wait,
     os_close = (\<lambda>fd k. k), os_now = (\<lambda>k. (dk_clock k, k))\<rparr>"

lemma demo_contract: "epoll_contract demo_os (\<lambda>k. fmlookup (dk_reg k))"
  by (auto simp: epoll_contract_def demo_os_def fun_eq_iff split: if_splits)

theorem registration_mirrors_kernel_witness:
  "let w = \<lparr>lp_kernel = \<lparr>dk_reg = fmempty, dk_events = [], dk_clock = 0\<rparr>, lp_poller = 3, lp_running = False,
             lp_channels = fmempty\<rparr>;
       ch = \<lparr>ch_fd = 5, ch_on_read = None :: unit option, ch_on_write = None, ch_interest = WRITE\<rparr>
   in fmlookup (dk_reg (lp_kernel (snd (add_channel demo_os 1 ch w)))) 5 = Some (to_epoll_events WRITE)"
proof -
  define w where "w = \<lparr>lp_kernel = \<lparr>dk_reg = fmempty, dk_events = [], dk_clock = 0\<rparr>, lp_poller = 3,
    lp_running = False, lp_channels = fmempty\<rparr>"
  define ch where "ch = \<lparr>ch_fd = 5, ch_on_read = None :: unit option, ch_on_write = None, ch_interest = WRITE\<rparr>"
  have "mirrored (\<lambda>k. fmlookup (dk_reg k)) (\<lambda>_. READ) w" by (simp add: w_def mirrored_def fun_eq_iff)
  note m = registration_mirrors_kernel [OF demo_contract this, of 1 ch, THEN conjunct1]
  have "fst (add_channel demo_os 1 ch w) = Inr ()"
    and "fmlookup (lp_channels (snd (add_channel demo_os 1 ch w))) 5 = Some 1"
    unfolding w_def ch_def by code_simp+
  with m have "fmlookup (dk_reg (lp_kernel (snd (add_channel demo_os 1 ch w)))) 5 = Some (to_epoll_events WRITE)"
    by (simp add: mirrored_def ch_def)
  then show ?thesis by (simp add: Let_def w_def ch_def)
qed

end
