(* ===== verification/Task.thy ===== *)
theory Task
  imports Effects Event_Loop
begin

text \<open>
  Coroutine frames and the objects that own them, of \<open>include/tinycoro/task.h\<close>. A frame is what
  the compiler allocates for a coroutine: its promise, the point where it is suspended, and the
  objects that live in it. Frames sit in a heap indexed by address; a handle is an address and 0
  is the null handle. Touching a frame that is not in the heap is undefined behaviour.
\<close>

section \<open>Frames\<close>

type_synonym handle = nat

text \<open>The awaiter object of an fd wait, which lives in the frame that awaits it.\<close>

record fd_awaiter =
  aw_fd :: int
  aw_event :: event
  aw_timeout :: int
  aw_ready :: bool

text \<open>
  Where a frame stands. \<open>At_await c\<close> holds the \<open>Task::Awaiter\<close> of the child \<open>c\<close>; \<open>At_wait\<close> and
  \<open>At_yield\<close> are the awaiters of \<open>IoContext\<close>; \<open>At_park\<close> is an awaiter of the client that hands
  the coroutine to nobody.
\<close>

datatype suspend_point =
    At_start
  | Executing
  | At_await handle
  | At_wait fd_awaiter
  | At_yield
  | At_park
  | At_final

text \<open>
  \<open>fr_continuation\<close> is 0 for the no-op coroutine; \<open>fr_completion\<close> says that the completion hook of a
  root task is set; \<open>fr_void\<close> tells \<open>Task<void>\<close> from the other instances. \<open>fr_tasks\<close> are the
  \<open>Task\<close> objects among the locals of the coroutine, \<open>fr_fds\<close> the descriptors whose wrapper objects
  the frame holds; the destructor of such a wrapper cancels the waits on its descriptor.
\<close>

record 'v frame =
  fr_continuation :: handle
  fr_completed_next :: handle
  fr_exception :: "exn option"
  fr_completion :: bool
  fr_value :: "'v option"
  fr_void :: bool
  fr_point :: suspend_point
  fr_tasks :: "handle list"
  fr_fds :: "int list"

type_synonym 'v heap = "(handle, 'v frame) fmap"

text \<open>Calling a coroutine: \<open>get_return_object\<close> and \<open>initial_suspend\<close>, which always suspends.\<close>

definition frame_new :: "bool \<Rightarrow> int list \<Rightarrow> 'v frame" where
  "frame_new void fds = \<lparr>fr_continuation = 0, fr_completed_next = 0, fr_exception = None,
     fr_completion = False, fr_value = None, fr_void = void, fr_point = At_start, fr_tasks = [],
     fr_fds = fds\<rparr>"

definition set_frame :: "handle \<Rightarrow> ('v frame \<Rightarrow> 'v frame) \<Rightarrow> 'v heap \<Rightarrow> 'v heap result" where
  "set_frame h f H =
     (case fmlookup H h of None \<Rightarrow> Inl Undefined_behaviour | Some fr \<Rightarrow> Inr (fmupd h (f fr) H))"

definition coroutine_done :: "handle \<Rightarrow> 'v heap \<Rightarrow> bool result" where
  "coroutine_done h H =
     (case fmlookup H h of None \<Rightarrow> Inl Undefined_behaviour | Some fr \<Rightarrow> Inr (fr_point fr = At_final))"

text \<open>\<open>resume()\<close> and symmetric transfer: the frame must be suspended and not finished.\<close>

definition resume_frame :: "handle \<Rightarrow> 'v heap \<Rightarrow> 'v heap result" where
  "resume_frame h H =
     (case fmlookup H h of
        None \<Rightarrow> Inl Undefined_behaviour
      | Some fr \<Rightarrow>
          if fr_point fr = At_final \<or> fr_point fr = Executing then Inl Undefined_behaviour
          else Inr (fmupd h (fr\<lparr>fr_point := Executing\<rparr>) H))"

section \<open>Destruction\<close>

text \<open>What a frame owns: the tasks among its locals and the child it awaits.\<close>

definition owned :: "'v frame \<Rightarrow> handle list" where
  "owned fr = fr_tasks fr @ (case fr_point fr of At_await c \<Rightarrow> [c] | _ \<Rightarrow> [])"

text \<open>
  \<open>handle.destroy()\<close> for a list of handles, with the frames they own in turn. The second component
  collects the descriptors of the destroyed frames.
\<close>

function destroy_list :: "handle list \<Rightarrow> 'v heap \<Rightarrow> ('v heap \<times> int list) result" where
  "destroy_list [] H = Inr (H, [])"
| "destroy_list (h # hs) H =
     (case fmlookup H h of
        None \<Rightarrow> Inl Undefined_behaviour
      | Some fr \<Rightarrow>
          rbind (destroy_list (owned fr @ hs) (fmdrop h H)) (\<lambda>(H', fds). Inr (H', fr_fds fr @ fds)))"
  by pat_completeness auto
termination
proof (relation "measure (\<lambda>(hs, H). fcard (fmdom H))", goal_cases)
  case 1
  show ?case by simp
next
  case (2 h hs H fr)
  then have "h |\<in>| fmdom H" by (simp add: fmlookup_dom_iff)
  then have "fcard (fmdom H |-| {|h|}) < fcard (fmdom H)" by (intro pfsubset_fcard_mono) blast
  then show ?case by (simp add: fmdom_drop)
qed

declare destroy_list.simps(2) [simp del]

section \<open>Task objects\<close>

text \<open>A \<open>Task\<close> is the handle it owns, 0 when it is empty.\<close>

definition task_valid :: "handle \<Rightarrow> bool" where
  "task_valid t \<longleftrightarrow> t \<noteq> 0"

text \<open>\<open>std::exchange(other.handle_, {})\<close>, shared by the move constructors, \<open>release\<close> and \<open>co_await\<close>.\<close>

definition task_take :: "handle \<Rightarrow> handle \<times> handle" where
  "task_take t = (t, 0)"

definition task_reset :: "handle \<Rightarrow> 'v heap \<Rightarrow> ('v heap \<times> int list) result" where
  "task_reset t H = (if t \<noteq> 0 then destroy_list [t] H else Inr (H, []))"

section \<open>Awaiting a task\<close>

definition await_ready :: "handle \<Rightarrow> 'v heap \<Rightarrow> bool result" where
  "await_ready t H = (if t = 0 then Inr True else coroutine_done t H)"

text \<open>\<open>await_suspend\<close> stores the awaiting coroutine in the promise and transfers to the task.\<close>

definition await_suspend :: "handle \<Rightarrow> handle \<Rightarrow> 'v heap \<Rightarrow> (handle \<times> 'v heap) result" where
  "await_suspend t continuation H =
     rbind (set_frame t (fr_continuation_update (\<lambda>_. continuation)) H) (\<lambda>H'. Inr (t, H'))"

text \<open>
  \<open>await_resume\<close>: the exception of the task, or its value. \<open>Task<void>\<close> gives \<open>None\<close>. The outer
  result is undefined behaviour of the access, the inner one what the awaiting coroutine gets.
\<close>

definition await_resume :: "handle \<Rightarrow> 'v heap \<Rightarrow> 'v option result result" where
  "await_resume t H =
     (if t = 0 then Inr (Inl (Logic_error ''cannot await an empty Task''))
      else case fmlookup H t of
        None \<Rightarrow> Inl Undefined_behaviour
      | Some fr \<Rightarrow>
          Inr (case fr_exception fr of
                 Some e \<Rightarrow> Inl e
               | None \<Rightarrow>
                   if fr_void fr then Inr None
                   else case fr_value fr of
                     None \<Rightarrow> Inl (Logic_error ''Task completed without a value'')
                   | Some v \<Rightarrow> Inr (Some v)))"

section \<open>The end of a coroutine\<close>

definition return_value :: "'v option \<Rightarrow> handle \<Rightarrow> 'v heap \<Rightarrow> 'v heap result" where
  "return_value v h = set_frame h (fr_value_update (\<lambda>old. if v = None then old else v))"

definition unhandled_exception :: "exn \<Rightarrow> handle \<Rightarrow> 'v heap \<Rightarrow> 'v heap result" where
  "unhandled_exception e h = set_frame h (fr_exception_update (\<lambda>_. Some e))"

text \<open>
  \<open>FinalAwaiter::await_suspend\<close>: either the completion hook of a root is called (\<open>None\<close>), or control
  passes to the continuation, 0 for the no-op coroutine.
\<close>

definition final_suspend :: "handle \<Rightarrow> 'v heap \<Rightarrow> handle option result" where
  "final_suspend h H =
     (case fmlookup H h of
        None \<Rightarrow> Inl Undefined_behaviour
      | Some fr \<Rightarrow> Inr (if fr_completion fr then None else Some (fr_continuation fr)))"

section \<open>Programs over Task objects\<close>

text \<open>
  What a program can do with \<open>Task\<close> objects apart from running them: construct one empty, from a
  call of a coroutine or by a move, assign one to another, and destroy one. Objects are named by
  their addresses. Copies are deleted in the source, so there is no other way to duplicate a
  handle.
\<close>

record 'v task_world =
  tw_objects :: "(nat, handle) fmap"
  tw_frames :: "'v heap"
  tw_next :: nat

datatype task_action =
    T_default nat
  | T_call nat bool
  | T_move nat nat
  | T_assign nat nat
  | T_delete nat

text \<open>A constructor needs a place without an object; the other operations need objects.\<close>

fun task_enabled :: "task_action \<Rightarrow> 'v task_world \<Rightarrow> bool" where
  "task_enabled (T_default x) w = (fmlookup (tw_objects w) x = None)"
| "task_enabled (T_call x _) w = (fmlookup (tw_objects w) x = None)"
| "task_enabled (T_move x y) w = (fmlookup (tw_objects w) x = None \<and> fmlookup (tw_objects w) y \<noteq> None)"
| "task_enabled (T_assign x y) w = (fmlookup (tw_objects w) x \<noteq> None \<and> fmlookup (tw_objects w) y \<noteq> None)"
| "task_enabled (T_delete x) w = (fmlookup (tw_objects w) x \<noteq> None)"

definition task_object :: "'v task_world \<Rightarrow> nat \<Rightarrow> handle" where
  "task_object w x = (case fmlookup (tw_objects w) x of None \<Rightarrow> 0 | Some t \<Rightarrow> t)"

definition set_object :: "nat \<Rightarrow> handle \<Rightarrow> 'v task_world \<Rightarrow> 'v task_world" where
  "set_object x t w = w\<lparr>tw_objects := fmupd x t (tw_objects w)\<rparr>"

text \<open>\<open>Task(Task&&)\<close>.\<close>

definition task_move :: "nat \<Rightarrow> nat \<Rightarrow> 'v task_world \<Rightarrow> 'v task_world" where
  "task_move x y w =
     (case task_take (task_object w y) of (t, rest) \<Rightarrow> set_object x t (set_object y rest w))"

definition task_destroy :: "nat \<Rightarrow> 'v task_world \<Rightarrow> 'v task_world result" where
  "task_destroy x w =
     rbind (task_reset (task_object w x) (tw_frames w)) (\<lambda>(H, _). Inr (set_object x 0 (w\<lparr>tw_frames := H\<rparr>)))"

definition task_assign :: "nat \<Rightarrow> nat \<Rightarrow> 'v task_world \<Rightarrow> 'v task_world result" where
  "task_assign x y w = (if x = y then Inr w else rbind (task_destroy x w) (\<lambda>w'. Inr (task_move x y w')))"

fun task_step :: "task_action \<Rightarrow> 'v task_world \<Rightarrow> 'v task_world result" where
  "task_step (T_default x) w = Inr (set_object x 0 w)"
| "task_step (T_call x void) w =
     Inr (set_object x (tw_next w)
       (w\<lparr>tw_frames := fmupd (tw_next w) (frame_new void []) (tw_frames w), tw_next := tw_next w + 1\<rparr>))"
| "task_step (T_move x y) w = Inr (task_move x y w)"
| "task_step (T_assign x y) w = task_assign x y w"
| "task_step (T_delete x) w =
     rbind (task_destroy x w) (\<lambda>w'. Inr (w'\<lparr>tw_objects := fmdrop x (tw_objects w')\<rparr>))"

text \<open>A program is a list of actions; what it cannot express is skipped.\<close>

fun task_run :: "task_action list \<Rightarrow> 'v task_world \<Rightarrow> 'v task_world result" where
  "task_run [] w = Inr w"
| "task_run (a # as) w =
     (if task_enabled a w then rbind (task_step a w) (task_run as) else task_run as w)"

definition task_init :: "'v task_world" where
  "task_init = \<lparr>tw_objects = fmempty, tw_frames = fmempty, tw_next = 1\<rparr>"

text \<open>
  Exclusive ownership: the live frames are exactly the handles some object holds, and no handle
  is held twice.
\<close>

definition owns_once :: "'v task_world \<Rightarrow> bool" where
  "owns_once w \<longleftrightarrow>
     0 < tw_next w \<and>
     (\<forall>h fr. fmlookup (tw_frames w) h = Some fr \<longrightarrow> h < tw_next w \<and> owned fr = []) \<and>
     (\<forall>h. h \<noteq> 0 \<and> (\<exists>x. task_object w x = h) \<longleftrightarrow> fmlookup (tw_frames w) h \<noteq> None) \<and>
     (\<forall>x y. task_object w x = task_object w y \<and> task_object w x \<noteq> 0 \<longrightarrow> x = y)"

lemma destroy_list_single:
  "fmlookup H h = Some fr \<Longrightarrow> owned fr = [] \<Longrightarrow> destroy_list [h] H = Inr (fmdrop h H, fr_fds fr)"
  by (simp add: destroy_list.simps(2))

lemma frame_new_simps [simp]:
  "fr_point (frame_new void fds) = At_start" "fr_tasks (frame_new void fds) = []"
  "fr_completion (frame_new void fds) = False" "fr_continuation (frame_new void fds) = 0"
  "fr_exception (frame_new void fds) = None" "fr_fds (frame_new void fds) = fds"
  by (simp_all add: frame_new_def)

lemma owned_frame_new [simp]: "owned (frame_new void fds) = []"
  by (simp add: owned_def frame_new_def)

lemma task_object_set [simp]:
  "task_object (set_object x t w) y = (if y = x then t else task_object w y)"
  "tw_frames (set_object x t w) = tw_frames w" "tw_next (set_object x t w) = tw_next w"
  by (simp_all add: task_object_def set_object_def)

lemma task_object_frames [simp]:
  "task_object (w\<lparr>tw_frames := H\<rparr>) y = task_object w y"
  "task_object (w\<lparr>tw_next := n\<rparr>) y = task_object w y"
  by (simp_all add: task_object_def)

lemma owns_onceI:
  assumes "0 < tw_next w"
    and "\<And>h fr. fmlookup (tw_frames w) h = Some fr \<Longrightarrow> 0 < h \<and> h < tw_next w \<and> owned fr = []"
    and "\<And>x. task_object w x \<noteq> 0 \<Longrightarrow> fmlookup (tw_frames w) (task_object w x) \<noteq> None"
    and "\<And>h. fmlookup (tw_frames w) h \<noteq> None \<Longrightarrow> \<exists>x. task_object w x = h"
    and "\<And>x y. task_object w x = task_object w y \<Longrightarrow> task_object w x \<noteq> 0 \<Longrightarrow> x = y"
  shows "owns_once w"
  using assms unfolding owns_once_def by blast

lemma owns_onceD:
  assumes "owns_once w"
  shows "0 < tw_next w"
    and "\<And>h fr. fmlookup (tw_frames w) h = Some fr \<Longrightarrow> 0 < h \<and> h < tw_next w \<and> owned fr = []"
    and "\<And>x. task_object w x \<noteq> 0 \<Longrightarrow> fmlookup (tw_frames w) (task_object w x) \<noteq> None"
    and "\<And>h. fmlookup (tw_frames w) h \<noteq> None \<Longrightarrow> \<exists>x. task_object w x = h"
    and "\<And>x y. task_object w x = task_object w y \<Longrightarrow> task_object w x \<noteq> 0 \<Longrightarrow> x = y"
  using assms unfolding owns_once_def by blast+

lemma owns_once_default:
  assumes "owns_once w" and "task_object w x = 0"
  shows "owns_once (set_object x 0 w)"
proof -
  have "task_object (set_object x 0 w) = task_object w" using assms(2) by (simp add: fun_eq_iff)
  with assms(1) show ?thesis by (simp add: owns_once_def)
qed

lemma owns_once_call:
  assumes "owns_once w" and "task_object w x = 0"
  shows "owns_once (set_object x (tw_next w)
     (w\<lparr>tw_frames := fmupd (tw_next w) (frame_new void []) (tw_frames w), tw_next := Suc (tw_next w)\<rparr>))"
    (is "owns_once ?w")
proof -
  note inv = owns_onceD [OF assms(1)]
  have old: "task_object w y \<noteq> tw_next w" for y
    using inv(1) inv(3) [of y] inv(2) [of "task_object w y"] by fastforce
  show ?thesis
  proof (rule owns_onceI)
    fix h fr y z
    show "0 < tw_next ?w" by simp
    show "0 < h \<and> h < tw_next ?w \<and> owned fr = []" if "fmlookup (tw_frames ?w) h = Some fr"
      using that inv(1) inv(2) [of h fr] by (auto split: if_splits)
    show "fmlookup (tw_frames ?w) (task_object ?w y) \<noteq> None" if "task_object ?w y \<noteq> 0"
      using that inv(3) [of y] by (simp split: if_splits)
    show "\<exists>y. task_object ?w y = h" if "fmlookup (tw_frames ?w) h \<noteq> None"
    proof (cases "h = tw_next w")
      case True
      then show ?thesis by (intro exI [of _ x]) simp
    next
      case False
      with that obtain y where y: "task_object w y = h" "h \<noteq> 0" using inv(2,4) [of h] by auto
      then have "y \<noteq> x" using assms(2) by auto
      with y show ?thesis by (intro exI [of _ y]) simp
    qed
    show "y = z" if "task_object ?w y = task_object ?w z" "task_object ?w y \<noteq> 0"
      using that old [of y] old [of z] inv(5) [of y z] by (simp split: if_splits)
  qed
qed

lemma owns_once_move:
  assumes "owns_once w" and "task_object w x = 0" and "x \<noteq> y"
  shows "owns_once (task_move x y w)" (is "owns_once ?w")
proof -
  note inv = owns_onceD [OF assms(1)]
  have obj: "task_object ?w z = (if z = x then task_object w y else if z = y then 0 else task_object w z)" for z
    by (simp add: task_move_def task_take_def)
  have rest [simp]: "tw_frames ?w = tw_frames w" "tw_next ?w = tw_next w"
    by (simp_all add: task_move_def task_take_def)
  show ?thesis
  proof (rule owns_onceI)
    fix h fr u v
    show "0 < tw_next ?w" using inv(1) by simp
    show "0 < h \<and> h < tw_next ?w \<and> owned fr = []" if "fmlookup (tw_frames ?w) h = Some fr"
      using that inv(2) [of h fr] by simp
    show "fmlookup (tw_frames ?w) (task_object ?w u) \<noteq> None" if "task_object ?w u \<noteq> 0"
      using that inv(3) [of u] inv(3) [of y] by (simp add: obj split: if_splits)
    show "\<exists>y. task_object ?w y = h" if "fmlookup (tw_frames ?w) h \<noteq> None"
    proof -
      from that obtain z where z: "task_object w z = h" "h \<noteq> 0" using inv(2,4) [of h] by auto
      then have "z \<noteq> x" using assms(2) by auto
      with z show ?thesis by (intro exI [of _ "if z = y then x else z"]) (auto simp: obj)
    qed
    show "u = v" if "task_object ?w u = task_object ?w v" "task_object ?w u \<noteq> 0"
      using that inv(5) [of u v] inv(5) [of u y] inv(5) [of y v] by (simp add: obj split: if_splits)
  qed
qed

lemma owns_once_destroy:
  assumes "owns_once w"
  shows "\<exists>w'. task_destroy x w = Inr w' \<and> owns_once w' \<and> task_object w' x = 0"
proof (cases "task_object w x = 0")
  case True
  then show ?thesis using assms owns_once_default [OF assms True]
    by (simp add: task_destroy_def task_reset_def)
next
  case False
  note inv = owns_onceD [OF assms]
  let ?w = "set_object x 0 (w\<lparr>tw_frames := fmdrop (task_object w x) (tw_frames w)\<rparr>)"
  obtain fr where fr: "fmlookup (tw_frames w) (task_object w x) = Some fr" "owned fr = []"
    using inv(2) inv(3) [OF False] by blast
  have "owns_once ?w"
  proof (rule owns_onceI)
    fix h fr u v
    show "0 < tw_next ?w" using inv(1) by simp
    show "0 < h \<and> h < tw_next ?w \<and> owned fr = []" if "fmlookup (tw_frames ?w) h = Some fr"
      using that inv(2) [of h fr] by (simp split: if_splits)
    show "fmlookup (tw_frames ?w) (task_object ?w u) \<noteq> None" if "task_object ?w u \<noteq> 0"
      using that inv(3) [of u] inv(5) [of u x] by (auto split: if_splits)
    show "\<exists>y. task_object ?w y = h" if "fmlookup (tw_frames ?w) h \<noteq> None"
    proof -
      from that obtain z where "task_object w z = h" "h \<noteq> task_object w x"
        using inv(4) [of h] by (auto split: if_splits)
      then show ?thesis by (intro exI [of _ z]) auto
    qed
    show "u = v" if "task_object ?w u = task_object ?w v" "task_object ?w u \<noteq> 0"
      using that inv(5) [of u v] by (simp split: if_splits)
  qed
  with fr False show ?thesis by (auto simp: task_destroy_def task_reset_def destroy_list_single)
qed

lemma owns_once_delete:
  assumes "owns_once w" and "task_object w x = 0"
  shows "owns_once (w\<lparr>tw_objects := fmdrop x (tw_objects w)\<rparr>)"
proof -
  have "task_object (w\<lparr>tw_objects := fmdrop x (tw_objects w)\<rparr>) = task_object w"
    using assms(2) by (simp add: fun_eq_iff task_object_def)
  with assms(1) show ?thesis by (simp add: owns_once_def)
qed

lemma owns_once_step:
  assumes "owns_once w" and "task_enabled a w"
  shows "\<exists>w'. task_step a w = Inr w' \<and> owns_once w'"
proof (cases a)
  case (T_default x)
  with assms show ?thesis by (simp add: owns_once_default task_object_def)
next
  case (T_call x void)
  with assms owns_once_call [OF assms(1), of x] show ?thesis by (simp add: task_object_def)
next
  case (T_move x y)
  with assms show ?thesis by (auto intro!: owns_once_move simp: task_object_def)
next
  case (T_assign x y)
  with assms owns_once_destroy [OF assms(1), of x] show ?thesis
    by (auto simp: task_assign_def intro!: owns_once_move)
next
  case (T_delete x)
  with assms owns_once_destroy [OF assms(1), of x] show ?thesis by (auto intro: owns_once_delete)
qed

lemma owns_once_run: "owns_once w \<Longrightarrow> \<exists>w'. task_run as w = Inr w' \<and> owns_once w'"
proof (induction as arbitrary: w)
  case Nil
  then show ?case by simp
next
  case (Cons a as)
  then show ?case using owns_once_step [OF Cons.prems, of a] by (auto simp del: task_step.simps task_enabled.simps)
qed

lemma owns_once_init: "owns_once task_init"
  by (rule owns_onceI) (simp_all add: task_init_def task_object_def)

text \<open>
  C16: \<open>Task\<close> objects own their frames exclusively. Whatever a program constructs, moves, assigns
  and destroys, no frame is ever destroyed twice or used after it is gone, every live frame
  belongs to exactly one object, and when no object is left no frame is left.
\<close>

theorem task_objects_own_frames:
  "\<exists>w :: 'v task_world. task_run as task_init = Inr w \<and> owns_once w \<and>
     (tw_objects w = fmempty \<longrightarrow> tw_frames w = fmempty)"
proof -
  obtain w :: "'v task_world" where w: "task_run as task_init = Inr w" "owns_once w"
    using owns_once_run [OF owns_once_init] by blast
  have "tw_frames w = fmempty" if "tw_objects w = fmempty"
  proof (rule fmap_ext)
    fix h
    show "fmlookup (tw_frames w) h = fmlookup fmempty h"
      using w(2) that unfolding owns_once_def by (auto simp: task_object_def)
  qed
  with w show ?thesis by blast
qed

theorem task_objects_own_frames_witness:
  "\<exists>w :: unit task_world.
     task_run [T_call 1 True, T_default 2, T_assign 2 1, T_move 3 2, T_delete 1, T_delete 2, T_delete 3]
       task_init = Inr w \<and> tw_objects w = fmempty \<and> tw_frames w = fmempty"
proof -
  define as where "as = [T_call 1 True, T_default 2, T_assign 2 1, T_move 3 2, T_delete 1, T_delete 2, T_delete 3]"
  obtain w :: "unit task_world" where w: "task_run as task_init = Inr w"
      "tw_objects w = fmempty \<longrightarrow> tw_frames w = fmempty"
    using task_objects_own_frames [of as] by blast
  have "case task_run as (task_init :: unit task_world) of
      Inr w \<Rightarrow> fmdom' (tw_objects w) = {} | Inl _ \<Rightarrow> False"
    unfolding as_def by code_simp
  then have "tw_objects w = fmempty"
    using w(1) by (intro fmap_ext) (auto simp: fmdom'_notD)
  with w show ?thesis unfolding as_def by blast
qed

end
