(* ===== verification/Io_Context.thy ===== *)
theory Io_Context
  imports Task
begin

text \<open>
  The executor of \<open>include/tinycoro/io_context.h\<close> and \<open>src/io_context.cpp\<close>: its wait slots, timers,
  ready queue and root tasks, on top of the event loop and the heap of coroutine frames. Each
  operation is one definition; \<open>Io_Run\<close> adds the scheduler loop and the coroutines that run in it.
\<close>

section \<open>State\<close>

text \<open>
  \<open>ws_result\<close> points to the \<open>ready_\<close> flag of an \<open>FdAwaiter\<close>; since that object lives in the frame
  that awaits it, the pointer is represented by the address of the frame.
\<close>

record wait_slot =
  ws_continuation :: handle
  ws_token :: u64
  ws_result :: handle

text \<open>
  \<open>fs_addr\<close> is the address of the \<open>FdState\<close> object and of the channel in it. The callbacks of the
  channel call \<open>on_ready\<close>; they are represented by the arguments of the call.
\<close>

record fd_state =
  fs_addr :: nat
  fs_channel :: "(int \<times> event) channel"
  fs_reader :: "wait_slot option"
  fs_writer :: "wait_slot option"
  fs_registered :: bool

record timer_entry =
  te_deadline :: int
  te_token :: u64
  te_fd :: int
  te_event :: event

text \<open>
  The members of \<open>IoContext\<close>, its \<open>EventLoop\<close> and the kernel, and the memory it works on: the heap
  of frames and the next fresh address. \<open>io_timers\<close> is the priority queue, kept in the order in
  which its elements come to the top.
\<close>

record ('k, 'v) io_world = "'k loop_world" +
  io_frames :: "'v heap"
  io_next_addr :: nat
  io_roots :: "handle fset"
  io_ready :: "handle list"
  io_completed_head :: handle
  io_fd_states :: "(int, fd_state) fmap"
  io_timers :: "timer_entry list"
  io_next_token :: u64
  io_running :: bool
  io_stop_requested :: bool

definition INT_MAX :: int where
  "INT_MAX = 2147483647"

definition ns_per_ms :: int where
  "ns_per_ms = 1000000"

section \<open>Memory\<close>

definition on_heap :: "('v heap \<Rightarrow> 'v heap result) \<Rightarrow> (('k, 'v, 'm) io_world_scheme, unit) eff" where
  "on_heap f w = (case f (io_frames w) of Inl e \<Rightarrow> (Inl e, w) | Inr H \<Rightarrow> (Inr (), w\<lparr>io_frames := H\<rparr>))"

definition is_done :: "handle \<Rightarrow> (('k, 'v, 'm) io_world_scheme, bool) eff" where
  "is_done h w = (coroutine_done h (io_frames w), w)"

text \<open>\<open>*result = b\<close>: the awaiter must still be there.\<close>

definition set_result :: "handle \<Rightarrow> bool \<Rightarrow> 'v heap \<Rightarrow> 'v heap result" where
  "set_result h b H =
     (case fmlookup H h of
        None \<Rightarrow> Inl Undefined_behaviour
      | Some fr \<Rightarrow>
          (case fr_point fr of
             At_wait aw \<Rightarrow> Inr (fmupd h (fr\<lparr>fr_point := At_wait (aw\<lparr>aw_ready := b\<rparr>)\<rparr>) H)
           | _ \<Rightarrow> Inl Undefined_behaviour))"

definition modify_fd :: "int \<Rightarrow> (fd_state \<Rightarrow> fd_state) \<Rightarrow> ('k, 'v, 'm) io_world_scheme \<Rightarrow> ('k, 'v, 'm) io_world_scheme" where
  "modify_fd fd f w =
     (case fmlookup (io_fd_states w) fd of
        None \<Rightarrow> w
      | Some st \<Rightarrow> w\<lparr>io_fd_states := fmupd fd (f st) (io_fd_states w)\<rparr>)"

definition erase_fd :: "int \<Rightarrow> ('k, 'v, 'm) io_world_scheme \<Rightarrow> ('k, 'v, 'm) io_world_scheme" where
  "erase_fd fd w = w\<lparr>io_fd_states := fmdrop fd (io_fd_states w)\<rparr>"

text \<open>The channel at an address: that of the \<open>FdState\<close> object living there.\<close>

definition io_chan_at :: "('k, 'v, 'm) io_world_scheme \<Rightarrow> nat \<Rightarrow> (int \<times> event) channel option" where
  "io_chan_at w p =
     (case find (\<lambda>fd. map_option fs_addr (fmlookup (io_fd_states w) fd) = Some p)
             (sorted_list_of_fset (fmdom (io_fd_states w))) of
        None \<Rightarrow> None
      | Some fd \<Rightarrow> map_option fs_channel (fmlookup (io_fd_states w) fd))"

section \<open>Slots and interest\<close>

definition slot :: "fd_state \<Rightarrow> event \<Rightarrow> wait_slot option" where
  "slot st ev = (if ev = READ then fs_reader st else fs_writer st)"

definition set_slot :: "event \<Rightarrow> wait_slot option \<Rightarrow> fd_state \<Rightarrow> fd_state" where
  "set_slot ev s st = (if ev = READ then st\<lparr>fs_reader := s\<rparr> else st\<lparr>fs_writer := s\<rparr>)"

definition fd_state_of :: "int \<Rightarrow> ('k, 'v, 'm) io_world_scheme \<Rightarrow> ('k, 'v, 'm) io_world_scheme" where
  "fd_state_of fd w =
     (case fmlookup (io_fd_states w) fd of
        Some _ \<Rightarrow> w
      | None \<Rightarrow>
          w\<lparr>io_fd_states := fmupd fd
               \<lparr>fs_addr = io_next_addr w,
                fs_channel = \<lparr>ch_fd = fd, ch_on_read = Some (fd, READ), ch_on_write = Some (fd, WRITE),
                              ch_interest = READ\<rparr>,
                fs_reader = None, fs_writer = None, fs_registered = False\<rparr> (io_fd_states w),
            io_next_addr := io_next_addr w + 1\<rparr>)"

definition wanted :: "fd_state \<Rightarrow> event" where
  "wanted st =
     (if fs_reader st \<noteq> None \<and> fs_writer st \<noteq> None then event_or READ WRITE
      else if fs_reader st \<noteq> None then READ else WRITE)"

definition set_interest :: "event \<Rightarrow> fd_state \<Rightarrow> fd_state" where
  "set_interest i st = st\<lparr>fs_channel := (fs_channel st)\<lparr>ch_interest := i\<rparr>\<rparr>"

definition refresh_interest :: "'k os \<Rightarrow> int \<Rightarrow> (('k, 'v, 'm) io_world_scheme, unit) eff" where
  "refresh_interest os fd w =
     (case fmlookup (io_fd_states w) fd of
        None \<Rightarrow> (Inl Undefined_behaviour, w)
      | Some st \<Rightarrow>
          if fs_reader st = None \<and> fs_writer st = None then
            if fs_registered st then
              ebind (remove_channel os (fs_addr st) (fs_channel st))
                (\<lambda>_. emodify (modify_fd fd (fs_registered_update (\<lambda>_. False)))) w
            else (Inr (), w)
          else
            let st' = set_interest (wanted st) st; w' = modify_fd fd (set_interest (wanted st)) w in
            if fs_registered st then update_channel os (fs_addr st') (fs_channel st') w'
            else ebind (add_channel os (fs_addr st') (fs_channel st'))
                   (\<lambda>_. emodify (modify_fd fd (fs_registered_update (\<lambda>_. True)))) w')"

section \<open>Completing waits\<close>

definition schedule :: "handle \<Rightarrow> (('k, 'v, 'm) io_world_scheme, unit) eff" where
  "schedule h =
     (if h = 0 then eret ()
      else ebind (is_done h) (\<lambda>d.
        if d then eret () else emodify (\<lambda>w. w\<lparr>io_ready := io_ready w @ [h]\<rparr>)))"

definition complete :: "int \<Rightarrow> event \<Rightarrow> bool \<Rightarrow> (('k, 'v, 'm) io_world_scheme, unit) eff" where
  "complete fd ev result w =
     (case fmlookup (io_fd_states w) fd of
        None \<Rightarrow> (Inl Undefined_behaviour, w)
      | Some st \<Rightarrow>
          (case slot st ev of
             None \<Rightarrow> (Inr (), w)
           | Some completed \<Rightarrow>
               ebind (on_heap (set_result (ws_result completed) result))
                 (\<lambda>_. schedule (ws_continuation completed))
                 (modify_fd fd (set_slot ev None) w)))"

definition both_empty :: "int \<Rightarrow> ('k, 'v, 'm) io_world_scheme \<Rightarrow> bool" where
  "both_empty fd w =
     (case fmlookup (io_fd_states w) fd of
        None \<Rightarrow> False
      | Some st \<Rightarrow> fs_reader st = None \<and> fs_writer st = None)"

definition erase_if_empty :: "int \<Rightarrow> (('k, 'v, 'm) io_world_scheme, unit) eff" where
  "erase_if_empty fd = emodify (\<lambda>w. if both_empty fd w then erase_fd fd w else w)"

definition on_ready :: "'k os \<Rightarrow> int \<Rightarrow> event \<Rightarrow> (('k, 'v, 'm) io_world_scheme, unit) eff" where
  "on_ready os fd ev w =
     (case fmlookup (io_fd_states w) fd of
        None \<Rightarrow> (Inr (), w)
      | Some _ \<Rightarrow>
          ebind (complete fd ev True) (\<lambda>_.
          ebind (refresh_interest os fd) (\<lambda>_. erase_if_empty fd)) w)"

definition cancel :: "'k os \<Rightarrow> int \<Rightarrow> (('k, 'v, 'm) io_world_scheme, unit) eff" where
  "cancel os fd w =
     (case fmlookup (io_fd_states w) fd of
        None \<Rightarrow> (Inr (), w)
      | Some st \<Rightarrow>
          ebind (if fs_registered st
                 then ebind (remove_channel os (fs_addr st) (fs_channel st))
                        (\<lambda>_. emodify (modify_fd fd (fs_registered_update (\<lambda>_. False))))
                 else eret ()) (\<lambda>_.
          ebind (complete fd READ False) (\<lambda>_.
          ebind (complete fd WRITE False) (\<lambda>_. emodify (erase_fd fd)))) w)"

fun cancel_all :: "'k os \<Rightarrow> int list \<Rightarrow> (('k, 'v, 'm) io_world_scheme, unit) eff" where
  "cancel_all os [] = eret ()"
| "cancel_all os (fd # fds) = ebind (cancel os fd) (\<lambda>_. cancel_all os fds)"

text \<open>\<open>handle.destroy()\<close>; the destructors of the descriptor wrappers in the frames cancel their waits.\<close>

definition destroy :: "'k os \<Rightarrow> handle list \<Rightarrow> (('k, 'v, 'm) io_world_scheme, unit) eff" where
  "destroy os hs w =
     (case destroy_list hs (io_frames w) of
        Inl e \<Rightarrow> (Inl e, w)
      | Inr (H, fds) \<Rightarrow> cancel_all os fds (w\<lparr>io_frames := H\<rparr>))"

section \<open>Roots\<close>

definition set_completion :: "bool \<Rightarrow> handle \<Rightarrow> (('k, 'v, 'm) io_world_scheme, unit) eff" where
  "set_completion b h = on_heap (set_frame h (fr_completion_update (\<lambda>_. b)))"

definition spawn :: "'k os \<Rightarrow> handle \<Rightarrow> (('k, 'v, 'm) io_world_scheme, unit) eff" where
  "spawn os h =
     (if \<not> task_valid h then ethrow (Invalid_argument ''IoContext::spawn requires a valid Task'')
      else
        ebind (set_completion True h) (\<lambda>_ w.
          if h |\<in>| io_roots w then
            ebind (emodify (\<lambda>w. w\<lparr>io_roots := io_roots w |-| {|h|}\<rparr>)) (\<lambda>_.
            ebind (set_completion False h) (\<lambda>_.
            ebind (destroy os [h]) (\<lambda>_. ethrow (Logic_error ''IoContext already owns this Task'')))) w
          else (Inr (), w\<lparr>io_roots := finsert h (io_roots w), io_ready := io_ready w @ [h]\<rparr>)))"

definition stop :: "(('k, 'v, 'm) io_world_scheme, unit) eff" where
  "stop = emodify (\<lambda>w. w\<lparr>io_stop_requested := True\<rparr>)"

definition root_completed :: "handle \<Rightarrow> (('k, 'v, 'm) io_world_scheme, unit) eff" where
  "root_completed h w =
     ebind (on_heap (set_frame h (fr_completed_next_update (\<lambda>_. io_completed_head w))))
       (\<lambda>_. emodify (\<lambda>w. w\<lparr>io_completed_head := h\<rparr>)) w"

section \<open>What the operations leave alone\<close>

lemma preserves_applied:
  "(\<And>s. f (snd (m s)) = f s) \<Longrightarrow> preserves f m"
  by (simp add: preserves_def)

lemma preserves_epoll_ctl:
  assumes "\<And>w k. f (w\<lparr>lp_kernel := k\<rparr>) = f w"
  shows "preserves f (epoll_ctl os op fd events)"
  using assms by (simp add: preserves_def epoll_ctl_def split: prod.split)

lemma preserves_add_channel:
  assumes "\<And>w k. f (w\<lparr>lp_kernel := k\<rparr>) = f w" and "\<And>w c. f (w\<lparr>lp_channels := c\<rparr>) = f w"
  shows "preserves f (add_channel os p ch)"
proof -
  let ?undo = "\<lambda>e. ebind (emodify (\<lambda>w. w\<lparr>lp_channels := fmdrop (ch_fd ch) (lp_channels w)\<rparr>)) (\<lambda>_. ethrow e)"
  have "preserves f (ecatch (ctl_add os ch) ?undo)"
    unfolding ctl_add_def using assms
    by (intro preserve_rules preserves_epoll_ctl) (auto intro: preserve_rules split: option.split)
  from preservesD [OF this] assms(2) show ?thesis by (auto simp: preserves_def add_channel_def)
qed

lemma preserves_update_channel:
  assumes "\<And>w k. f (w\<lparr>lp_kernel := k\<rparr>) = f w"
  shows "preserves f (update_channel os p ch)"
proof -
  have "preserves f (ctl_mod os ch)"
    unfolding ctl_mod_def using assms
    by (intro preserve_rules preserves_epoll_ctl) (auto intro: preserve_rules split: option.split)
  from preservesD [OF this] show ?thesis by (auto simp: preserves_def update_channel_def)
qed

lemma preserves_remove_channel:
  assumes "\<And>w k. f (w\<lparr>lp_kernel := k\<rparr>) = f w" and "\<And>w c. f (w\<lparr>lp_channels := c\<rparr>) = f w"
  shows "preserves f (remove_channel os p ch)"
proof -
  have "preserves f (ctl_del os (ch_fd ch))"
    unfolding ctl_del_def using assms by (intro preserve_rules preserves_epoll_ctl)
  from preservesD [OF this] assms(2) show ?thesis by (auto simp: preserves_def remove_channel_def)
qed

lemma preserves_modify_fd:
  assumes "\<And>w m. f (w\<lparr>io_fd_states := m\<rparr>) = f w"
  shows "f (modify_fd fd g w) = f w"
  using assms by (simp add: modify_fd_def split: option.split)

lemma preserves_refresh_interest:
  assumes "\<And>w k. f (w\<lparr>lp_kernel := k\<rparr>) = f w" and "\<And>w c. f (w\<lparr>lp_channels := c\<rparr>) = f w"
    and "\<And>w m. f (w\<lparr>io_fd_states := m\<rparr>) = f w"
  shows "preserves f (refresh_interest os fd)"
proof (rule preserves_applied)
  fix w
  note mod = preserves_modify_fd [OF assms(3)]
  have del: "preserves f (ebind (remove_channel os p ch)
      (\<lambda>_. emodify (modify_fd fd (fs_registered_update (\<lambda>_. False)))))" for p and ch :: "(int \<times> event) channel"
    using assms mod by (intro preserve_rules preserves_remove_channel)
  have add: "preserves f (ebind (add_channel os p ch)
      (\<lambda>_. emodify (modify_fd fd (fs_registered_update (\<lambda>_. True)))))" for p and ch :: "(int \<times> event) channel"
    using assms mod by (intro preserve_rules preserves_add_channel)
  show "f (snd (refresh_interest os fd w)) = f w"
    unfolding refresh_interest_def Let_def
    by (simp add: preservesD [OF del] preservesD [OF add] mod
        preservesD [OF preserves_update_channel [of f, OF assms(1)]] split: option.split)
qed

lemma preserves_schedule:
  "(\<And>w xs. f (w\<lparr>io_ready := xs\<rparr>) = f w) \<Longrightarrow> preserves f (schedule h)"
  unfolding schedule_def
  by (intro preserve_rules) (simp_all add: preserves_def is_done_def)

lemma preserves_complete:
  assumes "\<And>w m. f (w\<lparr>io_fd_states := m\<rparr>) = f w" and "\<And>w xs. f (w\<lparr>io_ready := xs\<rparr>) = f w"
    and "\<And>h b. preserves f (on_heap (set_result h b))"
  shows "preserves f (complete fd ev result)"
proof (rule preserves_applied)
  fix w
  have "preserves f (ebind (on_heap (set_result r result)) (\<lambda>_. schedule c))" for r c
    using assms(2,3) by (intro preserve_rules preserves_schedule)
  from preservesD [OF this] show "f (snd (complete fd ev result w)) = f w"
    by (auto simp: complete_def preserves_modify_fd [of f, OF assms(1)] split: option.split)
qed

lemma preserves_cancel:
  assumes "\<And>w k. f (w\<lparr>lp_kernel := k\<rparr>) = f w" and "\<And>w c. f (w\<lparr>lp_channels := c\<rparr>) = f w"
    and "\<And>w m. f (w\<lparr>io_fd_states := m\<rparr>) = f w" and "\<And>w xs. f (w\<lparr>io_ready := xs\<rparr>) = f w"
    and "\<And>h b. preserves f (on_heap (set_result h b))"
  shows "preserves f (cancel os fd)"
proof (rule preserves_applied)
  fix w
  have "preserves f (ebind (if r
                 then ebind (remove_channel os p ch)
                        (\<lambda>_. emodify (modify_fd fd (fs_registered_update (\<lambda>_. False))))
                 else eret ()) (\<lambda>_.
          ebind (complete fd READ False) (\<lambda>_.
          ebind (complete fd WRITE False) (\<lambda>_. emodify (erase_fd fd)))))" for r p and ch :: "(int \<times> event) channel"
    using assms
    by (intro preserve_rules preserves_remove_channel preserves_complete)
       (simp_all add: erase_fd_def preserves_modify_fd [of f])
  from preservesD [OF this] show "f (snd (cancel os fd w)) = f w"
    unfolding cancel_def by (cases "fmlookup (io_fd_states w) fd") (simp_all del: if_split)
qed

lemma preserves_cancel_all:
  assumes "\<And>w k. f (w\<lparr>lp_kernel := k\<rparr>) = f w" and "\<And>w c. f (w\<lparr>lp_channels := c\<rparr>) = f w"
    and "\<And>w m. f (w\<lparr>io_fd_states := m\<rparr>) = f w" and "\<And>w xs. f (w\<lparr>io_ready := xs\<rparr>) = f w"
    and "\<And>h b. preserves f (on_heap (set_result h b))"
  shows "preserves f (cancel_all os fds)"
  using assms by (induction fds) (auto intro!: preserve_rules preserves_cancel)

lemma set_result_dom: "set_result h b H = Inr H' \<Longrightarrow> fmdom H' = fmdom H"
  by (auto simp: set_result_def fmlookup_dom_iff split: option.splits suspend_point.splits)

lemma set_result_on_heap_dom: "preserves (\<lambda>w. fmdom (io_frames w)) (on_heap (set_result h b))"
  by (auto simp: preserves_def on_heap_def dest: set_result_dom split: sum.split)

lemma destroy_list_shrinks:
  "destroy_list hs H = Inr (H', fds) \<Longrightarrow> fmdom H' |\<subseteq>| fmdom H \<and> (hs \<noteq> [] \<longrightarrow> fcard (fmdom H') < fcard (fmdom H))"
proof (induction hs H arbitrary: H' fds rule: destroy_list.induct)
  case (1 H)
  then show ?case by simp
next
  case (2 h hs H)
  then obtain fr where fr: "fmlookup H h = Some fr"
    by (auto simp: destroy_list.simps(2) split: option.splits)
  with 2 obtain fds' where "destroy_list (owned fr @ hs) (fmdrop h H) = Inr (H', fds')"
    by (auto simp: destroy_list.simps(2) result_simps)
  with 2 fr have sub: "fmdom H' |\<subseteq>| fmdom (fmdrop h H)" by blast
  moreover have "h |\<in>| fmdom H" using fr by (simp add: fmlookup_dom_iff)
  ultimately have "fmdom H' |\<subset>| fmdom H" by (auto simp: fmdom_drop)
  then show ?case by (auto intro: pfsubset_fcard_mono)
qed

lemma destroy_shrinks:
  assumes "destroy os hs w = (Inr u, w')" and "hs \<noteq> []"
  shows "fcard (fmdom (io_frames w')) < fcard (fmdom (io_frames w))"
proof -
  from assms(1) obtain H fds where H: "destroy_list hs (io_frames w) = Inr (H, fds)"
      "cancel_all os fds (w\<lparr>io_frames := H\<rparr>) = (Inr u, w')"
    by (auto simp: destroy_def split: sum.splits)
  have "fmdom (io_frames w') = fmdom H"
    using preserves_result [OF preserves_cancel_all [of "\<lambda>w. fmdom (io_frames w)"] H(2)]
    by (simp add: set_result_on_heap_dom)
  with destroy_list_shrinks [OF H(1)] assms(2) show ?thesis by simp
qed

section \<open>Draining completed roots\<close>

function drain_loop :: "'k os \<Rightarrow> exn option \<Rightarrow> (('k, 'v, 'm) io_world_scheme, unit) eff" where
  "drain_loop os first_error w =
     (if io_completed_head w = 0
      then (case first_error of None \<Rightarrow> (Inr (), w) | Some e \<Rightarrow> (Inl e, w))
      else
        let root = io_completed_head w in
        case fmlookup (io_frames w) root of
          None \<Rightarrow> (Inl Undefined_behaviour, w)
        | Some fr \<Rightarrow>
            let first_error = (if first_error = None then fr_exception fr else first_error);
                r = destroy os [root]
                  (w\<lparr>io_completed_head := fr_completed_next fr, io_roots := io_roots w |-| {|root|}\<rparr>) in
            case fst r of
              Inl e \<Rightarrow> (Inl e, snd r)
            | Inr _ \<Rightarrow> drain_loop os first_error (snd r))"
  by pat_completeness auto
termination
proof (relation "measure (\<lambda>(os, e, w). fcard (fmdom (io_frames w)))", goal_cases)
  case 1
  show ?case by simp
next
  case (2 os first_error w root fr e r u)
  then have "destroy os [root]
      (w\<lparr>io_completed_head := fr_completed_next fr, io_roots := io_roots w |-| {|root|}\<rparr>) = (Inr u, snd r)"
    by (metis prod.collapse)
  from destroy_shrinks [OF this] show ?case by simp
qed

declare drain_loop.simps [simp del]

definition drain_completed :: "'k os \<Rightarrow> (('k, 'v, 'm) io_world_scheme, unit) eff" where
  "drain_completed os = drain_loop os None"

section \<open>Arming a wait\<close>

definition clock_now :: "'k os \<Rightarrow> (('k, 'v, 'm) io_world_scheme, int) eff" where
  "clock_now os w = (case os_now os (lp_kernel w) of (t, k) \<Rightarrow> (Inr t, w\<lparr>lp_kernel := k\<rparr>))"

text \<open>The queue hands out entries by deadline.\<close>

definition timer_push :: "timer_entry \<Rightarrow> timer_entry list \<Rightarrow> timer_entry list" where
  "timer_push t ts = insort_key te_deadline t ts"

text \<open>The part of \<open>arm_wait\<close> inside the \<open>try\<close> block, and its handler.\<close>

definition arm_body :: "'k os \<Rightarrow> int \<Rightarrow> event \<Rightarrow> int \<Rightarrow> u64 \<Rightarrow> (('k, 'v, 'm) io_world_scheme, unit) eff" where
  "arm_body os fd ev timeout token =
     ebind (refresh_interest os fd) (\<lambda>_.
       if timeout \<ge> 0 then
         ebind (clock_now os) (\<lambda>now. emodify (\<lambda>w. w\<lparr>io_timers := timer_push
           \<lparr>te_deadline = now + timeout * ns_per_ms, te_token = token, te_fd = fd, te_event = ev\<rparr>
           (io_timers w)\<rparr>))
       else eret ())"

definition arm_rollback :: "'k os \<Rightarrow> int \<Rightarrow> event \<Rightarrow> (('k, 'v, 'm) io_world_scheme, unit) eff" where
  "arm_rollback os fd ev w =
     (let w' = modify_fd fd (set_slot ev None) w in
      case fmlookup (io_fd_states w') fd of
        None \<Rightarrow> (Inl Undefined_behaviour, w')
      | Some st \<Rightarrow>
          if fs_reader st = None \<and> fs_writer st = None then
            ebind (if fs_registered st then remove_channel os (fs_addr st) (fs_channel st) else eret ())
              (\<lambda>_. emodify (erase_fd fd)) w'
          else ecatch (refresh_interest os fd) (\<lambda>_. eret ()) w')"

definition arm_wait ::
  "'k os \<Rightarrow> int \<Rightarrow> event \<Rightarrow> int \<Rightarrow> handle \<Rightarrow> handle \<Rightarrow> (('k, 'v, 'm) io_world_scheme, unit) eff" where
  "arm_wait os fd ev timeout continuation result =
     (if fd < 0 then ethrow (Invalid_argument ''cannot wait on an invalid fd'')
      else if continuation = 0
      then ethrow (Logic_error ''cannot register an invalid coroutine continuation'')
      else
        ebind (is_done continuation) (\<lambda>d.
        if d then ethrow (Logic_error ''cannot register an invalid coroutine continuation'')
        else if result = 0 then ethrow (Invalid_argument ''fd wait requires result storage'')
        else
          ebind (emodify (fd_state_of fd)) (\<lambda>_ w.
          case fmlookup (io_fd_states w) fd of
            None \<Rightarrow> (Inl Undefined_behaviour, w)
          | Some st \<Rightarrow>
              if slot st ev \<noteq> None
              then (Inl (Logic_error ''fd already has a waiter for this direction''), w)
              else
                let token = io_next_token w in
                ebind (on_heap (set_result result False)) (\<lambda>_.
                ebind (emodify (\<lambda>w. modify_fd fd (set_slot ev (Some
                    \<lparr>ws_continuation = continuation, ws_token = token, ws_result = result\<rparr>))
                    (w\<lparr>io_next_token := token + 1\<rparr>))) (\<lambda>_.
                ecatch (arm_body os fd ev timeout token)
                  (\<lambda>e. ebind (arm_rollback os fd ev) (\<lambda>_. ethrow e)))) w)))"

section \<open>Timers\<close>

definition timer_active :: "timer_entry \<Rightarrow> ('k, 'v, 'm) io_world_scheme \<Rightarrow> bool" where
  "timer_active t w =
     (case fmlookup (io_fd_states w) (te_fd t) of
        None \<Rightarrow> False
      | Some st \<Rightarrow>
          (case slot st (te_event t) of None \<Rightarrow> False | Some ws \<Rightarrow> ws_token ws = te_token t))"

text \<open>One turn of the loop of \<open>expire_timers\<close>, after the entry has been popped.\<close>

definition expire_one :: "'k os \<Rightarrow> timer_entry \<Rightarrow> (('k, 'v, 'm) io_world_scheme, unit) eff" where
  "expire_one os t w =
     (if timer_active t w then
        ebind (complete (te_fd t) (te_event t) False) (\<lambda>_.
        ebind (refresh_interest os (te_fd t)) (\<lambda>_. erase_if_empty (te_fd t))) w
      else (Inr (), w))"

lemma preserves_expire_one:
  assumes "\<And>w k. f (w\<lparr>lp_kernel := k\<rparr>) = f w" and "\<And>w c. f (w\<lparr>lp_channels := c\<rparr>) = f w"
    and "\<And>w m. f (w\<lparr>io_fd_states := m\<rparr>) = f w" and "\<And>w xs. f (w\<lparr>io_ready := xs\<rparr>) = f w"
    and "\<And>h b. preserves f (on_heap (set_result h b))"
  shows "preserves f (expire_one os t)"
proof (rule preserves_applied)
  fix w
  have "preserves f (ebind (complete (te_fd t) (te_event t) False) (\<lambda>_.
        ebind (refresh_interest os (te_fd t)) (\<lambda>_. erase_if_empty (te_fd t))))"
    unfolding erase_if_empty_def using assms
    by (intro preserve_rules preserves_complete preserves_refresh_interest) (simp_all add: erase_fd_def)
  from preservesD [OF this] show "f (snd (expire_one os t w)) = f w" by (simp add: expire_one_def)
qed

lemma preserves_set_result:
  "(\<And>w H. f (w\<lparr>io_frames := H\<rparr>) = f w) \<Longrightarrow> preserves f (on_heap (set_result h b))"
  by (auto simp: preserves_def on_heap_def split: sum.split)

function expire_loop :: "'k os \<Rightarrow> int \<Rightarrow> (('k, 'v, 'm) io_world_scheme, unit) eff" where
  "expire_loop os now w =
     (case io_timers w of
        [] \<Rightarrow> (Inr (), w)
      | t # ts \<Rightarrow>
          if te_deadline t \<le> now then
            let r = expire_one os t (w\<lparr>io_timers := ts\<rparr>) in
            case fst r of
              Inl e \<Rightarrow> (Inl e, snd r)
            | Inr _ \<Rightarrow> expire_loop os now (snd r)
          else (Inr (), w))"
  by pat_completeness auto
termination
proof (relation "measure (\<lambda>(os, now, w). length (io_timers w))", goal_cases)
  case 1
  show ?case by simp
next
  case (2 os now w t ts r u)
  have "io_timers (snd r) = ts"
    using preservesD [OF preserves_expire_one [of io_timers], of os t "w\<lparr>io_timers := ts\<rparr>"] 2(3)
    by (simp add: preserves_set_result)
  with 2(1) show ?case by simp
qed

declare expire_loop.simps [simp del]

definition expire_timers :: "'k os \<Rightarrow> (('k, 'v, 'm) io_world_scheme, unit) eff" where
  "expire_timers os = ebind (clock_now os) (\<lambda>now. expire_loop os now)"

text \<open>The loop of \<open>next_poll_timeout\<close> drops the inactive entries at the top.\<close>

definition drop_inactive :: "('k, 'v, 'm) io_world_scheme \<Rightarrow> ('k, 'v, 'm) io_world_scheme" where
  "drop_inactive w = w\<lparr>io_timers := dropWhile (\<lambda>t. \<not> timer_active t w) (io_timers w)\<rparr>"

definition poll_timeout :: "int \<Rightarrow> int \<Rightarrow> int" where
  "poll_timeout deadline now =
     (if deadline \<le> now then 0
      else
        let remaining = deadline - now;
            milliseconds = remaining div ns_per_ms;
            milliseconds = (if milliseconds * ns_per_ms < remaining then milliseconds + 1 else milliseconds)
        in if milliseconds > INT_MAX then INT_MAX else milliseconds)"

definition next_poll_timeout :: "'k os \<Rightarrow> (('k, 'v, 'm) io_world_scheme, int) eff" where
  "next_poll_timeout os =
     ebind (emodify drop_inactive) (\<lambda>_ w.
       case io_timers w of
         [] \<Rightarrow> (Inr (- 1), w)
       | t # _ \<Rightarrow> ebind (clock_now os) (\<lambda>now. eret (poll_timeout (te_deadline t) now)) w)"

definition has_registered_waiter :: "('k, 'v, 'm) io_world_scheme \<Rightarrow> bool" where
  "has_registered_waiter w \<longleftrightarrow> (\<exists>st |\<in>| fmran (io_fd_states w). fs_registered st)"

section \<open>The awaiters\<close>

text \<open>
  \<open>wait_readable\<close>, \<open>wait_writable\<close> and what \<open>co_await\<close> does with their results; the timeout
  \<open>kNoTimeout\<close> waits for ever. \<open>h\<close> is the coroutine, in whose frame the awaiter lives.
\<close>

definition kNoTimeout :: int where
  "kNoTimeout = -1"

definition FdAwaiter :: "int \<Rightarrow> event \<Rightarrow> int \<Rightarrow> fd_awaiter" where
  "FdAwaiter fd ev timeout = \<lparr>aw_fd = fd, aw_event = ev, aw_timeout = timeout, aw_ready = False\<rparr>"

definition wait_readable :: "int \<Rightarrow> int \<Rightarrow> fd_awaiter" where
  "wait_readable fd timeout = FdAwaiter fd READ timeout"

definition wait_writable :: "int \<Rightarrow> int \<Rightarrow> fd_awaiter" where
  "wait_writable fd timeout = FdAwaiter fd WRITE timeout"

definition fd_await_suspend :: "'k os \<Rightarrow> fd_awaiter \<Rightarrow> handle \<Rightarrow> (('k, 'v, 'm) io_world_scheme, unit) eff" where
  "fd_await_suspend os aw h = arm_wait os (aw_fd aw) (aw_event aw) (aw_timeout aw) h h"

definition fd_await_resume :: "fd_awaiter \<Rightarrow> bool" where
  "fd_await_resume aw = aw_ready aw"

definition yield_await_suspend :: "handle \<Rightarrow> (('k, 'v, 'm) io_world_scheme, unit) eff" where
  "yield_await_suspend h = schedule h"

lemmas awaiter_simps [simp] =
  FdAwaiter_def fd_await_suspend_def fd_await_resume_def yield_await_suspend_def

section \<open>Observers\<close>

definition task_count :: "('k, 'v, 'm) io_world_scheme \<Rightarrow> nat" where
  "task_count w = fcard (io_roots w)"

definition ready_count :: "('k, 'v, 'm) io_world_scheme \<Rightarrow> nat" where
  "ready_count w = length (io_ready w)"

section \<open>Destruction of the executor\<close>

text \<open>The channels are removed in the order of their descriptors.\<close>

definition remove_registered :: "'k os \<Rightarrow> int \<Rightarrow> (('k, 'v, 'm) io_world_scheme, unit) eff" where
  "remove_registered os fd w =
     (case fmlookup (io_fd_states w) fd of
        None \<Rightarrow> (Inr (), w)
      | Some st \<Rightarrow> if fs_registered st then remove_channel os (fs_addr st) (fs_channel st) w else (Inr (), w))"

fun remove_all :: "'k os \<Rightarrow> int list \<Rightarrow> (('k, 'v, 'm) io_world_scheme, unit) eff" where
  "remove_all os [] = eret ()"
| "remove_all os (fd # fds) = ebind (remove_registered os fd) (\<lambda>_. remove_all os fds)"

definition IoContext_destroy :: "'k os \<Rightarrow> (('k, 'v, 'm) io_world_scheme, unit) eff" where
  "IoContext_destroy os w =
     ebind (remove_all os (sorted_list_of_fset (fmdom (io_fd_states w)))) (\<lambda>_.
     ebind (emodify (\<lambda>w. w\<lparr>io_fd_states := fmempty, io_ready := [], io_completed_head := 0,
                        io_timers := [], io_roots := {||}\<rparr>)) (\<lambda>_.
     ebind (destroy os (sorted_list_of_fset (io_roots w))) (\<lambda>_. destroy_poller os))) w"

end
