(* ===== verification/Io_Inv.thy ===== *)
theory Io_Inv
  imports Io_Context
begin

text \<open>
  The invariant of the executor, in three parts: who owns which coroutine frame, where each
  suspended frame will be woken from, and how the wait slots are registered with the event loop;
  with the lemmas that each operation of \<open>Io_Context\<close> keeps it, whether it returns or throws.
\<close>

section \<open>Ownership of frames\<close>

text \<open>
  \<open>cur\<close> is the frame that is executing, 0 for none. Tasks are held by the locals of a frame, or by
  the code outside of all coroutines, which is owner 0 and holds \<open>M\<close>.
\<close>

definition tasks_of :: "handle list \<Rightarrow> 'v heap \<Rightarrow> handle \<Rightarrow> handle list" where
  "tasks_of M F x =
     (if x = 0 then M else case fmlookup F x of None \<Rightarrow> [] | Some fr \<Rightarrow> fr_tasks fr)"

definition child_of :: "'v heap \<Rightarrow> handle \<Rightarrow> handle option" where
  "child_of F x =
     (case fmlookup F x of
        None \<Rightarrow> None
      | Some fr \<Rightarrow> (case fr_point fr of At_await c \<Rightarrow> Some c | _ \<Rightarrow> None))"

definition frame_ok :: "handle \<Rightarrow> handle fset \<Rightarrow> nat \<Rightarrow> handle \<Rightarrow> 'v frame \<Rightarrow> bool" where
  "frame_ok cur R N h fr \<longleftrightarrow>
     0 < h \<and> h < N \<and> fr_point fr \<noteq> At_final \<and> (fr_point fr = Executing \<longleftrightarrow> cur = h) \<and>
     (fr_completion fr \<longleftrightarrow> h |\<in>| R) \<and> (fr_point fr = At_start \<longrightarrow> fr_tasks fr = []) \<and>
     fr_exception fr = None"

text \<open>A held task has not started; a child that is awaited has, and knows who awaits it.\<close>

definition held_ok :: "'v heap \<Rightarrow> handle fset \<Rightarrow> handle \<Rightarrow> handle \<Rightarrow> bool" where
  "held_ok F R x t \<longleftrightarrow>
     x < t \<and> t |\<notin>| R \<and> (\<exists>fr. fmlookup F t = Some fr \<and> fr_point fr = At_start)"

definition child_ok :: "'v heap \<Rightarrow> handle fset \<Rightarrow> handle \<Rightarrow> handle \<Rightarrow> bool" where
  "child_ok F R x c \<longleftrightarrow>
     x < c \<and> c |\<notin>| R \<and>
     (\<exists>fr. fmlookup F c = Some fr \<and> fr_point fr \<noteq> At_start \<and> fr_continuation fr = x)"

definition has_owner :: "handle list \<Rightarrow> 'v heap \<Rightarrow> handle fset \<Rightarrow> handle \<Rightarrow> 'v frame \<Rightarrow> bool" where
  "has_owner M F R h fr \<longleftrightarrow>
     h |\<in>| R \<or>
     (if fr_point fr = At_start then \<exists>x. h \<in> set (tasks_of M F x)
      else child_of F (fr_continuation fr) = Some h)"

definition heap_inv :: "handle \<Rightarrow> handle list \<Rightarrow> 'v heap \<Rightarrow> handle fset \<Rightarrow> nat \<Rightarrow> bool" where
  "heap_inv cur M F R N \<longleftrightarrow>
     0 < N \<and>
     (\<forall>h fr. fmlookup F h = Some fr \<longrightarrow> frame_ok cur R N h fr) \<and>
     (\<forall>h. h |\<in>| R \<longrightarrow> fmlookup F h \<noteq> None) \<and>
     (cur \<noteq> 0 \<longrightarrow> fmlookup F cur \<noteq> None) \<and>
     (\<forall>x. distinct (tasks_of M F x)) \<and>
     (\<forall>x t. t \<in> set (tasks_of M F x) \<longrightarrow> held_ok F R x t) \<and>
     (\<forall>x y t. t \<in> set (tasks_of M F x) \<and> t \<in> set (tasks_of M F y) \<longrightarrow> x = y) \<and>
     (\<forall>x c. child_of F x = Some c \<longrightarrow> child_ok F R x c) \<and>
     (\<forall>h fr. fmlookup F h = Some fr \<longrightarrow> has_owner M F R h fr)"

lemma heap_invI:
  assumes "0 < N"
    and "\<And>h fr. fmlookup F h = Some fr \<Longrightarrow> frame_ok cur R N h fr"
    and "\<And>h. h |\<in>| R \<Longrightarrow> fmlookup F h \<noteq> None"
    and "cur \<noteq> 0 \<Longrightarrow> fmlookup F cur \<noteq> None"
    and "\<And>x. distinct (tasks_of M F x)"
    and "\<And>x t. t \<in> set (tasks_of M F x) \<Longrightarrow> held_ok F R x t"
    and "\<And>x y t. t \<in> set (tasks_of M F x) \<Longrightarrow> t \<in> set (tasks_of M F y) \<Longrightarrow> x = y"
    and "\<And>x c. child_of F x = Some c \<Longrightarrow> child_ok F R x c"
    and "\<And>h fr. fmlookup F h = Some fr \<Longrightarrow> has_owner M F R h fr"
  shows "heap_inv cur M F R N"
  using assms unfolding heap_inv_def by blast

lemma heap_invD:
  assumes "heap_inv cur M F R N"
  shows "0 < N"
    and "\<And>h fr. fmlookup F h = Some fr \<Longrightarrow> frame_ok cur R N h fr"
    and "\<And>h. h |\<in>| R \<Longrightarrow> fmlookup F h \<noteq> None"
    and "cur \<noteq> 0 \<Longrightarrow> fmlookup F cur \<noteq> None"
    and "\<And>x. distinct (tasks_of M F x)"
    and "\<And>x t. t \<in> set (tasks_of M F x) \<Longrightarrow> held_ok F R x t"
    and "\<And>x y t. t \<in> set (tasks_of M F x) \<Longrightarrow> t \<in> set (tasks_of M F y) \<Longrightarrow> x = y"
    and "\<And>x c. child_of F x = Some c \<Longrightarrow> child_ok F R x c"
    and "\<And>h fr. fmlookup F h = Some fr \<Longrightarrow> has_owner M F R h fr"
  using assms unfolding heap_inv_def by blast+

text \<open>
  Most steps change one frame. What such a change does to the two ownership relations follows
  from what it does to the tasks and the suspension point of that frame.
\<close>

lemma tasks_of_upd:
  "tasks_of M (fmupd h fr F) x = (if x = 0 then M else if x = h then fr_tasks fr else tasks_of M F x)"
  by (simp add: tasks_of_def)

lemma child_of_upd:
  "child_of (fmupd h fr F) x =
     (if x = h then (case fr_point fr of At_await c \<Rightarrow> Some c | _ \<Rightarrow> None) else child_of F x)"
  by (simp add: child_of_def)

lemma tasks_of_0 [simp]: "tasks_of M F 0 = M"
  by (simp add: tasks_of_def)

lemma tasks_of_same:
  "fmlookup F h = Some fr \<Longrightarrow> fr_tasks fr' = fr_tasks fr \<Longrightarrow> tasks_of M (fmupd h fr' F) = tasks_of M F"
  by (auto simp: tasks_of_def fun_eq_iff)

lemma child_of_same:
  "fmlookup F h = Some fr \<Longrightarrow> child_of (fmupd h fr' F) h = child_of F h \<Longrightarrow> child_of (fmupd h fr' F) = child_of F"
  by (auto simp: child_of_def fun_eq_iff)

text \<open>Changing a suspended or executing frame without starting, finishing or awaiting anything.\<close>

lemma heap_inv_point:
  assumes inv: "heap_inv cur M F R N" and h: "fmlookup F h = Some fr"
    and "fr_point fr \<noteq> At_start \<or> h |\<in>| R"
    and "\<And>c. fr_point fr \<noteq> At_await c" and "\<And>c. p \<noteq> At_await c"
    and "p \<noteq> At_start" and "p \<noteq> At_final"
    and "cur' = (if p = Executing then h else if cur = h then 0 else cur)"
    and "p = Executing \<Longrightarrow> cur = h \<or> cur = 0"
  shows "heap_inv cur' M (fmupd h (fr\<lparr>fr_point := p\<rparr>) F) R N" (is "heap_inv _ _ ?F _ _")
proof -
  note D = heap_invD [OF inv]
  have h0: "0 < h" using D(2) [OF h] by (simp add: frame_ok_def)
  have T: "tasks_of M ?F = tasks_of M F" using h by (rule tasks_of_same) simp
  have "child_of ?F h = None" "child_of F h = None"
    using h assms(4,5) by (auto simp: child_of_def split: suspend_point.split)
  then have C: "child_of ?F = child_of F" using child_of_same [OF h] by metis
  show ?thesis
  proof (rule heap_invI)
    fix x y t fr'
    show "0 < N" by (rule D(1))
    show "frame_ok cur' R N x fr'" if "fmlookup ?F x = Some fr'"
      using that D(2) [OF h] D(2) [of x fr'] h0 assms(5-9) by (auto simp: frame_ok_def split: if_splits)
    show "fmlookup ?F x \<noteq> None" if "x |\<in>| R" using D(3) [OF that] by simp
    show "fmlookup ?F cur' \<noteq> None" if "cur' \<noteq> 0"
      using that assms(8) D(4) by (simp split: if_splits)
    show "distinct (tasks_of M ?F x)" using D(5) T by simp
    show "held_ok ?F R x t" if "t \<in> set (tasks_of M ?F x)"
      using that D(6) [of t x] T h assms(3) by (auto simp: held_ok_def)
    show "x = y" if "t \<in> set (tasks_of M ?F x)" "t \<in> set (tasks_of M ?F y)"
      using that D(7) [of t x y] T by simp
    show "child_ok ?F R x t" if "child_of ?F x = Some t"
      using that D(8) [of x t] C h assms(6) by (auto simp: child_ok_def)
    show "has_owner M ?F R x fr'" if "fmlookup ?F x = Some fr'"
      using that D(9) [OF h] D(9) [of x fr'] assms(3,6) by (auto simp: has_owner_def T C split: if_splits)
  qed
qed

section \<open>Held tasks\<close>

definition set_tasks :: "handle \<Rightarrow> handle list \<Rightarrow> handle list \<Rightarrow> 'v heap \<Rightarrow> handle list \<times> 'v heap" where
  "set_tasks x ts M F =
     (if x = 0 then (ts, F)
      else (M, case fmlookup F x of None \<Rightarrow> F | Some fr \<Rightarrow> fmupd x (fr\<lparr>fr_tasks := ts\<rparr>) F))"

lemma set_tasks_lookup:
  "set_tasks x ts M F = (M', F') \<Longrightarrow>
     fmlookup F' h = (if h = x \<and> x \<noteq> 0 then map_option (fr_tasks_update (\<lambda>_. ts)) (fmlookup F h)
                      else fmlookup F h)"
  by (auto simp: set_tasks_def split: if_splits option.splits)

lemma set_tasks_tasks_of:
  assumes "set_tasks x ts M F = (M', F')" and "x = 0 \<or> fmlookup F x \<noteq> None"
  shows "tasks_of M' F' = (tasks_of M F)(x := ts)"
proof
  fix y
  show "tasks_of M' F' y = ((tasks_of M F)(x := ts)) y"
    using assms by (cases "x = 0") (auto simp: set_tasks_def tasks_of_def)
qed

lemma set_tasks_child_of: "set_tasks x ts M F = (M', F') \<Longrightarrow> child_of F' = child_of F"
  by (auto simp: fun_eq_iff child_of_def set_tasks_lookup split: option.split)

text \<open>
  A frame and the frame it becomes when only its list of tasks changes agree on everything the
  invariant reads, apart from that list.
\<close>

lemma set_tasks_some:
  assumes "set_tasks x ts M F = (M', F')" and "fmlookup F' h = Some fr'"
  obtains fr where "fmlookup F h = Some fr" and "fr_point fr' = fr_point fr"
    and "fr_completion fr' = fr_completion fr" and "fr_continuation fr' = fr_continuation fr"
    and "fr_exception fr' = fr_exception fr"
    and "fr_tasks fr' = (if h = x \<and> x \<noteq> 0 then ts else fr_tasks fr)"
  using assms(2) by (auto simp: set_tasks_lookup [OF assms(1)] split: if_splits)

lemma set_tasks_held:
  "set_tasks x ts M F = (M', F') \<Longrightarrow> held_ok F' R y t = held_ok F R y t"
  by (auto simp: held_ok_def set_tasks_lookup split: if_splits)

lemma set_tasks_child_ok:
  "set_tasks x ts M F = (M', F') \<Longrightarrow> child_ok F' R y t = child_ok F R y t"
  by (auto simp: child_ok_def set_tasks_lookup split: if_splits)

lemma heap_inv_create:
  assumes inv: "heap_inv cur M F R N"
    and st: "set_tasks cur (tasks_of M F cur @ [N]) M F = (M', F')"
  shows "heap_inv cur M' (fmupd N (frame_new void fds) F') R (Suc N)" (is "heap_inv _ _ ?F _ _")
proof -
  note D = heap_invD [OF inv]
  have live: "cur = 0 \<or> fmlookup F cur \<noteq> None" using D(4) by blast
  have fresh: "fmlookup F N = None" using D(2) [of N] by (cases "fmlookup F N") (auto simp: frame_ok_def)
  have curN: "cur < N" using D(1,2,4) live by (fastforce simp: frame_ok_def)
  have rN: "N |\<notin>| R" using D(3) [of N] fresh by auto
  have T: "tasks_of M' ?F = (tasks_of M F)(cur := tasks_of M F cur @ [N])"
  proof
    fix x
    show "tasks_of M' ?F x = ((tasks_of M F)(cur := tasks_of M F cur @ [N])) x"
    proof (cases "x = N")
      case True
      with D(1) curN fresh show ?thesis by (simp add: tasks_of_def frame_new_def)
    next
      case False
      then have "tasks_of M' ?F x = tasks_of M' F' x" by (simp add: tasks_of_def)
      then show ?thesis by (simp add: set_tasks_tasks_of [OF st live])
    qed
  qed
  have C: "child_of ?F = child_of F"
    using set_tasks_child_of [OF st] fresh
    by (auto simp: fun_eq_iff child_of_upd) (auto simp: child_of_def frame_new_def)
  have old: "N \<notin> set (tasks_of M F x)" for x using D(6) [of N x] fresh by (auto simp: held_ok_def)
  show ?thesis
  proof (rule heap_invI)
    fix x y t fr'
    show "0 < Suc N" by simp
    show "frame_ok cur R (Suc N) x fr'" if "fmlookup ?F x = Some fr'"
    proof (cases "x = N")
      case True
      with that D(1) curN rN show ?thesis by (auto simp: frame_ok_def frame_new_def)
    next
      case False
      with that have "fmlookup F' x = Some fr'" by simp
      then show ?thesis using D(2) [of x] by (elim set_tasks_some [OF st]) (auto simp: frame_ok_def)
    qed
    show "fmlookup ?F x \<noteq> None" if "x |\<in>| R" using D(3) [OF that] by (auto simp: set_tasks_lookup [OF st])
    show "fmlookup ?F cur \<noteq> None" if "cur \<noteq> 0" using D(4) [OF that] by (auto simp: set_tasks_lookup [OF st])
    show "distinct (tasks_of M' ?F x)" using D(5) old by (auto simp: T)
    show "held_ok ?F R x t" if "t \<in> set (tasks_of M' ?F x)"
    proof (cases "t = N")
      case True
      with that old have "x = cur" by (auto simp: T split: if_splits)
      with True curN rN show ?thesis by (simp add: held_ok_def frame_new_def)
    next
      case False
      with that D(6) [of t x] D(6) [of t cur] have "held_ok F' R x t"
        by (auto simp: T set_tasks_held [OF st] split: if_splits)
      with False show ?thesis by (simp add: held_ok_def)
    qed
    show "x = y" if "t \<in> set (tasks_of M' ?F x)" "t \<in> set (tasks_of M' ?F y)"
      using that D(7) [of t x y] old by (auto simp: T split: if_splits)
    show "child_ok ?F R x t" if "child_of ?F x = Some t"
    proof -
      have "child_ok F' R x t" using that D(8) [of x t] by (simp add: C set_tasks_child_ok [OF st])
      moreover have "t \<noteq> N" using D(8) [of x t] that fresh by (auto simp: C child_ok_def)
      ultimately show ?thesis by (simp add: child_ok_def)
    qed
    show "has_owner M' ?F R x fr'" if "fmlookup ?F x = Some fr'"
    proof (cases "x = N")
      case True
      have "N \<in> set (tasks_of M' ?F cur)" by (simp add: T)
      with True that show ?thesis by (auto simp: has_owner_def)
    next
      case False
      with that have "fmlookup F' x = Some fr'" by simp
      then show ?thesis using D(9) [of x]
        by (elim set_tasks_some [OF st]) (auto simp: has_owner_def T C)
    qed
  qed
qed

text \<open>A held task leaves its holder: to become a root, to be destroyed, or to be awaited.\<close>

lemma take_task:
  assumes inv: "heap_inv cur M F R N" and t: "t \<in> set (tasks_of M F cur)"
    and st: "set_tasks cur (remove1 t (tasks_of M F cur)) M F = (M', F')"
  shows "tasks_of M' F' = (tasks_of M F)(cur := remove1 t (tasks_of M F cur))"
    and "distinct (tasks_of M' F' x)"
    and "u \<in> set (tasks_of M' F' x) \<longleftrightarrow> u \<noteq> t \<and> u \<in> set (tasks_of M F x)"
    and "u \<in> set (tasks_of M' F' x) \<Longrightarrow> held_ok F' R x u"
    and "u \<in> set (tasks_of M' F' x) \<Longrightarrow> u \<in> set (tasks_of M' F' y) \<Longrightarrow> x = y"
    and "child_of F' = child_of F"
    and "child_of F' x = Some c \<Longrightarrow> child_ok F' R x c \<and> c \<noteq> t"
    and "\<exists>ft. fmlookup F' t = Some ft \<and> fmlookup F t = Some ft \<and> fr_point ft = At_start \<and> fr_tasks ft = []"
    and "cur \<noteq> t \<and> t \<noteq> 0 \<and> t |\<notin>| R"
    and "fmlookup F' h = Some fr' \<Longrightarrow> frame_ok cur R N h fr'"
    and "fmlookup F h \<noteq> None \<Longrightarrow> fmlookup F' h \<noteq> None"
    and "fmlookup F' h = Some fr' \<Longrightarrow> h \<noteq> t \<Longrightarrow> has_owner M' F' R h fr'"
proof -
  note D = heap_invD [OF inv]
  have live: "cur = 0 \<or> fmlookup F cur \<noteq> None" using D(4) by blast
  note ok = D(6) [OF t]
  show T: "tasks_of M' F' = (tasks_of M F)(cur := remove1 t (tasks_of M F cur))"
    by (rule set_tasks_tasks_of [OF st live])
  show "distinct (tasks_of M' F' x)" using D(5) by (auto simp: T)
  show mem: "u \<in> set (tasks_of M' F' x) \<longleftrightarrow> u \<noteq> t \<and> u \<in> set (tasks_of M F x)" for u x
    using D(5) [of cur] D(7) [OF t, of x] by (auto simp: T)
  show "held_ok F' R x u" if "u \<in> set (tasks_of M' F' x)"
    using that mem D(6) [of u x] by (simp add: set_tasks_held [OF st])
  show "x = y" if "u \<in> set (tasks_of M' F' x)" "u \<in> set (tasks_of M' F' y)"
    using that mem D(7) [of u x y] by simp
  show C: "child_of F' = child_of F" by (rule set_tasks_child_of [OF st])
  show "cur \<noteq> t \<and> t \<noteq> 0 \<and> t |\<notin>| R" using ok by (auto simp: held_ok_def)
  then show ft: "\<exists>ft. fmlookup F' t = Some ft \<and> fmlookup F t = Some ft \<and> fr_point ft = At_start \<and> fr_tasks ft = []"
    using ok D(2) [of t] by (auto simp: held_ok_def frame_ok_def set_tasks_lookup [OF st])
  show "child_ok F' R x c \<and> c \<noteq> t" if "child_of F' x = Some c"
  proof -
    have "child_ok F R x c" using that D(8) [of x c] by (simp add: C)
    moreover from this have "c \<noteq> t" using ft by (auto simp: child_ok_def)
    ultimately show ?thesis by (simp add: set_tasks_child_ok [OF st])
  qed
  show "frame_ok cur R N h fr'" if "fmlookup F' h = Some fr'"
    using that D(2) [of h] D(6) [of _ h] by (elim set_tasks_some [OF st]) (auto simp: frame_ok_def tasks_of_def)
  show "fmlookup F' h \<noteq> None" if "fmlookup F h \<noteq> None" using that by (auto simp: set_tasks_lookup [OF st])
  show "has_owner M' F' R h fr'" if "fmlookup F' h = Some fr'" "h \<noteq> t"
    using that(1) D(9) [of h] that(2) by (elim set_tasks_some [OF st]) (auto simp: has_owner_def mem C)
qed

lemma heap_inv_spawn:
  assumes inv: "heap_inv cur M F R N" and t: "t \<in> set (tasks_of M F cur)"
    and st: "set_tasks cur (remove1 t (tasks_of M F cur)) M F = (M', F')"
    and ft: "fmlookup F' t = Some ft"
  shows "heap_inv cur M' (fmupd t (ft\<lparr>fr_completion := True\<rparr>) F') (finsert t R) N" (is "heap_inv _ _ ?F _ _")
proof -
  note D = heap_invD [OF inv] and K = take_task [OF inv t st]
  have T: "tasks_of M' ?F = tasks_of M' F'" using tasks_of_same [OF ft] by simp
  have "child_of ?F t = child_of F' t" using ft by (simp add: child_of_def)
  then have C: "child_of ?F = child_of F'" using child_of_same [OF ft] by metis
  show ?thesis
  proof (rule heap_invI)
    fix x y u fr'
    show "0 < N" by (rule D(1))
    show "frame_ok cur (finsert t R) N x fr'" if "fmlookup ?F x = Some fr'"
      using that K(9) K(10) [OF ft] K(10) [of x fr'] by (auto simp: frame_ok_def split: if_splits)
    show "fmlookup ?F x \<noteq> None" if "x |\<in>| finsert t R" using that D(3) [of x] K(11) [of x] by auto
    show "fmlookup ?F cur \<noteq> None" if "cur \<noteq> 0" using D(4) [OF that] K(11) [of cur] by auto
    show "distinct (tasks_of M' ?F x)" using K(2) by (simp add: T)
    show "held_ok ?F (finsert t R) x u" if "u \<in> set (tasks_of M' ?F x)"
      using that K(3,4) [of u x] by (auto simp: T held_ok_def)
    show "x = y" if "u \<in> set (tasks_of M' ?F x)" "u \<in> set (tasks_of M' ?F y)"
      using that K(5) [of u x y] by (simp add: T)
    show "child_ok ?F (finsert t R) x u" if "child_of ?F x = Some u"
      using that K(7) [of x u] by (auto simp: C child_ok_def)
    show "has_owner M' ?F (finsert t R) x fr'" if "fmlookup ?F x = Some fr'"
      using that K(12) [of x fr'] by (auto simp: has_owner_def T C split: if_splits)
  qed
qed

lemma heap_inv_drop:
  assumes inv: "heap_inv cur M F R N" and t: "t \<in> set (tasks_of M F cur)"
    and st: "set_tasks cur (remove1 t (tasks_of M F cur)) M F = (M', F')"
  shows "heap_inv cur M' (fmdrop t F') R N" (is "heap_inv _ _ ?F _ _")
proof -
  note D = heap_invD [OF inv] and K = take_task [OF inv t st]
  have T: "tasks_of M' ?F = tasks_of M' F'" using K(8,9) by (auto simp: tasks_of_def fun_eq_iff)
  have C: "child_of ?F = child_of F'" using K(8) by (auto simp: child_of_def fun_eq_iff)
  show ?thesis
  proof (rule heap_invI)
    fix x y u fr'
    show "0 < N" by (rule D(1))
    show "frame_ok cur R N x fr'" if "fmlookup ?F x = Some fr'"
      using that K(10) [of x fr'] by (simp split: if_splits)
    show "fmlookup ?F x \<noteq> None" if "x |\<in>| R" using that D(3) [of x] K(9) K(11) [of x] by auto
    show "fmlookup ?F cur \<noteq> None" if "cur \<noteq> 0" using D(4) [OF that] K(9) K(11) [of cur] by auto
    show "distinct (tasks_of M' ?F x)" using K(2) by (simp add: T)
    show "held_ok ?F R x u" if "u \<in> set (tasks_of M' ?F x)"
      using that K(3,4) [of u x] by (auto simp: T held_ok_def)
    show "x = y" if "u \<in> set (tasks_of M' ?F x)" "u \<in> set (tasks_of M' ?F y)"
      using that K(5) [of u x y] by (simp add: T)
    show "child_ok ?F R x u" if "child_of ?F x = Some u"
      using that K(7) [of x u] by (auto simp: C child_ok_def)
    show "has_owner M' ?F R x fr'" if "fmlookup ?F x = Some fr'"
      using that K(12) [of x fr'] by (auto simp: has_owner_def T C split: if_splits)
  qed
qed

text \<open>Awaiting: the holder suspends in the awaiter of the task, which starts to execute.\<close>

lemma heap_inv_await:
  assumes inv: "heap_inv cur M F R N" and t: "t \<in> set (tasks_of M F cur)" and cur: "cur \<noteq> 0"
    and st: "set_tasks cur (remove1 t (tasks_of M F cur)) M F = (M', F')"
    and fc: "fmlookup F' cur = Some fc" and ft: "fmlookup F' t = Some ft"
  shows "heap_inv t M' (fmupd t (ft\<lparr>fr_continuation := cur, fr_point := Executing\<rparr>)
           (fmupd cur (fc\<lparr>fr_point := At_await t\<rparr>) F')) R N" (is "heap_inv _ _ ?F _ _")
proof -
  note D = heap_invD [OF inv] and K = take_task [OF inv t st]
  have ex: "fr_point fc = Executing" using K(10) [OF fc] by (simp add: frame_ok_def)
  have lt: "cur < t" using D(6) [OF t] by (simp add: held_ok_def)
  have T: "tasks_of M' ?F = tasks_of M' F'" using fc ft by (auto simp: tasks_of_def fun_eq_iff)
  have ncur: "child_of F' cur = None" "child_of F' t = None"
    using ex fc K(8) ft by (auto simp: child_of_def)
  have C: "child_of ?F = (child_of F')(cur := Some t)"
    using K(9) ncur by (auto simp: child_of_upd fun_eq_iff)
  show ?thesis
  proof (rule heap_invI)
    fix x y u fr'
    show "0 < N" by (rule D(1))
    show "frame_ok t R N x fr'" if "fmlookup ?F x = Some fr'"
      using that K(9) K(10) [OF fc] K(10) [OF ft] K(10) [of x fr'] by (auto simp: frame_ok_def split: if_splits)
    show "fmlookup ?F x \<noteq> None" if "x |\<in>| R" using that D(3) [of x] K(11) [of x] by auto
    show "fmlookup ?F t \<noteq> None" by simp
    show "distinct (tasks_of M' ?F x)" using K(2) by (simp add: T)
    show "held_ok ?F R x u" if "u \<in> set (tasks_of M' ?F x)"
      using that K(3,4) [of u x] fc ex by (auto simp: T held_ok_def)
    show "x = y" if "u \<in> set (tasks_of M' ?F x)" "u \<in> set (tasks_of M' ?F y)"
      using that K(5) [of u x y] by (simp add: T)
    show "child_ok ?F R x u" if "child_of ?F x = Some u"
      using that K(7) [of x u] K(9) lt fc by (auto simp: C child_ok_def split: if_splits)
    show "has_owner M' ?F R x fr'" if "fmlookup ?F x = Some fr'"
      using that K(12) [of x fr'] K(12) [OF fc] K(9) ncur ex
      by (auto simp: has_owner_def T C split: if_splits)
  qed
qed

text \<open>The executing frame ends and is destroyed: a root, or a child whose awaiter goes on.\<close>

lemma heap_inv_end_root:
  assumes inv: "heap_inv cur M F R N" and "cur |\<in>| R" and "tasks_of M F cur = []"
  shows "heap_inv 0 M (fmdrop cur F) (R |-| {|cur|}) N" (is "heap_inv _ _ ?F _ _")
proof -
  note D = heap_invD [OF inv]
  obtain fc where fc: "fmlookup F cur = Some fc" using D(3) [OF assms(2)] by blast
  have c: "cur \<noteq> 0" "fr_point fc = Executing" using D(2) [OF fc] by (auto simp: frame_ok_def)
  have T: "tasks_of M ?F = tasks_of M F" using assms(3) c by (auto simp: tasks_of_def fun_eq_iff)
  have C: "child_of ?F = child_of F" using c fc by (auto simp: child_of_def fun_eq_iff)
  have held: "cur \<notin> set (tasks_of M F x)" for x using D(6) [of cur x] assms(2) by (auto simp: held_ok_def)
  have child: "child_of F x \<noteq> Some cur" for x using D(8) [of x cur] assms(2) by (auto simp: child_ok_def)
  show ?thesis
  proof (rule heap_invI)
    fix x y u fr'
    show "0 < N" by (rule D(1))
    show "frame_ok 0 (R |-| {|cur|}) N x fr'" if "fmlookup ?F x = Some fr'"
      using that D(2) [of x fr'] by (auto simp: frame_ok_def split: if_splits)
    show "fmlookup ?F x \<noteq> None" if "x |\<in>| R |-| {|cur|}" using that D(3) [of x] by auto
    show "distinct (tasks_of M ?F x)" using D(5) by (simp add: T)
    show "held_ok ?F (R |-| {|cur|}) x u" if "u \<in> set (tasks_of M ?F x)"
      using that D(6) [of u x] held by (auto simp: T held_ok_def)
    show "x = y" if "u \<in> set (tasks_of M ?F x)" "u \<in> set (tasks_of M ?F y)"
      using that D(7) [of u x y] by (simp add: T)
    show "child_ok ?F (R |-| {|cur|}) x u" if "child_of ?F x = Some u"
      using that D(8) [of x u] child [of x] by (auto simp: C child_ok_def)
    show "has_owner M ?F (R |-| {|cur|}) x fr'" if "fmlookup ?F x = Some fr'"
      using that D(9) [of x fr'] by (auto simp: has_owner_def T C split: if_splits)
  qed simp
qed

lemma heap_inv_end_child:
  assumes inv: "heap_inv cur M F R N" and fc: "fmlookup F cur = Some fc" and "cur |\<notin>| R" and "fr_tasks fc = []"
    and p: "fr_continuation fc = p"
  shows "\<exists>fp. fmlookup F p = Some fp \<and> fr_point fp = At_await cur \<and> p \<noteq> cur \<and> p \<noteq> 0 \<and>
           heap_inv p M (fmupd p (fp\<lparr>fr_point := Executing\<rparr>) (fmdrop cur F)) R N"
proof -
  note D = heap_invD [OF inv]
  have c: "cur \<noteq> 0" "fr_point fc = Executing" using D(2) [OF fc] by (auto simp: frame_ok_def)
  have cp: "child_of F p = Some cur" using D(9) [OF fc] assms(3) c p by (simp add: has_owner_def)
  from cp obtain fp where fp: "fmlookup F p = Some fp" "fr_point fp = At_await cur"
    by (auto simp: child_of_def split: option.splits suspend_point.splits)
  have pc: "p \<noteq> cur" "p \<noteq> 0" using D(2) [OF fp(1)] fp(2) c fc fp by (auto simp: frame_ok_def)
  let ?F = "fmupd p (fp\<lparr>fr_point := Executing\<rparr>) (fmdrop cur F)"
  have T: "tasks_of M ?F = tasks_of M F" using assms(4) c fc fp by (auto simp: tasks_of_def fun_eq_iff)
  have C: "child_of ?F = (child_of F)(p := None)"
    using pc fc c by (auto simp: child_of_def fun_eq_iff)
  have held: "cur \<notin> set (tasks_of M F x)" "p \<notin> set (tasks_of M F x)" for x
    using D(6) [of cur x] D(6) [of p x] fc c fp by (auto simp: held_ok_def)
  have child: "child_of F x = Some cur \<Longrightarrow> x = p" for x using D(8) [of x cur] fc p by (auto simp: child_ok_def)
  have "heap_inv p M ?F R N"
  proof (rule heap_invI)
    fix x y u fr'
    show "0 < N" by (rule D(1))
    show "frame_ok p R N x fr'" if "fmlookup ?F x = Some fr'"
      using that D(2) [OF fp(1)] D(2) [of x fr'] fp(2) pc by (auto simp: frame_ok_def split: if_splits)
    show "fmlookup ?F x \<noteq> None" if "x |\<in>| R" using that D(3) [of x] assms(3) by auto
    show "fmlookup ?F p \<noteq> None" by simp
    show "distinct (tasks_of M ?F x)" using D(5) by (simp add: T)
    show "held_ok ?F R x u" if "u \<in> set (tasks_of M ?F x)"
      using that D(6) [of u x] held by (auto simp: T held_ok_def)
    show "x = y" if "u \<in> set (tasks_of M ?F x)" "u \<in> set (tasks_of M ?F y)"
      using that D(7) [of u x y] by (simp add: T)
    show "child_ok ?F R x u" if "child_of ?F x = Some u"
      using that D(8) [of x u] child [of x] fp by (auto simp: C child_ok_def split: if_splits)
    show "has_owner M ?F R x fr'" if "fmlookup ?F x = Some fr'"
    proof (cases "x = p")
      case True
      have "has_owner M F R p fp" by (rule D(9) [OF fp(1)])
      with True that fp(2) pc cp show ?thesis by (auto simp: has_owner_def T C split: if_splits)
    next
      case False
      with that have x: "fmlookup F x = Some fr'" "x \<noteq> cur" by (simp_all split: if_splits)
      from D(9) [OF x(1)] x(2) False cp show ?thesis by (auto simp: has_owner_def T C split: if_splits)
    qed
  qed
  with fp pc show ?thesis by blast
qed

end
