(* ===== verification/Io_Wait.thy ===== *)
theory Io_Wait
  imports Io_Inv
begin

text \<open>
  The second and third part of the invariant of the executor: every suspended frame is queued or
  waits in exactly one slot, and every descriptor with a waiter is registered with the interest
  its waiters need. With them, the lemmas that \<open>complete\<close>, \<open>refresh_interest\<close>, \<open>on_ready\<close>, \<open>cancel\<close>,
  \<open>arm_wait\<close> and the timer operations keep the whole invariant.
\<close>

section \<open>Wake sources\<close>

definition waiting :: "(int, fd_state) fmap \<Rightarrow> int \<Rightarrow> event \<Rightarrow> wait_slot option" where
  "waiting S fd ev = (case fmlookup S fd of None \<Rightarrow> None | Some st \<Rightarrow> slot st ev)"

abbreviation direction :: "event \<Rightarrow> bool" where
  "direction ev \<equiv> ev = READ \<or> ev = WRITE"

lemma READ_WRITE [simp]: "READ \<noteq> WRITE" "WRITE \<noteq> READ"
  by (simp_all add: READ_def WRITE_def)

text \<open>Queued frames: yielded, woken from a wait, or a root that has not started.\<close>

definition queued_ok :: "handle fset \<Rightarrow> handle \<Rightarrow> suspend_point \<Rightarrow> bool" where
  "queued_ok R h p \<longleftrightarrow> p = At_yield \<or> p = At_start \<and> h |\<in>| R \<or> (\<exists>aw. p = At_wait aw)"

definition slot_ok :: "'v heap \<Rightarrow> handle list \<Rightarrow> int \<Rightarrow> event \<Rightarrow> wait_slot \<Rightarrow> bool" where
  "slot_ok F Q fd ev ws \<longleftrightarrow>
     ws_result ws = ws_continuation ws \<and> ws_continuation ws \<notin> set Q \<and>
     (\<exists>fr aw. fmlookup F (ws_continuation ws) = Some fr \<and> fr_point fr = At_wait aw \<and>
        aw_fd aw = fd \<and> aw_event aw = ev)"

text \<open>
  \<open>S\<close> are the slots, \<open>Q\<close> the ready queue. The frame \<open>b\<close> is exempt from having a wake source: it is
  0, or the frame whose wait is being armed.
\<close>

definition wait_inv :: "handle \<Rightarrow> 'v heap \<Rightarrow> handle fset \<Rightarrow> handle list \<Rightarrow> (int, fd_state) fmap \<Rightarrow> bool" where
  "wait_inv b F R Q S \<longleftrightarrow>
     distinct Q \<and>
     (\<forall>h. h \<in> set Q \<longrightarrow> h \<noteq> b \<and> (\<exists>fr. fmlookup F h = Some fr \<and> queued_ok R h (fr_point fr))) \<and>
     (\<forall>h fr. fmlookup F h = Some fr \<and> (fr_point fr = At_yield \<or> fr_point fr = At_start \<and> h |\<in>| R) \<longrightarrow>
        h \<in> set Q) \<and>
     (\<forall>h fr aw. fmlookup F h = Some fr \<and> fr_point fr = At_wait aw \<longrightarrow>
        direction (aw_event aw) \<and>
        (h = b \<or> h \<in> set Q \<or>
         (\<exists>ws. waiting S (aw_fd aw) (aw_event aw) = Some ws \<and> ws_continuation ws = h))) \<and>
     (\<forall>fd ev ws. waiting S fd ev = Some ws \<and> direction ev \<longrightarrow>
        slot_ok F Q fd ev ws \<and> ws_continuation ws \<noteq> b)"

lemma wait_invI:
  assumes "distinct Q"
    and "\<And>h. h \<in> set Q \<Longrightarrow> h \<noteq> b \<and> (\<exists>fr. fmlookup F h = Some fr \<and> queued_ok R h (fr_point fr))"
    and "\<And>h fr. fmlookup F h = Some fr \<Longrightarrow> fr_point fr = At_yield \<or> fr_point fr = At_start \<and> h |\<in>| R \<Longrightarrow> h \<in> set Q"
    and "\<And>h fr aw. fmlookup F h = Some fr \<Longrightarrow> fr_point fr = At_wait aw \<Longrightarrow>
        direction (aw_event aw) \<and>
        (h = b \<or> h \<in> set Q \<or>
         (\<exists>ws. waiting S (aw_fd aw) (aw_event aw) = Some ws \<and> ws_continuation ws = h))"
    and "\<And>fd ev ws. waiting S fd ev = Some ws \<Longrightarrow> direction ev \<Longrightarrow>
        slot_ok F Q fd ev ws \<and> ws_continuation ws \<noteq> b"
  shows "wait_inv b F R Q S"
  using assms unfolding wait_inv_def by blast

lemma wait_invD:
  assumes "wait_inv b F R Q S"
  shows "distinct Q"
    and "\<And>h. h \<in> set Q \<Longrightarrow> h \<noteq> b \<and> (\<exists>fr. fmlookup F h = Some fr \<and> queued_ok R h (fr_point fr))"
    and "\<And>h fr. fmlookup F h = Some fr \<Longrightarrow> fr_point fr = At_yield \<or> fr_point fr = At_start \<and> h |\<in>| R \<Longrightarrow> h \<in> set Q"
    and "\<And>h fr aw. fmlookup F h = Some fr \<Longrightarrow> fr_point fr = At_wait aw \<Longrightarrow>
        direction (aw_event aw) \<and>
        (h = b \<or> h \<in> set Q \<or>
         (\<exists>ws. waiting S (aw_fd aw) (aw_event aw) = Some ws \<and> ws_continuation ws = h))"
    and "\<And>fd ev ws. waiting S fd ev = Some ws \<Longrightarrow> direction ev \<Longrightarrow>
        slot_ok F Q fd ev ws \<and> ws_continuation ws \<noteq> b"
  using assms unfolding wait_inv_def by blast+

text \<open>The invariant reads the slots only through \<open>waiting\<close>.\<close>

lemma wait_inv_cong:
  assumes "wait_inv b F R Q S" and eq: "\<And>fd ev. direction ev \<Longrightarrow> waiting S' fd ev = waiting S fd ev"
  shows "wait_inv b F R Q S'"
proof (rule wait_invI)
  note D = wait_invD [OF assms(1)]
  fix h fr aw fd ev ws
  show "distinct Q" by (rule D(1))
  show "h \<noteq> b \<and> (\<exists>fr. fmlookup F h = Some fr \<and> queued_ok R h (fr_point fr))" if "h \<in> set Q"
    using that by (rule D(2))
  show "h \<in> set Q" if "fmlookup F h = Some fr" "fr_point fr = At_yield \<or> fr_point fr = At_start \<and> h |\<in>| R"
    using that by (rule D(3))
  show "direction (aw_event aw) \<and> (h = b \<or> h \<in> set Q \<or>
      (\<exists>ws. waiting S' (aw_fd aw) (aw_event aw) = Some ws \<and> ws_continuation ws = h))"
    if "fmlookup F h = Some fr" "fr_point fr = At_wait aw"
    using D(4) [OF that] eq [of "aw_event aw" "aw_fd aw"] by auto
  show "slot_ok F Q fd ev ws \<and> ws_continuation ws \<noteq> b" if "waiting S' fd ev = Some ws" "direction ev"
    using D(5) [of fd ev ws] that eq [of ev fd] by simp
qed

text \<open>Waking the frame of a slot: the result is written, the slot emptied, the frame queued.\<close>

definition set_ready :: "handle \<Rightarrow> bool \<Rightarrow> 'v heap \<Rightarrow> 'v heap" where
  "set_ready h b F =
     (case fmlookup F h of
        None \<Rightarrow> F
      | Some fr \<Rightarrow>
          (case fr_point fr of
             At_wait aw \<Rightarrow> fmupd h (fr\<lparr>fr_point := At_wait (aw\<lparr>aw_ready := b\<rparr>)\<rparr>) F
           | _ \<Rightarrow> F))"

lemma set_ready_some:
  assumes "fmlookup (set_ready h b F) x = Some fr'"
  obtains fr where "fmlookup F x = Some fr" and "fr_point fr' = fr_point fr"
    | fr aw where "x = h" and "fmlookup F x = Some fr" and "fr_point fr = At_wait aw"
        and "fr' = fr\<lparr>fr_point := At_wait (aw\<lparr>aw_ready := b\<rparr>)\<rparr>"
  using assms by (auto simp: set_ready_def split: option.splits suspend_point.splits if_splits)

lemma wait_inv_wake:
  assumes inv: "wait_inv b F R Q S" and ws: "waiting S fd ev = Some ws" and dir: "direction ev"
    and S': "\<And>fd' ev'. direction ev' \<Longrightarrow>
      waiting S' fd' ev' = (if fd' = fd \<and> ev' = ev then None else waiting S fd' ev')"
  shows "wait_inv b (set_ready (ws_continuation ws) r F) R (Q @ [ws_continuation ws]) S'"
proof -
  note D = wait_invD [OF inv]
  let ?h = "ws_continuation ws" and ?F = "set_ready (ws_continuation ws) r F"
  obtain fr aw where ok: "ws_result ws = ?h" "?h \<notin> set Q" "fmlookup F ?h = Some fr" "fr_point fr = At_wait aw"
      "aw_fd aw = fd" "aw_event aw = ev" "?h \<noteq> b"
    using D(5) [OF ws dir] by (auto simp: slot_ok_def)
  have F: "fmlookup ?F x = (if x = ?h then Some (fr\<lparr>fr_point := At_wait (aw\<lparr>aw_ready := r\<rparr>)\<rparr>) else fmlookup F x)" for x
    using ok by (simp add: set_ready_def)
  show ?thesis
  proof (rule wait_invI)
    fix h fr' aw' fd' ev' ws'
    show "distinct (Q @ [?h])" using D(1) ok(2) by simp
    show "h \<noteq> b \<and> (\<exists>fr. fmlookup ?F h = Some fr \<and> queued_ok R h (fr_point fr))" if "h \<in> set (Q @ [?h])"
      using that D(2) [of h] ok(2,7) by (auto simp: F queued_ok_def)
    show "h \<in> set (Q @ [?h])" if "fmlookup ?F h = Some fr'" "fr_point fr' = At_yield \<or> fr_point fr' = At_start \<and> h |\<in>| R"
      using that D(3) [of h fr'] by (auto simp: F split: if_splits)
    show "direction (aw_event aw') \<and> (h = b \<or> h \<in> set (Q @ [?h]) \<or>
        (\<exists>ws. waiting S' (aw_fd aw') (aw_event aw') = Some ws \<and> ws_continuation ws = h))"
      if "fmlookup ?F h = Some fr'" "fr_point fr' = At_wait aw'"
    proof (cases "h = ?h")
      case True
      with that ok dir show ?thesis by (auto simp: F)
    next
      case False
      with that have "direction (aw_event aw') \<and> (h = b \<or> h \<in> set Q \<or>
          (\<exists>ws. waiting S (aw_fd aw') (aw_event aw') = Some ws \<and> ws_continuation ws = h))"
        using D(4) [of h fr' aw'] by (simp add: F)
      with False ws show ?thesis by (auto simp: S')
    qed
    show "slot_ok ?F (Q @ [?h]) fd' ev' ws' \<and> ws_continuation ws' \<noteq> b"
      if "waiting S' fd' ev' = Some ws'" "direction ev'"
    proof -
      from that have other: "waiting S fd' ev' = Some ws'" "\<not> (fd' = fd \<and> ev' = ev)"
        by (auto simp: S' split: if_splits)
      have s: "slot_ok F Q fd' ev' ws'" "ws_continuation ws' \<noteq> b" using D(5) [OF other(1) that(2)] by simp_all
      then have "ws_continuation ws' \<noteq> ?h" using other(2) ok by (auto simp: slot_ok_def)
      with s show ?thesis by (auto simp: slot_ok_def F)
    qed
  qed
qed

section \<open>Registration\<close>

text \<open>
  What holds of every \<open>FdState\<close> object, and what holds of it between operations: at least one
  waiter, and an interest that is what the waiters need.
\<close>

definition fd_ok :: "(int, nat) fmap \<Rightarrow> nat \<Rightarrow> int \<Rightarrow> fd_state \<Rightarrow> bool" where
  "fd_ok C N fd st \<longleftrightarrow>
     0 \<le> fd \<and> 0 < fs_addr st \<and> fs_addr st < N \<and> ch_fd (fs_channel st) = fd \<and>
     ch_on_read (fs_channel st) = Some (fd, READ) \<and> ch_on_write (fs_channel st) = Some (fd, WRITE) \<and>
     fs_registered st \<and> fmlookup C fd = Some (fs_addr st)"

definition fd_full :: "fd_state \<Rightarrow> bool" where
  "fd_full st \<longleftrightarrow>
     (fs_reader st \<noteq> None \<or> fs_writer st \<noteq> None) \<and> ch_interest (fs_channel st) = wanted st"

definition reg_inv :: "int option \<Rightarrow> (int, fd_state) fmap \<Rightarrow> (int, nat) fmap \<Rightarrow> nat \<Rightarrow> bool" where
  "reg_inv b S C N \<longleftrightarrow>
     (\<forall>fd st. fmlookup S fd = Some st \<longrightarrow> fd_ok C N fd st \<and> (b = Some fd \<or> fd_full st)) \<and>
     (\<forall>fd p. fmlookup C fd = Some p \<longrightarrow> fmlookup S fd \<noteq> None) \<and>
     (\<forall>fd fd' st st'. fmlookup S fd = Some st \<and> fmlookup S fd' = Some st' \<and> fs_addr st = fs_addr st' \<longrightarrow>
        fd = fd')"

lemma reg_invI:
  assumes "\<And>fd st. fmlookup S fd = Some st \<Longrightarrow> fd_ok C N fd st \<and> (b = Some fd \<or> fd_full st)"
    and "\<And>fd p. fmlookup C fd = Some p \<Longrightarrow> fmlookup S fd \<noteq> None"
    and "\<And>fd fd' st st'. fmlookup S fd = Some st \<Longrightarrow> fmlookup S fd' = Some st' \<Longrightarrow>
      fs_addr st = fs_addr st' \<Longrightarrow> fd = fd'"
  shows "reg_inv b S C N"
  using assms unfolding reg_inv_def by blast

lemma reg_invD:
  assumes "reg_inv b S C N"
  shows "\<And>fd st. fmlookup S fd = Some st \<Longrightarrow> fd_ok C N fd st \<and> (b = Some fd \<or> fd_full st)"
    and "\<And>fd p. fmlookup C fd = Some p \<Longrightarrow> fmlookup S fd \<noteq> None"
    and "\<And>fd fd' st st'. fmlookup S fd = Some st \<Longrightarrow> fmlookup S fd' = Some st' \<Longrightarrow>
      fs_addr st = fs_addr st' \<Longrightarrow> fd = fd'"
  using assms unfolding reg_inv_def by blast+

text \<open>Replacing one object by another at the same address, and removing one with its channel.\<close>

lemma reg_inv_upd:
  assumes "reg_inv b S C N" and "fmlookup S fd = Some st" and "fs_addr st' = fs_addr st"
    and "fd_ok C N fd st'" and "b' = Some fd \<or> fd_full st'" and "b = b' \<or> b = Some fd \<or> b = None"
  shows "reg_inv b' (fmupd fd st' S) C N"
proof (rule reg_invI)
  note D = reg_invD [OF assms(1)]
  fix x y s t p
  show "fd_ok C N x s \<and> (b' = Some x \<or> fd_full s)" if "fmlookup (fmupd fd st' S) x = Some s"
    using that D(1) [of x s] assms(4-6) by (auto split: if_splits)
  show "fmlookup (fmupd fd st' S) x \<noteq> None" if "fmlookup C x = Some p" using that D(2) by simp
  show "x = y" if "fmlookup (fmupd fd st' S) x = Some s" "fmlookup (fmupd fd st' S) y = Some t" "fs_addr s = fs_addr t"
    using that D(3) [of x s y t] D(3) [OF assms(2), of y t] D(3) [of x s fd st] assms(2,3)
    by (auto split: if_splits)
qed

lemma reg_inv_drop:
  assumes "reg_inv b S C N" and "b = None \<or> b = Some fd"
  shows "reg_inv None (fmdrop fd S) (fmdrop fd C) N"
proof (rule reg_invI)
  note D = reg_invD [OF assms(1)]
  fix x y s t p
  show "fd_ok (fmdrop fd C) N x s \<and> (None = Some x \<or> fd_full s)" if "fmlookup (fmdrop fd S) x = Some s"
    using that D(1) [of x s] assms(2) by (auto simp: fd_ok_def split: if_splits)
  show "fmlookup (fmdrop fd S) x \<noteq> None" if "fmlookup (fmdrop fd C) x = Some p"
    using that D(2) [of x p] by (auto split: if_splits)
  show "x = y" if "fmlookup (fmdrop fd S) x = Some s" "fmlookup (fmdrop fd S) y = Some t" "fs_addr s = fs_addr t"
    using that D(3) [of x s y t] by (auto split: if_splits)
qed

section \<open>The invariant\<close>

text \<open>
  \<open>inv_but b f\<close> exempts the frame \<open>b\<close> from having a wake source (0 for none) and the descriptor \<open>f\<close>
  from being settled.
\<close>

definition core_inv :: "handle \<Rightarrow> handle \<Rightarrow> handle list \<Rightarrow> ('k, 'v, 'm) io_world_scheme \<Rightarrow> bool" where
  "core_inv b cur M w \<longleftrightarrow>
     heap_inv cur M (io_frames w) (io_roots w) (io_next_addr w) \<and>
     wait_inv b (io_frames w) (io_roots w) (io_ready w) (io_fd_states w) \<and>
     io_completed_head w = 0"

definition inv_but :: "handle \<Rightarrow> int option \<Rightarrow> handle \<Rightarrow> handle list \<Rightarrow> ('k, 'v, 'm) io_world_scheme \<Rightarrow> bool" where
  "inv_but b f cur M w \<longleftrightarrow>
     core_inv b cur M w \<and> reg_inv f (io_fd_states w) (lp_channels w) (io_next_addr w)"

abbreviation io_inv :: "handle \<Rightarrow> handle list \<Rightarrow> ('k, 'v, 'm) io_world_scheme \<Rightarrow> bool" where
  "io_inv \<equiv> inv_but 0 None"

lemma inv_but_irrelevant [simp]:
  "inv_but b f cur M (w\<lparr>lp_kernel := k\<rparr>) = inv_but b f cur M w"
  "inv_but b f cur M (w\<lparr>lp_running := c\<rparr>) = inv_but b f cur M w"
  "inv_but b f cur M (w\<lparr>io_timers := ts\<rparr>) = inv_but b f cur M w"
  "inv_but b f cur M (w\<lparr>io_next_token := t\<rparr>) = inv_but b f cur M w"
  "inv_but b f cur M (w\<lparr>io_running := c\<rparr>) = inv_but b f cur M w"
  "inv_but b f cur M (w\<lparr>io_stop_requested := c\<rparr>) = inv_but b f cur M w"
  by (simp_all add: inv_but_def core_inv_def)

section \<open>Completing a wait\<close>

definition woken :: "int \<Rightarrow> event \<Rightarrow> bool \<Rightarrow> ('k, 'v, 'm) io_world_scheme \<Rightarrow> ('k, 'v, 'm) io_world_scheme" where
  "woken fd ev r w =
     (case waiting (io_fd_states w) fd ev of
        None \<Rightarrow> w
      | Some ws \<Rightarrow>
          (modify_fd fd (set_slot ev None) w)\<lparr>
            io_frames := set_ready (ws_continuation ws) r (io_frames w),
            io_ready := io_ready w @ [ws_continuation ws]\<rparr>)"

lemma slot_set [simp]:
  "direction ev' \<Longrightarrow> direction ev \<Longrightarrow> slot (set_slot ev s st) ev' = (if ev' = ev then s else slot st ev')"
  by (auto simp: slot_def set_slot_def)

lemma waiting_upd:
  "direction ev' \<Longrightarrow> direction ev \<Longrightarrow> fmlookup S fd = Some st \<Longrightarrow>
     waiting (fmupd fd (set_slot ev s st) S) fd' ev' =
       (if fd' = fd \<and> ev' = ev then s else waiting S fd' ev')"
  by (auto simp: waiting_def)

lemma complete_woken:
  assumes inv: "core_inv b cur M w" and "fmlookup (io_fd_states w) fd = Some st" and "direction ev"
  shows "complete fd ev r w = (Inr (), woken fd ev r w)"
proof (cases "slot st ev")
  case None
  with assms(2) show ?thesis by (simp add: complete_def woken_def waiting_def)
next
  case (Some ws)
  let ?h = "ws_continuation ws"
  have wt: "waiting (io_fd_states w) fd ev = Some ws" using assms(2) Some by (simp add: waiting_def)
  obtain fr aw where ok: "ws_result ws = ?h" "fmlookup (io_frames w) ?h = Some fr" "fr_point fr = At_wait aw"
    using inv wait_invD(5) [of b "io_frames w" "io_roots w" "io_ready w" "io_fd_states w", OF _ wt assms(3)]
    by (auto simp: core_inv_def slot_ok_def)
  have h: "?h \<noteq> 0" using heap_invD(2) [OF _ ok(2)] inv by (auto simp: core_inv_def frame_ok_def)
  let ?F = "fmupd ?h (fr\<lparr>fr_point := At_wait (aw\<lparr>aw_ready := r\<rparr>)\<rparr>) (io_frames w)"
  have "on_heap (set_result (ws_result ws) r) (modify_fd fd (set_slot ev None) w) =
      (Inr (), (modify_fd fd (set_slot ev None) w)\<lparr>io_frames := ?F\<rparr>)"
    using ok assms(2) by (simp add: on_heap_def set_result_def modify_fd_def)
  then show ?thesis
    using assms(2) Some ok h
    by (simp add: complete_def woken_def wt schedule_def is_done_def coroutine_done_def ebind_def
        set_ready_def modify_fd_def)
qed

lemma heap_inv_ready_flag:
  assumes "heap_inv cur M F R N"
  shows "heap_inv cur M (set_ready h r F) R N"
proof (cases "fmlookup F h")
  case None
  with assms show ?thesis by (simp add: set_ready_def)
next
  case (Some fr)
  show ?thesis
  proof (cases "fr_point fr")
    case (At_wait aw)
    then have "cur \<noteq> h" using heap_invD(2) [OF assms Some] by (simp add: frame_ok_def)
    with At_wait Some show ?thesis
      using heap_inv_point [OF assms Some, of "At_wait (aw\<lparr>aw_ready := r\<rparr>)"] by (simp add: set_ready_def)
  qed (use assms Some in \<open>simp_all add: set_ready_def\<close>)
qed

lemma modify_fd_some:
  "fmlookup (io_fd_states w) fd = Some st \<Longrightarrow>
     modify_fd fd g w = w\<lparr>io_fd_states := fmupd fd (g st) (io_fd_states w)\<rparr>"
  by (simp add: modify_fd_def)

text \<open>Waking changes the slot of the descriptor and nothing else of its object.\<close>

lemma woken_fd:
  assumes "fmlookup (io_fd_states w) fd = Some st" and "direction ev"
  shows "io_fd_states (woken fd ev r w) = fmupd fd (set_slot ev None st) (io_fd_states w)"
proof (cases "slot st ev")
  case None
  have "set_slot ev None st = st" using None assms(2) by (auto simp: slot_def set_slot_def)
  then have "fmupd fd (set_slot ev None st) (io_fd_states w) = io_fd_states w"
    using assms(1) by (intro fmap_ext) auto
  with None assms(1) show ?thesis by (simp add: woken_def waiting_def)
next
  case (Some ws)
  with assms(1) show ?thesis by (simp add: woken_def waiting_def modify_fd_some)
qed

lemma woken_same [simp]:
  "lp_channels (woken fd ev r w) = lp_channels w"
  "io_roots (woken fd ev r w) = io_roots w"
  "io_next_addr (woken fd ev r w) = io_next_addr w"
  "io_completed_head (woken fd ev r w) = io_completed_head w"
  by (simp_all add: woken_def modify_fd_def split: option.split)

lemma core_woken:
  assumes inv: "core_inv b cur M w" and st: "fmlookup (io_fd_states w) fd = Some st" and dir: "direction ev"
  shows "core_inv b cur M (woken fd ev r w)"
proof (cases "waiting (io_fd_states w) fd ev")
  case None
  with inv show ?thesis by (simp add: woken_def)
next
  case (Some ws)
  from inv have w: "wait_inv b (io_frames w) (io_roots w) (io_ready w) (io_fd_states w)"
    by (simp add: core_inv_def)
  have "wait_inv b (set_ready (ws_continuation ws) r (io_frames w)) (io_roots w)
      (io_ready w @ [ws_continuation ws]) (fmupd fd (set_slot ev None st) (io_fd_states w))"
    by (rule wait_inv_wake [OF w Some dir]) (rule waiting_upd [OF _ dir st])
  then show ?thesis
    using inv Some st by (simp add: woken_def core_inv_def modify_fd_some heap_inv_ready_flag)
qed

lemma inv_woken:
  assumes inv: "inv_but b f cur M w" and st: "fmlookup (io_fd_states w) fd = Some st" and dir: "direction ev"
    and f: "f = None \<or> f = Some fd"
  shows "inv_but b (Some fd) cur M (woken fd ev r w)"
proof -
  have reg: "reg_inv (Some fd) (io_fd_states w) (lp_channels w) (io_next_addr w)"
    using inv f unfolding inv_but_def reg_inv_def by auto
  have "reg_inv (Some fd) (fmupd fd (set_slot ev None st) (io_fd_states w)) (lp_channels w) (io_next_addr w)"
    using reg_inv_upd [OF reg st, of "set_slot ev None st" "Some fd"] reg_invD(1) [OF reg st]
    by (simp add: set_slot_def fd_ok_def)
  moreover have "core_inv b cur M (woken fd ev r w)" using inv st dir by (simp add: inv_but_def core_woken)
  ultimately show ?thesis by (simp add: inv_but_def woken_fd [OF st dir])
qed

section \<open>Settling a descriptor\<close>

lemma waiting_same_slots:
  assumes "fmlookup S fd = Some st" and "fs_reader st' = fs_reader st" and "fs_writer st' = fs_writer st"
  shows "waiting (fmupd fd st' S) = waiting S"
  using assms by (auto simp: waiting_def slot_def fun_eq_iff)

lemma waiting_drop_empty:
  assumes "fmlookup S fd = Some st" and "fs_reader st = None" and "fs_writer st = None"
  shows "waiting (fmdrop fd S) = waiting S"
  using assms by (auto simp: waiting_def slot_def fun_eq_iff)

text \<open>The core of the invariant reads the descriptors only through their slots.\<close>

lemma core_cong:
  assumes "core_inv b cur M w" and "waiting S = waiting (io_fd_states w)"
  shows "core_inv b cur M (w\<lparr>io_fd_states := S\<rparr>)"
  using assms by (auto simp: core_inv_def intro: wait_inv_cong)

lemma core_irrelevant [simp]:
  "core_inv b cur M (w\<lparr>lp_kernel := k\<rparr>) = core_inv b cur M w"
  "core_inv b cur M (w\<lparr>lp_channels := c\<rparr>) = core_inv b cur M w"
  by (simp_all add: core_inv_def)

lemma inv_settle:
  assumes inv: "inv_but b (Some fd) cur M w" and st: "fmlookup (io_fd_states w) fd = Some st"
    and "fs_reader st \<noteq> None \<or> fs_writer st \<noteq> None"
  shows "inv_but b None cur M (modify_fd fd (set_interest (wanted st)) w)"
proof -
  let ?st = "set_interest (wanted st) st"
  have same: "fs_reader ?st = fs_reader st" "fs_writer ?st = fs_writer st" "wanted ?st = wanted st"
    by (simp_all add: set_interest_def wanted_def)
  have reg: "reg_inv (Some fd) (io_fd_states w) (lp_channels w) (io_next_addr w)"
    using inv by (simp add: inv_but_def)
  have "fd_full ?st" using assms(3) same by (simp add: fd_full_def) (simp add: set_interest_def)
  moreover have "fd_ok (lp_channels w) (io_next_addr w) fd ?st"
    using reg_invD(1) [OF reg st] by (simp add: fd_ok_def set_interest_def)
  ultimately have "reg_inv None (fmupd fd ?st (io_fd_states w)) (lp_channels w) (io_next_addr w)"
    using reg_inv_upd [OF reg st, of ?st None] by (simp add: set_interest_def)
  moreover have "core_inv b cur M (w\<lparr>io_fd_states := fmupd fd ?st (io_fd_states w)\<rparr>)"
    using inv waiting_same_slots [OF st same(1,2)] by (simp add: inv_but_def core_cong)
  ultimately show ?thesis by (simp add: inv_but_def modify_fd_some [OF st])
qed

text \<open>Giving up a descriptor that has no waiter left, with its channel.\<close>

lemma inv_erase:
  assumes core: "core_inv b cur M w" and st: "fmlookup (io_fd_states w) fd = Some st"
    and empty: "fs_reader st = None" "fs_writer st = None"
    and reg: "reg_inv f S C N" "f = None \<or> f = Some fd" and N: "io_next_addr w = N"
    and S: "fmdrop fd (io_fd_states w) = fmdrop fd S" and C: "lp_channels w = fmdrop fd C"
  shows "inv_but b None cur M (erase_fd fd w)"
  using core_cong [OF core waiting_drop_empty [OF st empty]] reg_inv_drop [OF reg]
  by (simp add: inv_but_def erase_fd_def S C N)

lemma wp_refresh_erase:
  assumes inv: "inv_but b (Some fd) cur M w" and st: "fmlookup (io_fd_states w) fd = Some st"
  shows "wp (ebind (refresh_interest os fd) (\<lambda>_. erase_if_empty fd))
           (\<lambda>_. inv_but b None cur M) (\<lambda>_. inv_but b None cur M) w"
proof -
  let ?E = "\<lambda>w. if both_empty fd w then erase_fd fd w else w"
  have core: "core_inv b cur M w"
    and reg: "reg_inv (Some fd) (io_fd_states w) (lp_channels w) (io_next_addr w)"
    using inv by (simp_all add: inv_but_def)
  have ok: "fd_ok (lp_channels w) (io_next_addr w) fd st" using reg_invD(1) [OF reg st] by simp
  have "wp (refresh_interest os fd) (\<lambda>_ w'. inv_but b None cur M (?E w')) (\<lambda>_. inv_but b None cur M) w"
  proof (cases "fs_reader st = None \<and> fs_writer st = None")
    case True
    let ?w = "\<lambda>k. modify_fd fd (fs_registered_update (\<lambda>_. False)) (w\<lparr>lp_channels := fmdrop fd (lp_channels w), lp_kernel := k\<rparr>)"
    have "inv_but b None cur M (erase_fd fd (?w k))" for k
      using inv_erase [of b cur M "?w k" fd "st\<lparr>fs_registered := False\<rparr>", OF _ _ _ _ reg]
        core_cong [OF core waiting_same_slots [OF st, of "st\<lparr>fs_registered := False\<rparr>"]] True st
      by (simp add: modify_fd_some core_inv_def fmdrop_fmupd_same)
    moreover have "both_empty fd (?w k)" for k using True st by (simp add: both_empty_def modify_fd_some)
    ultimately have "wp (ebind (remove_channel os (fs_addr st) (fs_channel st))
                (\<lambda>_. emodify (modify_fd fd (fs_registered_update (\<lambda>_. False)))))
           (\<lambda>_ w'. inv_but b None cur M (?E w')) (\<lambda>_. inv_but b None cur M) w"
      unfolding wp_ebind using ok by (intro wp_remove_channel) (auto simp: fd_ok_def)
    with True ok st show ?thesis by (simp add: wp_def refresh_interest_def fd_ok_def)
  next
    case False
    let ?st = "set_interest (wanted st) st" and ?w = "modify_fd fd (set_interest (wanted st)) w"
    have settled: "inv_but b None cur M ?w" using inv_settle [OF inv st] False by auto
    have keep: "?E (?w\<lparr>lp_kernel := k\<rparr>) = ?w\<lparr>lp_kernel := k\<rparr>" for k
      using False st by (auto simp: both_empty_def modify_fd_some set_interest_def)
    have "wp (update_channel os (fs_addr ?st) (fs_channel ?st))
        (\<lambda>_ w'. inv_but b None cur M (?E w')) (\<lambda>_. inv_but b None cur M) ?w"
      using ok st settled keep
      by (intro wp_update_channel) (simp_all add: fd_ok_def set_interest_def modify_fd_some)
    moreover have "refresh_interest os fd w = update_channel os (fs_addr ?st) (fs_channel ?st) ?w"
      using False ok st by (auto simp: refresh_interest_def fd_ok_def Let_def)
    ultimately show ?thesis unfolding wp_def by simp
  qed
  then show ?thesis by (rule wp_bindI) (simp add: erase_if_empty_def)
qed

lemma wp_complete_refresh:
  assumes inv: "inv_but b None cur M w" and st: "fmlookup (io_fd_states w) fd = Some st" and dir: "direction ev"
  shows "wp (ebind (complete fd ev r) (\<lambda>_. ebind (refresh_interest os fd) (\<lambda>_. erase_if_empty fd)))
           (\<lambda>_. inv_but b None cur M) (\<lambda>_. inv_but b None cur M) w"
proof -
  have core: "core_inv b cur M w" using inv by (simp add: inv_but_def)
  have "fmlookup (io_fd_states (woken fd ev r w)) fd = Some (set_slot ev None st)"
    by (simp add: woken_fd [OF st dir])
  from wp_refresh_erase [OF inv_woken [OF inv st dir] this, of os] show ?thesis
    by (simp add: wp_def ebind_def complete_woken [OF core st dir])
qed

lemma wp_on_ready [wp_rules]:
  assumes "inv_but b None cur M w" and "direction ev"
  shows "wp (on_ready os fd ev) (\<lambda>_. inv_but b None cur M) (\<lambda>_. inv_but b None cur M) w"
proof (cases "fmlookup (io_fd_states w) fd")
  case None
  with assms show ?thesis by (simp add: wp_def on_ready_def)
next
  case (Some st)
  from wp_complete_refresh [OF assms(1) this assms(2)] Some show ?thesis
    by (simp add: wp_def on_ready_def)
qed

section \<open>Cancelling\<close>

lemma wp_cancel [wp_rules]:
  assumes inv: "inv_but b None cur M w"
  shows "wp (cancel os fd) (\<lambda>_. inv_but b None cur M) (\<lambda>_ _. False) w"
proof (cases "fmlookup (io_fd_states w) fd")
  case None
  with inv show ?thesis by (simp add: wp_def cancel_def)
next
  case (Some st)
  have core: "core_inv b cur M w" and reg: "reg_inv None (io_fd_states w) (lp_channels w) (io_next_addr w)"
    using inv by (simp_all add: inv_but_def)
  have ok: "fd_ok (lp_channels w) (io_next_addr w) fd st" using reg_invD(1) [OF reg Some] by simp
  let ?rest = "ebind (complete fd READ False) (\<lambda>_. ebind (complete fd WRITE False) (\<lambda>_. emodify (erase_fd fd)))"
  let ?st = "st\<lparr>fs_registered := False\<rparr>"
  have rest: "wp ?rest (\<lambda>_. inv_but b None cur M) (\<lambda>_ _. False)
      (modify_fd fd (fs_registered_update (\<lambda>_. False)) (w\<lparr>lp_channels := fmdrop fd (lp_channels w), lp_kernel := k\<rparr>))"
    (is "wp _ _ _ ?w") for k
  proof -
    let ?w1 = "woken fd READ False ?w"
    let ?w2 = "woken fd WRITE False ?w1"
    have st0: "fmlookup (io_fd_states ?w) fd = Some ?st" using Some by (simp add: modify_fd_some)
    have core0: "core_inv b cur M ?w"
      using core_cong [OF core waiting_same_slots [OF Some, of ?st]] Some by (simp add: modify_fd_some core_inv_def)
    have st1: "fmlookup (io_fd_states ?w1) fd = Some (set_slot READ None ?st)"
      by (simp add: woken_fd [OF st0])
    have core1: "core_inv b cur M ?w1" using core_woken [OF core0 st0] by simp
    have st2: "fmlookup (io_fd_states ?w2) fd = Some (set_slot WRITE None (set_slot READ None ?st))"
      by (simp add: woken_fd [OF st1])
    have core2: "core_inv b cur M ?w2" using core_woken [OF core1 st1] by simp
    have "fmdrop fd (io_fd_states ?w2) = fmdrop fd (io_fd_states ?w)"
      by (simp add: woken_fd [OF st1] woken_fd [OF st0] fmdrop_fmupd_same)
    then have "fmdrop fd (io_fd_states ?w2) = fmdrop fd (io_fd_states w)"
      using Some by (simp add: modify_fd_some fmdrop_fmupd_same)
    then have "inv_but b None cur M (erase_fd fd ?w2)"
      using inv_erase [OF core2 st2 _ _ reg] Some by (simp add: set_slot_def modify_fd_some)
    then show ?thesis
      by (simp add: wp_def ebind_def complete_woken [OF core0 st0] complete_woken [OF core1 st1])
  qed
  let ?first = "ebind (remove_channel os (fs_addr st) (fs_channel st))
                  (\<lambda>_. emodify (modify_fd fd (fs_registered_update (\<lambda>_. False))))"
  have "wp ?first (\<lambda>_. wp ?rest (\<lambda>_. inv_but b None cur M) (\<lambda>_ _. False)) (\<lambda>_ _. False) w"
    by (subst wp_ebind, rule wp_remove_channel) (use ok rest in \<open>auto simp: fd_ok_def\<close>)
  then have "wp (ebind ?first (\<lambda>_. ?rest)) (\<lambda>_. inv_but b None cur M) (\<lambda>_ _. False) w"
    by (subst wp_ebind)
  with Some ok show ?thesis by (simp add: wp_def cancel_def fd_ok_def)
qed

lemma wp_cancel_all [wp_rules]:
  "inv_but b None cur M w \<Longrightarrow> wp (cancel_all os fds) (\<lambda>_. inv_but b None cur M) (\<lambda>_ _. False) w"
proof (induction fds arbitrary: w)
  case (Cons fd fds)
  show ?case using wp_bindI [OF wp_cancel [OF Cons.prems] Cons.IH] by simp
qed simp

end
