(* ===== verification/Io_Ops.thy ===== *)
theory Io_Ops
  imports Io_Wait
begin

text \<open>
  The remaining operations of the executor keep its invariant: timers, polling through the event
  loop, arming a wait with its rollback, spawning, and the destruction of frames.
\<close>

section \<open>Timers\<close>

text \<open>Any event other than \<open>READ\<close> selects the writer's slot.\<close>

lemma complete_norm:
  assumes "ev \<noteq> READ"
  shows "complete fd ev r = complete fd WRITE r"
proof
  fix w
  have "set_slot ev None = set_slot WRITE None" "slot st ev = slot st WRITE" for st
    using assms by (simp_all add: set_slot_def slot_def fun_eq_iff)
  then show "complete fd ev r w = complete fd WRITE r w"
    by (simp add: complete_def split: option.split)
qed

lemma wp_expire_one [wp_rules]:
  assumes inv: "inv_but b None cur M w"
  shows "wp (expire_one os t) (\<lambda>_. inv_but b None cur M) (\<lambda>_. inv_but b None cur M) w"
proof (cases "timer_active t w")
  case True
  then obtain st where st: "fmlookup (io_fd_states w) (te_fd t) = Some st"
    by (auto simp: timer_active_def split: option.splits)
  show ?thesis
    using wp_complete_refresh [OF inv st, of READ False os] wp_complete_refresh [OF inv st, of WRITE False os]
      True by (cases "te_event t = READ") (simp_all add: wp_def expire_one_def complete_norm [of "te_event t"])
next
  case False
  with inv show ?thesis by (simp add: wp_def expire_one_def)
qed

lemma wp_clock_now [wp_rules]:
  "(\<And>t k. Q t (w\<lparr>lp_kernel := k\<rparr>)) \<Longrightarrow> wp (clock_now os) Q E w"
  by (simp add: wp_def clock_now_def split: prod.split)

lemma wp_expire_loop:
  "inv_but b None cur M w \<Longrightarrow>
     wp (expire_loop os now) (\<lambda>_. inv_but b None cur M) (\<lambda>_. inv_but b None cur M) w"
proof (induction os now w rule: expire_loop.induct)
  case (1 os now w)
  show ?case
  proof (cases "io_timers w")
    case Nil
    with "1.prems" show ?thesis by (simp add: wp_def expire_loop.simps [of os now w])
  next
    case (Cons t ts)
    have "inv_but b None cur M (w\<lparr>io_timers := ts\<rparr>)" using "1.prems" by simp
    from wp_expire_one [OF this, of os t] "1.IH" [OF Cons _ refl] "1.prems" show ?thesis
      by (auto simp: wp_def expire_loop.simps [of os now w] Cons split: prod.splits sum.splits)
  qed
qed

lemma wp_expire_timers [wp_rules]:
  "inv_but b None cur M w \<Longrightarrow>
     wp (expire_timers os) (\<lambda>_. inv_but b None cur M) (\<lambda>_. inv_but b None cur M) w"
  unfolding expire_timers_def wp_ebind by (intro wp_clock_now wp_expire_loop) simp

lemma wp_next_poll_timeout [wp_rules]:
  assumes "inv_but b None cur M w"
  shows "wp (next_poll_timeout os) (\<lambda>_. inv_but b None cur M) (\<lambda>_ _. False) w"
proof -
  have "inv_but b None cur M (drop_inactive w)" using assms by (simp add: drop_inactive_def)
  then show ?thesis
    by (auto simp: next_poll_timeout_def wp_def ebind_def clock_now_def split: list.split prod.split)
qed

section \<open>Polling\<close>

text \<open>Distinct addresses: looking up the address of an \<open>FdState\<close> finds its channel.\<close>

lemma io_chan_at_some:
  assumes "reg_inv f (io_fd_states w) C N" and "fmlookup (io_fd_states w) fd = Some st"
  shows "io_chan_at w (fs_addr st) = Some (fs_channel st)"
proof -
  let ?P = "\<lambda>fd'. map_option fs_addr (fmlookup (io_fd_states w) fd') = Some (fs_addr st)"
  let ?xs = "sorted_list_of_fset (fmdom (io_fd_states w))"
  have "fd \<in> set ?xs" using assms(2) by (simp add: fmlookup_dom_iff)
  moreover have "?P fd" using assms(2) by simp
  ultimately have "find ?P ?xs \<noteq> None" by (auto simp: find_None_iff)
  then obtain fd' where fd': "find ?P ?xs = Some fd'" by blast
  then have "?P fd'" by (auto simp: find_Some_iff)
  then have "fd' = fd" using reg_invD(3) [OF assms(1)] assms(2) by auto
  with fd' assms(2) show ?thesis by (simp add: io_chan_at_def)
qed

interpretation io_loop: loop_client "inv_but b None cur M :: ('k, 'v, 'm) io_world_scheme \<Rightarrow> bool"
    io_chan_at "\<lambda>(fd, ev). on_ready os fd ev"
  for b cur M and os :: "'k os"
proof unfold_locales
  fix w :: "('k, 'v, 'm) io_world_scheme" and fd p k
  assume inv: "inv_but b None cur M w"
  then have reg: "reg_inv None (io_fd_states w) (lp_channels w) (io_next_addr w)" by (simp add: inv_but_def)
  show "inv_but b None cur M (w\<lparr>lp_kernel := k\<rparr>)" using inv by simp
  assume p: "fmlookup (lp_channels w) fd = Some p"
  from reg_invD(2) [OF reg p] obtain st where st: "fmlookup (io_fd_states w) fd = Some st" by blast
  have ok: "fd_ok (lp_channels w) (io_next_addr w) fd st" using reg_invD(1) [OF reg st] by simp
  then have ps: "p = fs_addr st" using p by (simp add: fd_ok_def)
  have chan: "io_chan_at w p = Some (fs_channel st)" using io_chan_at_some [OF reg st] ps by simp
  then show "io_chan_at w p \<noteq> None" by simp
  fix ch cb
  assume "io_chan_at w p = Some ch" and "ch_on_read ch = Some cb \<or> ch_on_write ch = Some cb"
  with chan ok have "cb = (fd, READ) \<or> cb = (fd, WRITE)" by (auto simp: fd_ok_def)
  then show "wp (case cb of (fd, ev) \<Rightarrow> on_ready os fd ev) (\<lambda>_. inv_but b None cur M) (\<lambda>_. inv_but b None cur M) w"
    using wp_on_ready [OF inv] by auto
qed

text \<open>What the kernel promises of \<open>epoll_wait\<close>: at most as many events as asked for.\<close>

definition wait_bounded :: "'k os \<Rightarrow> bool" where
  "wait_bounded os \<longleftrightarrow>
     (\<forall>poller n t k evs k'. os_epoll_wait os poller n t k = (Inr evs, k') \<longrightarrow> length evs \<le> n)"

lemma wp_poll [wp_rules]:
  "inv_but b None cur M w \<Longrightarrow> wait_bounded os \<Longrightarrow>
     wp (poll os io_chan_at (\<lambda>(fd, ev). on_ready os fd ev) t)
       (\<lambda>_. inv_but b None cur M) (\<lambda>_. inv_but b None cur M) w"
  unfolding wait_bounded_def by (rule io_loop.poll_inv) blast+

section \<open>Arming a wait\<close>

lemma wait_inv_arm:
  assumes inv: "wait_inv h F R Q S" and fr: "fmlookup F h = Some fr" "fr_point fr = At_wait aw"
    and "h \<noteq> 0" and "aw_fd aw = fd" and "aw_event aw = ev"
    and ws: "ws_continuation ws = h" "ws_result ws = h"
    and free: "waiting S fd ev = None" and live: "\<And>x fx. fmlookup F x = Some fx \<Longrightarrow> 0 < x"
    and S': "\<And>fd' ev'. direction ev' \<Longrightarrow>
      waiting S' fd' ev' = (if fd' = fd \<and> ev' = ev then Some ws else waiting S fd' ev')"
  shows "wait_inv 0 (set_ready h False F) R Q S'"
proof -
  note D = wait_invD [OF inv]
  let ?F = "set_ready h False F"
  have F: "fmlookup ?F x = (if x = h then Some (fr\<lparr>fr_point := At_wait (aw\<lparr>aw_ready := False\<rparr>)\<rparr>) else fmlookup F x)" for x
    using fr by (simp add: set_ready_def)
  have nq: "h \<notin> set Q" using D(2) by blast
  show ?thesis
  proof (rule wait_invI)
    fix x fr' aw' fd' ev' ws'
    show "distinct Q" by (rule D(1))
    show "x \<noteq> 0 \<and> (\<exists>fr. fmlookup ?F x = Some fr \<and> queued_ok R x (fr_point fr))" if "x \<in> set Q"
      using that D(2) [of x] nq live by (fastforce simp: F)
    show "x \<in> set Q" if "fmlookup ?F x = Some fr'" "fr_point fr' = At_yield \<or> fr_point fr' = At_start \<and> x |\<in>| R"
      using that D(3) [of x fr'] by (auto simp: F split: if_splits)
    show "direction (aw_event aw') \<and> (x = 0 \<or> x \<in> set Q \<or>
        (\<exists>ws. waiting S' (aw_fd aw') (aw_event aw') = Some ws \<and> ws_continuation ws = x))"
      if "fmlookup ?F x = Some fr'" "fr_point fr' = At_wait aw'"
    proof (cases "x = h")
      case True
      with that have "aw_event aw' = ev" "aw_fd aw' = fd" using assms(5,6) by (auto simp: F)
      moreover have "direction ev" using D(4) [OF fr] assms(6) by simp
      ultimately show ?thesis using True ws(1) by (auto simp: S')
    next
      case False
      with that have "direction (aw_event aw') \<and> (x \<in> set Q \<or>
          (\<exists>ws. waiting S (aw_fd aw') (aw_event aw') = Some ws \<and> ws_continuation ws = x))"
        using D(4) [of x fr' aw'] by (auto simp: F)
      with free show ?thesis by (auto simp: S')
    qed
    show "slot_ok ?F Q fd' ev' ws' \<and> ws_continuation ws' \<noteq> 0" if "waiting S' fd' ev' = Some ws'" "direction ev'"
    proof (cases "fd' = fd \<and> ev' = ev")
      case True
      with that assms(4-6) ws nq show ?thesis by (auto simp: S' slot_ok_def F)
    next
      case False
      with that have "waiting S fd' ev' = Some ws'" by (auto simp: S')
      from D(5) [OF this that(2)] have ok: "slot_ok F Q fd' ev' ws'" "ws_continuation ws' \<noteq> h" by simp_all
      then have "ws_continuation ws' \<noteq> 0" using live by (fastforce simp: slot_ok_def)
      with ok show ?thesis by (auto simp: slot_ok_def F)
    qed
  qed
qed

lemma wait_inv_ready_flag:
  assumes inv: "wait_inv h F R Q S"
  shows "wait_inv h (set_ready h r F) R Q S"
proof (cases "\<exists>fr aw. fmlookup F h = Some fr \<and> fr_point fr = At_wait aw")
  case True
  then obtain fr aw where fr: "fmlookup F h = Some fr" "fr_point fr = At_wait aw" by blast
  note D = wait_invD [OF inv]
  have F: "fmlookup (set_ready h r F) x =
      (if x = h then Some (fr\<lparr>fr_point := At_wait (aw\<lparr>aw_ready := r\<rparr>)\<rparr>) else fmlookup F x)" for x
    using fr by (simp add: set_ready_def)
  show ?thesis
  proof (rule wait_invI)
    fix x fr' aw' fd' ev' ws'
    show "distinct Q" by (rule D(1))
    show "x \<noteq> h \<and> (\<exists>fr. fmlookup (set_ready h r F) x = Some fr \<and> queued_ok R x (fr_point fr))" if "x \<in> set Q"
      using D(2) [OF that] by (auto simp: F)
    show "x \<in> set Q" if "fmlookup (set_ready h r F) x = Some fr'"
        "fr_point fr' = At_yield \<or> fr_point fr' = At_start \<and> x |\<in>| R"
      using that D(3) [of x fr'] by (auto simp: F split: if_splits)
    show "direction (aw_event aw') \<and> (x = h \<or> x \<in> set Q \<or>
        (\<exists>ws. waiting S (aw_fd aw') (aw_event aw') = Some ws \<and> ws_continuation ws = x))"
      if "fmlookup (set_ready h r F) x = Some fr'" "fr_point fr' = At_wait aw'"
      using that D(4) [OF fr] D(4) [of x fr' aw'] by (auto simp: F split: if_splits)
    show "slot_ok (set_ready h r F) Q fd' ev' ws' \<and> ws_continuation ws' \<noteq> h"
      if "waiting S fd' ev' = Some ws'" "direction ev'"
      using D(5) [OF that] by (auto simp: slot_ok_def F)
  qed
next
  case False
  then have "set_ready h r F = F" by (auto simp: set_ready_def split: option.split suspend_point.split)
  with inv show ?thesis by simp
qed

text \<open>The two ways \<open>refresh_interest\<close> goes when there are waiters.\<close>

lemma wp_refresh_update:
  assumes "fmlookup (io_fd_states w) fd = Some st" and "fs_reader st \<noteq> None \<or> fs_writer st \<noteq> None"
    and "fd_ok (lp_channels w) N fd st"
    and "\<And>k. Q () ((modify_fd fd (set_interest (wanted st)) w)\<lparr>lp_kernel := k\<rparr>)"
    and "\<And>k e. e \<noteq> Undefined_behaviour \<Longrightarrow> E e ((modify_fd fd (set_interest (wanted st)) w)\<lparr>lp_kernel := k\<rparr>)"
  shows "wp (refresh_interest os fd) Q E w"
proof -
  let ?st = "set_interest (wanted st) st" and ?w = "modify_fd fd (set_interest (wanted st)) w"
  have "wp (update_channel os (fs_addr ?st) (fs_channel ?st)) Q E ?w"
    using assms by (intro wp_update_channel) (simp_all add: fd_ok_def set_interest_def modify_fd_some)
  moreover have "refresh_interest os fd w = update_channel os (fs_addr ?st) (fs_channel ?st) ?w"
    using assms(1-3) by (auto simp: refresh_interest_def fd_ok_def Let_def)
  ultimately show ?thesis unfolding wp_def by simp
qed

lemma wp_refresh_add:
  assumes "fmlookup (io_fd_states w) fd = Some st" and "fs_reader st \<noteq> None \<or> fs_writer st \<noteq> None"
    and "\<not> fs_registered st" and "fs_addr st \<noteq> 0" and "ch_fd (fs_channel st) = fd" and "0 \<le> fd"
    and "fmlookup (lp_channels w) fd = None"
    and "\<And>k. Q () (modify_fd fd (fs_registered_update (\<lambda>_. True) \<circ> set_interest (wanted st))
           (w\<lparr>lp_channels := fmupd fd (fs_addr st) (lp_channels w), lp_kernel := k\<rparr>))"
    and "\<And>k e. e \<noteq> Undefined_behaviour \<Longrightarrow> E e ((modify_fd fd (set_interest (wanted st)) w)\<lparr>lp_kernel := k\<rparr>)"
  shows "wp (refresh_interest os fd) Q E w"
proof -
  let ?st = "set_interest (wanted st) st" and ?w = "modify_fd fd (set_interest (wanted st)) w"
  let ?reg = "modify_fd fd (fs_registered_update (\<lambda>_. True))"
  have "?reg (?w\<lparr>lp_channels := c, lp_kernel := k\<rparr>) =
      modify_fd fd (fs_registered_update (\<lambda>_. True) \<circ> set_interest (wanted st)) (w\<lparr>lp_channels := c, lp_kernel := k\<rparr>)"
    for c k using assms(1) by (simp add: modify_fd_some)
  then have "wp (add_channel os (fs_addr ?st) (fs_channel ?st)) (\<lambda>_ w'. Q () (?reg w')) E ?w"
    using assms by (intro wp_add_channel) (simp_all add: set_interest_def modify_fd_some)
  then have "wp (ebind (add_channel os (fs_addr ?st) (fs_channel ?st)) (\<lambda>_. emodify ?reg)) Q E ?w"
    by (rule wp_bindI) simp
  moreover have "refresh_interest os fd w =
      ebind (add_channel os (fs_addr ?st) (fs_channel ?st)) (\<lambda>_. emodify ?reg) ?w"
    using assms(1-3) by (auto simp: refresh_interest_def Let_def)
  ultimately show ?thesis unfolding wp_def by simp
qed

text \<open>The state in which \<open>arm_wait\<close> enters its \<open>try\<close> block.\<close>

definition armed :: "int \<Rightarrow> event \<Rightarrow> handle \<Rightarrow> fd_state \<Rightarrow> ('k, 'v, 'm) io_world_scheme \<Rightarrow> ('k, 'v, 'm) io_world_scheme" where
  "armed fd ev h st w =
     w\<lparr>io_frames := set_ready h False (io_frames w), io_next_token := io_next_token w + 1,
       io_fd_states := fmupd fd (set_slot ev (Some \<lparr>ws_continuation = h, ws_token = io_next_token w, ws_result = h\<rparr>) st)
         (io_fd_states w)\<rparr>"

lemma arm_wait_enters:
  assumes "0 \<le> fd" and "h \<noteq> 0" and "fmlookup (io_frames w) h = Some fr" and "fr_point fr = At_wait aw"
    and "fmlookup (io_fd_states (fd_state_of fd w)) fd = Some st" and "slot st ev = None"
  shows "arm_wait os fd ev timeout h h w =
    ecatch (arm_body os fd ev timeout (io_next_token w))
      (\<lambda>e. ebind (arm_rollback os fd ev) (\<lambda>_. ethrow e)) (armed fd ev h st (fd_state_of fd w))"
proof -
  let ?w = "fd_state_of fd w"
  have same: "io_frames ?w = io_frames w" "io_next_token ?w = io_next_token w"
    by (simp_all add: fd_state_of_def split: option.split)
  have "on_heap (set_result h False) ?w = (Inr (), ?w\<lparr>io_frames := set_ready h False (io_frames w)\<rparr>)"
    using assms(3,4) by (simp add: on_heap_def set_result_def same set_ready_def)
  moreover have "is_done h w = (Inr False, w)" using assms(3,4) by (simp add: is_done_def coroutine_done_def)
  ultimately show ?thesis
    using assms by (simp add: arm_wait_def armed_def same modify_fd_some Let_def ebind_def)
qed

text \<open>
  When a wait cannot be armed, nothing is left of it: apart from the kernel, the result flag and
  the counters, the state is the one before.
\<close>

definition unarmed :: "handle \<Rightarrow> ('k, 'v, 'm) io_world_scheme \<Rightarrow> ('k, 'v, 'm) io_world_scheme \<Rightarrow> bool" where
  "unarmed h w w' \<longleftrightarrow>
     io_next_addr w \<le> io_next_addr w' \<and>
     (io_frames w' = io_frames w \<or> io_frames w' = set_ready h False (io_frames w)) \<and>
     w' = w\<lparr>lp_kernel := lp_kernel w', io_next_addr := io_next_addr w', io_next_token := io_next_token w',
            io_frames := io_frames w'\<rparr>"

text \<open>
  When it can be armed, the coroutine is the waiter of its direction, other waiters stay, and the
  timer is queued if there is a timeout.
\<close>

definition timer_for :: "int \<Rightarrow> event \<Rightarrow> int \<Rightarrow> u64 \<Rightarrow> int \<Rightarrow> timer_entry" where
  "timer_for fd ev timeout token now =
     \<lparr>te_deadline = now + timeout * ns_per_ms, te_token = token, te_fd = fd, te_event = ev\<rparr>"

definition takes_slot :: "wait_slot \<Rightarrow> int \<Rightarrow> event \<Rightarrow> (int, fd_state) fmap \<Rightarrow> (int, fd_state) fmap \<Rightarrow> bool" where
  "takes_slot ws fd ev S S' \<longleftrightarrow>
     (\<forall>fd' ev'. direction ev' \<longrightarrow>
        waiting S' fd' ev' = (if fd' = fd \<and> ev' = ev then Some ws else waiting S fd' ev'))"

definition arms :: "int \<Rightarrow> event \<Rightarrow> int \<Rightarrow> handle \<Rightarrow> ('k, 'v, 'm) io_world_scheme \<Rightarrow> ('k, 'v, 'm) io_world_scheme \<Rightarrow> bool" where
  "arms fd ev timeout h w w' \<longleftrightarrow>
     io_ready w' = io_ready w \<and> io_roots w' = io_roots w \<and> io_frames w' = set_ready h False (io_frames w) \<and>
     takes_slot \<lparr>ws_continuation = h, ws_token = io_next_token w, ws_result = h\<rparr> fd ev
       (io_fd_states w) (io_fd_states w') \<and>
     (if timeout < 0 then io_timers w' = io_timers w
      else \<exists>now. io_timers w' = timer_push (timer_for fd ev timeout (io_next_token w) now) (io_timers w))"

lemma wp_arm_body:
  assumes "\<And>w' k now. R w' \<Longrightarrow> 0 \<le> timeout \<Longrightarrow>
      Q () (w'\<lparr>lp_kernel := k, io_timers := timer_push (timer_for fd ev timeout token now) (io_timers w')\<rparr>)"
    and "\<And>w'. R w' \<Longrightarrow> timeout < 0 \<Longrightarrow> Q () w'"
    and "wp (refresh_interest os fd) (\<lambda>_. R) E w"
  shows "wp (arm_body os fd ev timeout token) Q E w"
  unfolding arm_body_def
proof (rule wp_bindI [OF assms(3)])
  fix x :: unit and w'
  assume r: "R w'"
  show "wp (if timeout \<ge> 0 then
         ebind (clock_now os) (\<lambda>now. emodify (\<lambda>w. w\<lparr>io_timers := timer_push
           \<lparr>te_deadline = now + timeout * ns_per_ms, te_token = token, te_fd = fd, te_event = ev\<rparr>
           (io_timers w)\<rparr>))
       else eret ()) Q E w'"
  proof (cases "timeout < 0")
    case True
    with r assms(2) show ?thesis by simp
  next
    case False
    have "wp (clock_now os) (\<lambda>now. wp (emodify (\<lambda>w. w\<lparr>io_timers := timer_push
           (timer_for fd ev timeout token now) (io_timers w)\<rparr>)) Q E) E w'"
      using False r by (intro wp_clock_now) (simp add: assms(1))
    with False show ?thesis by (simp add: wp_ebind timer_for_def)
  qed
qed

lemma arms_timer:
  assumes "arms fd ev (- 1) h w w'" and "0 \<le> timeout"
  shows "arms fd ev timeout h w (w'\<lparr>lp_kernel := k,
    io_timers := timer_push (timer_for fd ev timeout (io_next_token w) now) (io_timers w')\<rparr>)"
  using assms by (auto simp: arms_def)

lemma arms_no_timer: "arms fd ev (- 1) h w w' \<Longrightarrow> timeout < 0 \<Longrightarrow> arms fd ev timeout h w w'"
  by (simp add: arms_def)

lemma heap_inv_mono: "heap_inv cur M F R N \<Longrightarrow> N \<le> N' \<Longrightarrow> heap_inv cur M F R N'"
  by (auto simp: heap_inv_def frame_ok_def intro: less_le_trans)

lemma reg_inv_mono: "reg_inv b S C N \<Longrightarrow> N \<le> N' \<Longrightarrow> reg_inv b S C N'"
  by (fastforce simp: reg_inv_def fd_ok_def)

lemma core_armed:
  assumes core: "core_inv h cur M w" and fr: "fmlookup (io_frames w) h = Some fr" "fr_point fr = At_wait aw"
    and aw: "aw_fd aw = fd" "aw_event aw = ev" and free: "waiting (io_fd_states w) fd ev = None"
    and ws: "ws_continuation ws = h" "ws_result ws = h" and n: "io_next_addr w \<le> n"
    and S': "\<And>fd' ev'. direction ev' \<Longrightarrow>
      waiting S' fd' ev' = (if fd' = fd \<and> ev' = ev then Some ws else waiting (io_fd_states w) fd' ev')"
  shows "core_inv 0 cur M (w\<lparr>io_frames := set_ready h False (io_frames w), io_next_addr := n, io_fd_states := S'\<rparr>)"
proof -
  have heap: "heap_inv cur M (io_frames w) (io_roots w) (io_next_addr w)"
    and wait: "wait_inv h (io_frames w) (io_roots w) (io_ready w) (io_fd_states w)"
    using core by (simp_all add: core_inv_def)
  have live: "0 < x" if "fmlookup (io_frames w) x = Some fx" for x fx
    using heap_invD(2) [OF heap that] by (simp add: frame_ok_def)
  have "wait_inv 0 (set_ready h False (io_frames w)) (io_roots w) (io_ready w) S'"
    using live [OF fr(1)] by (intro wait_inv_arm [OF wait fr _ aw ws free live S']) simp_all
  then show ?thesis
    using core heap_inv_mono [OF heap_inv_ready_flag [OF heap] n] by (simp add: core_inv_def)
qed

lemma core_ready_flag:
  assumes "core_inv h cur M w"
  shows "core_inv h cur M (w\<lparr>io_frames := set_ready h r (io_frames w)\<rparr>)"
  using assms by (simp add: core_inv_def heap_inv_ready_flag wait_inv_ready_flag)

lemma inv_unarmed:
  assumes "inv_but h None cur M w" and "unarmed h w w'"
  shows "inv_but h None cur M w'"
proof -
  have eq: "w' = w\<lparr>lp_kernel := lp_kernel w', io_next_addr := io_next_addr w', io_next_token := io_next_token w',
      io_frames := io_frames w'\<rparr>" and n: "io_next_addr w \<le> io_next_addr w'"
    and F: "io_frames w' = io_frames w \<or> io_frames w' = set_ready h False (io_frames w)"
    using assms(2) by (simp_all add: unarmed_def)
  have "inv_but h None cur M (w\<lparr>lp_kernel := k, io_next_addr := n, io_next_token := t, io_frames := F\<rparr>)"
    if "io_next_addr w \<le> n" "F = io_frames w \<or> F = set_ready h False (io_frames w)" for k n t F
    using that assms(1) core_ready_flag [of h cur M w False]
    by (auto simp: inv_but_def core_inv_def intro: heap_inv_mono reg_inv_mono)
  from this [OF n F] eq show ?thesis by metis
qed

lemma armed_interest:
  assumes "direction ev" and "slot st ev = None" and "fd_full st"
  shows "set_interest (wanted (set_slot ev None (set_interest i (set_slot ev (Some ws) st))))
      (set_slot ev None (set_interest i (set_slot ev (Some ws) st))) = st"
proof -
  have "set_slot ev None (set_interest i (set_slot ev (Some ws) st)) = set_interest i st"
    using assms(1,2) by (auto simp: set_slot_def set_interest_def slot_def)
  then show ?thesis using assms(3) by (simp add: set_interest_def fd_full_def wanted_def)
qed

lemma fmupd_same: "fmlookup m x = Some y \<Longrightarrow> fmupd x y m = m"
  by (rule fmap_ext) auto

lemma wp_arm_rollback_shared:
  assumes "fmlookup (io_fd_states w) fd = Some st'" and "st' = set_interest i (set_slot ev (Some ws) st)"
    and "direction ev" and "slot st ev = None" and "fd_full st" and "fd_ok (lp_channels w) N fd st"
    and "\<And>k. Q () (w\<lparr>io_fd_states := fmupd fd st (io_fd_states w), lp_kernel := k\<rparr>)"
  shows "wp (arm_rollback os fd ev) Q E w"
proof -
  let ?w = "modify_fd fd (set_slot ev None) w" and ?st = "set_slot ev None st'"
  have st: "fmlookup (io_fd_states ?w) fd = Some ?st" using assms(1) by (simp add: modify_fd_some)
  have same: "fs_reader ?st = fs_reader st" "fs_writer ?st = fs_writer st"
    using assms(2-4) by (auto simp: set_slot_def set_interest_def slot_def)
  have undo: "set_interest (wanted ?st) ?st = st" using armed_interest [OF assms(3-5)] assms(2) by simp
  have full: "fs_reader ?st \<noteq> None \<or> fs_writer ?st \<noteq> None" using assms(5) same by (simp add: fd_full_def)
  have "fd_ok (lp_channels ?w) N fd ?st"
    using assms(1,2,6) by (simp add: fd_ok_def set_slot_def set_interest_def modify_fd_some)
  then have "wp (refresh_interest os fd) Q (\<lambda>_. Q ()) ?w"
    using undo assms(1,7) by (intro wp_refresh_update [OF st full]) (simp_all add: modify_fd_some)
  then have "wp (ecatch (refresh_interest os fd) (\<lambda>_. eret ())) Q E ?w"
    unfolding wp_ecatch by (rule wp_conseq) simp_all
  with st full show ?thesis by (auto simp: arm_rollback_def wp_def Let_def)
qed

lemma wp_arm_rollback_fresh:
  assumes "fmlookup (io_fd_states w) fd = Some st'" and "st' = set_interest i (set_slot ev (Some ws) st)"
    and "direction ev" and "fs_reader st = None" "fs_writer st = None" and "\<not> fs_registered st"
    and "Q () (erase_fd fd w)"
  shows "wp (arm_rollback os fd ev) Q E w"
proof -
  let ?w = "modify_fd fd (set_slot ev None) w" and ?st = "set_slot ev None st'"
  have st: "fmlookup (io_fd_states ?w) fd = Some ?st" using assms(1) by (simp add: modify_fd_some)
  moreover have "fs_reader ?st = None" "fs_writer ?st = None" "\<not> fs_registered ?st"
    using assms(2-6) by (auto simp: set_slot_def set_interest_def)
  moreover have "erase_fd fd ?w = erase_fd fd w"
    using assms(1) by (simp add: erase_fd_def modify_fd_some fmdrop_fmupd_same)
  ultimately show ?thesis using assms(7) by (simp add: arm_rollback_def wp_def Let_def)
qed

lemma wp_arm_wait_shared:
  assumes inv: "inv_but h None cur M w" and fr: "fmlookup (io_frames w) h = Some fr" "fr_point fr = At_wait aw"
    and aw: "aw_fd aw = fd" "aw_event aw = ev" and st: "fmlookup (io_fd_states w) fd = Some st"
    and free: "slot st ev = None"
  shows "wp (arm_wait os fd ev timeout h h) (\<lambda>_ w'. inv_but 0 None cur M w' \<and> arms fd ev timeout h w w') (\<lambda>_. unarmed h w) w"
proof -
  let ?Q = "\<lambda>_ w'. inv_but 0 None cur M w' \<and> arms fd ev timeout h w w'"
  have core: "core_inv h cur M w" and reg: "reg_inv None (io_fd_states w) (lp_channels w) (io_next_addr w)"
    using inv by (simp_all add: inv_but_def)
  have ok: "fd_ok (lp_channels w) (io_next_addr w) fd st" "fd_full st" using reg_invD(1) [OF reg st] by simp_all
  have dir: "direction ev" using core wait_invD(4) [OF _ fr] aw unfolding core_inv_def by blast
  have h: "h \<noteq> 0" using core heap_invD(2) [OF _ fr(1)] by (auto simp: core_inv_def frame_ok_def)
  let ?ws = "\<lparr>ws_continuation = h, ws_token = io_next_token w, ws_result = h\<rparr>"
  let ?st = "set_slot ev (Some ?ws) st" and ?w = "armed fd ev h st w"
  let ?st' = "set_interest (wanted ?st) ?st"
  let ?S = "fmupd fd ?st' (io_fd_states w)"
  have w: "fmlookup (io_fd_states ?w) fd = Some ?st" by (simp add: armed_def)
  have full: "fs_reader ?st \<noteq> None \<or> fs_writer ?st \<noteq> None" by (auto simp: set_slot_def)
  have S: "waiting ?S fd' ev' = (if fd' = fd \<and> ev' = ev then Some ?ws else waiting (io_fd_states w) fd' ev')"
    if "direction ev'" for fd' ev'
    using waiting_upd [OF that dir st, of "Some ?ws"] waiting_same_slots [OF w, of ?st'] w
    by (simp add: set_interest_def armed_def)
  have "core_inv 0 cur M (w\<lparr>io_frames := set_ready h False (io_frames w), io_next_addr := io_next_addr w, io_fd_states := ?S\<rparr>)"
    using st free by (intro core_armed [OF core fr aw _ _ _ _ S]) (simp_all add: waiting_def)
  moreover have "reg_inv None ?S (lp_channels w) (io_next_addr w)"
    using reg_inv_upd [OF reg st, of ?st' None] ok full
    by (simp add: fd_ok_def fd_full_def set_interest_def set_slot_def wanted_def)
  ultimately have fin: "inv_but 0 None cur M (modify_fd fd (set_interest (wanted ?st)) ?w)"
    by (simp add: inv_but_def core_inv_def armed_def modify_fd_some)
  have slot: "takes_slot ?ws fd ev (io_fd_states w) ?S" unfolding takes_slot_def using S by blast
  have arm: "arms fd ev (- 1) h w ((modify_fd fd (set_interest (wanted ?st)) ?w)\<lparr>lp_kernel := k\<rparr>)" for k
    using slot by (simp add: arms_def armed_def modify_fd_some)
  have undo: "wp (ebind (arm_rollback os fd ev) (\<lambda>_. ethrow e)) ?Q (\<lambda>_. unarmed h w)
      ((modify_fd fd (set_interest (wanted ?st)) ?w)\<lparr>lp_kernel := k\<rparr>)" if "e \<noteq> Undefined_behaviour" for e k
    unfolding wp_ebind wp_ethrow
    by (rule wp_arm_rollback_shared [OF _ refl dir free ok(2), where N = "io_next_addr w"])
       (use that ok st in \<open>auto simp: armed_def modify_fd_some fmupd_same unarmed_def intro: io_world.equality\<close>)
  have okw: "fd_ok (lp_channels ?w) (io_next_addr w) fd ?st" using ok by (simp add: fd_ok_def armed_def set_slot_def)
  have "wp (ecatch (arm_body os fd ev timeout (io_next_token w))
      (\<lambda>e. ebind (arm_rollback os fd ev) (\<lambda>_. ethrow e))) ?Q (\<lambda>_. unarmed h w) ?w"
    unfolding wp_ecatch
    by (rule wp_arm_body [where R = "\<lambda>w'. inv_but 0 None cur M w' \<and> arms fd ev (- 1) h w w'",
          OF _ _ wp_refresh_update [OF w full okw]])
       (use fin undo arm in \<open>simp_all add: arms_timer arms_no_timer\<close>)
  moreover have "fd_state_of fd w = w" using st by (simp add: fd_state_of_def)
  moreover have "0 \<le> fd" using ok by (simp add: fd_ok_def)
  ultimately show ?thesis
    using arm_wait_enters [OF _ h fr, of fd st ev os timeout] st free by (simp add: wp_def)
qed

lemma reg_inv_new:
  assumes "reg_inv None S C N" and "fmlookup S fd = None" and "fd_ok (fmupd fd N C) (Suc N) fd st"
    and "fs_addr st = N" and "fd_full st"
  shows "reg_inv None (fmupd fd st S) (fmupd fd N C) (Suc N)"
proof (rule reg_invI)
  note D = reg_invD [OF assms(1)]
  fix x y s t p
  show "fd_ok (fmupd fd N C) (Suc N) x s \<and> (None = Some x \<or> fd_full s)" if "fmlookup (fmupd fd st S) x = Some s"
    using that D(1) [of x s] assms(3,5) by (auto simp: fd_ok_def split: if_splits)
  show "fmlookup (fmupd fd st S) x \<noteq> None" if "fmlookup (fmupd fd N C) x = Some p"
    using that D(2) [of x p] by (auto split: if_splits)
  show "x = y" if "fmlookup (fmupd fd st S) x = Some s" "fmlookup (fmupd fd st S) y = Some t" "fs_addr s = fs_addr t"
  proof -
    have "fs_addr s' < N" if "fmlookup S z = Some s'" for z s' using D(1) [OF that] by (simp add: fd_ok_def)
    then have "fs_addr s' \<noteq> N" if "fmlookup S z = Some s'" for z s' using that by (metis less_irrefl)
    with that assms(4) have "x = fd \<longleftrightarrow> y = fd" by (simp split: if_splits)
    with that D(3) [of x s y t] show ?thesis by (cases "x = fd") simp_all
  qed
qed

lemma wp_arm_wait_fresh:
  assumes inv: "inv_but h None cur M w" and fr: "fmlookup (io_frames w) h = Some fr" "fr_point fr = At_wait aw"
    and aw: "aw_fd aw = fd" "aw_event aw = ev" and fresh: "fmlookup (io_fd_states w) fd = None" and fd: "0 \<le> fd"
  shows "wp (arm_wait os fd ev timeout h h) (\<lambda>_ w'. inv_but 0 None cur M w' \<and> arms fd ev timeout h w w') (\<lambda>_. unarmed h w) w"
proof -
  let ?Q = "\<lambda>_ w'. inv_but 0 None cur M w' \<and> arms fd ev timeout h w w'"
  have core: "core_inv h cur M w" and reg: "reg_inv None (io_fd_states w) (lp_channels w) (io_next_addr w)"
    using inv by (simp_all add: inv_but_def)
  have dir: "direction ev" using core wait_invD(4) [OF _ fr] aw unfolding core_inv_def by blast
  have heap: "heap_inv cur M (io_frames w) (io_roots w) (io_next_addr w)" using core by (simp add: core_inv_def)
  have h: "h \<noteq> 0" and N: "0 < io_next_addr w"
    using heap_invD(2) [OF heap fr(1)] heap_invD(1) [OF heap] by (auto simp: frame_ok_def)
  have chan: "fmlookup (lp_channels w) fd = None" using reg_invD(2) [OF reg] fresh by fastforce
  define st :: fd_state where "st = \<lparr>fs_addr = io_next_addr w,
      fs_channel = \<lparr>ch_fd = fd, ch_on_read = Some (fd, READ), ch_on_write = Some (fd, WRITE), ch_interest = READ\<rparr>,
      fs_reader = None, fs_writer = None, fs_registered = False\<rparr>"
  let ?w0 = "fd_state_of fd w"
  have w0: "?w0 = w\<lparr>io_fd_states := fmupd fd st (io_fd_states w), io_next_addr := io_next_addr w + 1\<rparr>"
    using fresh by (simp add: fd_state_of_def st_def)
  let ?ws = "\<lparr>ws_continuation = h, ws_token = io_next_token w, ws_result = h\<rparr>"
  let ?st = "set_slot ev (Some ?ws) st" and ?w = "armed fd ev h st ?w0"
  let ?st' = "(set_interest (wanted ?st) ?st)\<lparr>fs_registered := True\<rparr>"
  let ?S = "fmupd fd ?st' (io_fd_states w)" and ?C = "fmupd fd (io_next_addr w) (lp_channels w)"
  have w: "fmlookup (io_fd_states ?w) fd = Some ?st" by (simp add: armed_def w0)
  have full: "fs_reader ?st \<noteq> None \<or> fs_writer ?st \<noteq> None" by (auto simp: set_slot_def)
  have S: "waiting ?S fd' ev' = (if fd' = fd \<and> ev' = ev then Some ?ws else waiting (io_fd_states w) fd' ev')"
    if "direction ev'" for fd' ev'
    using that dir fresh by (auto simp: waiting_def slot_def set_slot_def set_interest_def st_def)
  have "core_inv 0 cur M (w\<lparr>io_frames := set_ready h False (io_frames w), io_next_addr := io_next_addr w + 1, io_fd_states := ?S\<rparr>)"
    using fresh by (intro core_armed [OF core fr aw _ _ _ _ S]) (simp_all add: waiting_def)
  moreover have "reg_inv None ?S ?C (Suc (io_next_addr w))"
    using full N fd
    by (intro reg_inv_new [OF reg fresh])
       (auto simp: fd_ok_def fd_full_def set_interest_def set_slot_def wanted_def st_def)
  ultimately have fin: "inv_but 0 None cur M (modify_fd fd (fs_registered_update (\<lambda>_. True) \<circ> set_interest (wanted ?st))
      (?w\<lparr>lp_channels := ?C, lp_kernel := k\<rparr>))" for k
    by (simp add: inv_but_def core_inv_def armed_def modify_fd_some w0)
  have slot: "takes_slot ?ws fd ev (io_fd_states w) ?S" unfolding takes_slot_def using S by blast
  have arm: "arms fd ev (- 1) h w (modify_fd fd (fs_registered_update (\<lambda>_. True) \<circ> set_interest (wanted ?st))
      (?w\<lparr>lp_channels := ?C, lp_kernel := k\<rparr>))" for k
    using slot by (simp add: arms_def armed_def modify_fd_some w0)
  have gone: "fmdrop fd (io_fd_states w) = io_fd_states w" using fresh by (intro fmap_ext) auto
  have undo: "wp (ebind (arm_rollback os fd ev) (\<lambda>_. ethrow e)) ?Q (\<lambda>_. unarmed h w)
      ((modify_fd fd (set_interest (wanted ?st)) ?w)\<lparr>lp_kernel := k\<rparr>)" if "e \<noteq> Undefined_behaviour" for e k
    unfolding wp_ebind wp_ethrow
    by (rule wp_arm_rollback_fresh [OF _ refl dir])
       (use that gone in \<open>auto simp: armed_def modify_fd_some w0 unarmed_def st_def erase_fd_def
          fmdrop_fmupd_same intro: io_world.equality\<close>)
  have new: "\<not> fs_registered ?st" "fs_addr ?st = io_next_addr w" "ch_fd (fs_channel ?st) = fd"
    "fs_addr ?st \<noteq> 0" using N by (simp_all add: set_slot_def st_def)
  have same: "lp_channels ?w = lp_channels w" by (simp add: armed_def w0)
  have "wp (ecatch (arm_body os fd ev timeout (io_next_token w))
      (\<lambda>e. ebind (arm_rollback os fd ev) (\<lambda>_. ethrow e))) ?Q (\<lambda>_. unarmed h w) ?w"
    unfolding wp_ecatch
    by (rule wp_arm_body [where R = "\<lambda>w'. inv_but 0 None cur M w' \<and> arms fd ev (- 1) h w w'",
          OF _ _ wp_refresh_add [OF w full new(1,4,3) fd]])
       (use fin undo arm chan in \<open>simp_all only: new(2) same inv_but_irrelevant arms_timer arms_no_timer\<close>)
  moreover have "arm_wait os fd ev timeout h h w = ecatch (arm_body os fd ev timeout (io_next_token w))
      (\<lambda>e. ebind (arm_rollback os fd ev) (\<lambda>_. ethrow e)) ?w"
    by (rule arm_wait_enters [OF fd h fr]) (simp_all add: w0 slot_def st_def)
  ultimately show ?thesis by (simp only: wp_def)
qed

lemma wp_arm_wait:
  assumes inv: "inv_but h None cur M w" and fr: "fmlookup (io_frames w) h = Some fr" "fr_point fr = At_wait aw"
    and aw: "aw_fd aw = fd" "aw_event aw = ev"
  shows "wp (arm_wait os fd ev timeout h h) (\<lambda>_ w'. inv_but 0 None cur M w' \<and> arms fd ev timeout h w w') (\<lambda>_. unarmed h w) w"
proof (cases "fd < 0")
  case True
  then show ?thesis by (simp add: arm_wait_def unarmed_def)
next
  case False
  have "heap_inv cur M (io_frames w) (io_roots w) (io_next_addr w)" using inv by (simp add: inv_but_def core_inv_def)
  from heap_invD(2) [OF this fr(1)] have h: "h \<noteq> 0" by (simp add: frame_ok_def)
  consider "fmlookup (io_fd_states w) fd = None"
    | st where "fmlookup (io_fd_states w) fd = Some st" "slot st ev = None"
    | st where "fmlookup (io_fd_states w) fd = Some st" "slot st ev \<noteq> None"
    by (cases "fmlookup (io_fd_states w) fd") auto
  then show ?thesis
  proof cases
    case 1
    with False show ?thesis by (intro wp_arm_wait_fresh [OF inv fr aw]) simp_all
  next
    case 2
    then show ?thesis by (rule wp_arm_wait_shared [OF inv fr aw])
  next
    case 3
    then show ?thesis
      using False h fr
      by (simp add: arm_wait_def wp_def ebind_def is_done_def coroutine_done_def fd_state_of_def unarmed_def)
  qed
qed

section \<open>Destroying frames\<close>

text \<open>A frame that is executing or has not started is in no slot and not queued.\<close>

lemma wait_inv_unused:
  assumes inv: "wait_inv b F R Q S" and h: "fmlookup F h = Some fr"
    and "fr_point fr = Executing \<or> fr_point fr = At_start \<and> h |\<notin>| R"
  shows "h \<notin> set Q" and "\<And>fd ev ws. waiting S fd ev = Some ws \<Longrightarrow> direction ev \<Longrightarrow> ws_continuation ws \<noteq> h"
proof -
  note D = wait_invD [OF inv]
  show "h \<notin> set Q" using D(2) [of h] h assms(3) by (auto simp: queued_ok_def)
  show "ws_continuation ws \<noteq> h" if "waiting S fd ev = Some ws" "direction ev" for fd ev ws
    using D(5) [OF that] h assms(3) by (auto simp: slot_ok_def)
qed

lemma wait_inv_drop:
  assumes inv: "wait_inv b F R Q S" and h: "fmlookup F h = Some fr"
    and pt: "fr_point fr = Executing \<or> fr_point fr = At_start \<and> h |\<notin>| R"
  shows "wait_inv b (fmdrop h F) (R |-| {|h|}) Q S"
proof -
  note D = wait_invD [OF inv] and U = wait_inv_unused [OF inv h pt]
  show ?thesis
  proof (rule wait_invI)
    fix x fr' aw fd ev ws
    show "distinct Q" by (rule D(1))
    show "x \<noteq> b \<and> (\<exists>fr. fmlookup (fmdrop h F) x = Some fr \<and> queued_ok (R |-| {|h|}) x (fr_point fr))" if "x \<in> set Q"
    proof -
      have "x \<noteq> h" using that U(1) by blast
      with D(2) [OF that] show ?thesis by (auto simp: queued_ok_def)
    qed
    show "x \<in> set Q" if "fmlookup (fmdrop h F) x = Some fr'" "fr_point fr' = At_yield \<or> fr_point fr' = At_start \<and> x |\<in>| R |-| {|h|}"
      using that D(3) [of x fr'] by (auto split: if_splits)
    show "direction (aw_event aw) \<and> (x = b \<or> x \<in> set Q \<or>
        (\<exists>ws. waiting S (aw_fd aw) (aw_event aw) = Some ws \<and> ws_continuation ws = x))"
      if "fmlookup (fmdrop h F) x = Some fr'" "fr_point fr' = At_wait aw"
      using that D(4) [of x fr' aw] by (simp split: if_splits)
    show "slot_ok (fmdrop h F) Q fd ev ws \<and> ws_continuation ws \<noteq> b" if "waiting S fd ev = Some ws" "direction ev"
      using D(5) [OF that] U(2) [OF that] by (auto simp: slot_ok_def)
  qed
qed

text \<open>The invariant of the wake sources reads of a frame only its suspension point.\<close>

lemma wait_inv_frame:
  assumes inv: "wait_inv b F R Q S" and h: "fmlookup F h = Some fr" and same: "fr_point fr' = fr_point fr"
  shows "wait_inv b (fmupd h fr' F) R Q S"
proof -
  note D = wait_invD [OF inv]
  show ?thesis
  proof (rule wait_invI)
    fix x fx aw fd ev ws
    show "distinct Q" by (rule D(1))
    show "x \<noteq> b \<and> (\<exists>fr. fmlookup (fmupd h fr' F) x = Some fr \<and> queued_ok R x (fr_point fr))" if "x \<in> set Q"
      using D(2) [OF that] h same by auto
    show "x \<in> set Q" if "fmlookup (fmupd h fr' F) x = Some fx" "fr_point fx = At_yield \<or> fr_point fx = At_start \<and> x |\<in>| R"
      using that D(3) [of x] h same by (auto split: if_splits)
    show "direction (aw_event aw) \<and> (x = b \<or> x \<in> set Q \<or>
        (\<exists>ws. waiting S (aw_fd aw) (aw_event aw) = Some ws \<and> ws_continuation ws = x))"
      if "fmlookup (fmupd h fr' F) x = Some fx" "fr_point fx = At_wait aw"
      using that D(4) [of x _ aw] h same by (auto split: if_splits)
    show "slot_ok (fmupd h fr' F) Q fd ev ws \<and> ws_continuation ws \<noteq> b" if "waiting S fd ev = Some ws" "direction ev"
      using D(5) [OF that] h same by (auto simp: slot_ok_def)
  qed
qed

lemma destroy_single:
  assumes "fmlookup (io_frames w) h = Some fr" and "owned fr = []"
  shows "destroy os [h] w = cancel_all os (fr_fds fr) (w\<lparr>io_frames := fmdrop h (io_frames w)\<rparr>)"
  using assms by (simp add: destroy_def destroy_list.simps(2))

end
