(* ===== verification/Io_Run.thy ===== *)
theory Io_Run
  imports Io_Ops "HOL-Library.Sublist"
begin

text \<open>
  The scheduler loop of \<open>IoContext\<close>: \<open>run_ready\<close> and \<open>run\<close>. The code of the coroutines is not part of
  the library, so resuming a coroutine is a parameter, with what the scheduler relies on as the
  assumption of a locale; \<open>Coroutines\<close> discharges it for all programs over the library.
\<close>

section \<open>The loop\<close>

text \<open>
  The first argument counts the coroutines that are left of the batch. Taking the front of an
  empty queue is undefined.
\<close>

fun run_batch ::
  "'k os \<Rightarrow> (handle \<Rightarrow> (('k, 'v, 'm) io_world_scheme, unit) eff) \<Rightarrow> nat \<Rightarrow>
   (('k, 'v, 'm) io_world_scheme, unit) eff" where
  "run_batch os resume 0 w = (Inr (), w)"
| "run_batch os resume (Suc n) w =
     (if io_stop_requested w then (Inr (), w)
      else case io_ready w of
        [] \<Rightarrow> (Inl Undefined_behaviour, w)
      | continuation # rest \<Rightarrow>
          ebind (if continuation = 0 then eret True else is_done continuation) (\<lambda>skip.
            ebind (if skip then eret ()
                   else ebind (resume continuation) (\<lambda>_. drain_completed os))
              (\<lambda>_. run_batch os resume n)) (w\<lparr>io_ready := rest\<rparr>))"

definition run_ready ::
  "'k os \<Rightarrow> (handle \<Rightarrow> (('k, 'v, 'm) io_world_scheme, unit) eff) \<Rightarrow> (('k, 'v, 'm) io_world_scheme, unit) eff" where
  "run_ready os resume w = run_batch os resume (length (io_ready w)) w"

definition stopping :: "('k, 'v, 'm) io_world_scheme \<Rightarrow> bool" where
  "stopping w \<longleftrightarrow> io_stop_requested w \<or> io_roots w = {||}"

definition no_wake_source :: exn where
  "no_wake_source = Logic_error ''IoContext Task has no readiness or timer wake source''"

text \<open>Waiting for events: what follows the second check for the end of the loop.\<close>

definition run_poll :: "'k os \<Rightarrow> (('k, 'v, 'm) io_world_scheme, bool) eff" where
  "run_poll os w =
     (let has_ready = (io_ready w \<noteq> []) in
      ebind (if has_ready then eret 0 else next_poll_timeout os) (\<lambda>timeout w.
        if \<not> has_ready \<and> timeout < 0 \<and> \<not> has_registered_waiter w then (Inl no_wake_source, w)
        else ebind (poll os io_chan_at (\<lambda>(fd, ev). on_ready os fd ev) timeout) (\<lambda>_.
             ebind (expire_timers os) (\<lambda>_. eret True)) w) w)"

text \<open>The body of the loop; \<open>False\<close> is \<open>break\<close>.\<close>

definition run_turn ::
  "'k os \<Rightarrow> (handle \<Rightarrow> (('k, 'v, 'm) io_world_scheme, unit) eff) \<Rightarrow> (('k, 'v, 'm) io_world_scheme, bool) eff" where
  "run_turn os resume =
     ebind (run_ready os resume) (\<lambda>_.
     ebind (expire_timers os) (\<lambda>_ w. if stopping w then (Inr False, w) else run_poll os w))"

text \<open>The loop may go on for ever: \<open>None\<close> is the run that never returns.\<close>

partial_function (option) run_loop ::
  "'k os \<Rightarrow> (handle \<Rightarrow> (('k, 'v, 'm) io_world_scheme, unit) eff) \<Rightarrow> ('k, 'v, 'm) io_world_scheme \<Rightarrow>
   (unit result \<times> ('k, 'v, 'm) io_world_scheme) option" where
  "run_loop os resume w =
     (if stopping w then Some (Inr (), w)
      else let r = run_turn os resume w in
        (case fst r of
           Inl e \<Rightarrow> Some (Inl e, snd r)
         | Inr again \<Rightarrow> if again then run_loop os resume (snd r) else Some (Inr (), snd r)))"

declare run_loop.simps [code]

definition run ::
  "'k os \<Rightarrow> (handle \<Rightarrow> (('k, 'v, 'm) io_world_scheme, unit) eff) \<Rightarrow> ('k, 'v, 'm) io_world_scheme \<Rightarrow>
   (unit result \<times> ('k, 'v, 'm) io_world_scheme) option" where
  "run os resume w =
     (if io_running w then Some (Inl (Logic_error ''IoContext::run is not reentrant''), w)
      else map_option (\<lambda>(r, w'). (r, w'\<lparr>io_running := False\<rparr>))
             (run_loop os resume (w\<lparr>io_running := True, io_stop_requested := False\<rparr>)))"

section \<open>Orders that the executor respects\<close>

text \<open>
  Many facts say that the state only moves in one direction: the queue grows, frames disappear,
  the client's part stays as it is. Such a fact is an order on states; it holds for all operations
  as soon as it holds for the elementary changes they are made of.
\<close>

definition within :: "('s \<Rightarrow> 's \<Rightarrow> bool) \<Rightarrow> ('s, 'a) eff \<Rightarrow> bool" where
  "within R m \<longleftrightarrow> (\<forall>s. R s (snd (m s)))"

named_theorems within_rules \<open>operations that respect an order\<close>

lemma withinI: "(\<And>s. R s (snd (m s))) \<Longrightarrow> within R m"
  by (simp add: within_def)

lemma within_at: "within R m \<Longrightarrow> R s (snd (m s))"
  by (simp add: within_def)

lemma withinD: "within R m \<Longrightarrow> m s = (r, s') \<Longrightarrow> R s s'"
  by (metis within_at snd_conv)

lemma within_if [within_rules]: "within R m \<Longrightarrow> within R m' \<Longrightarrow> within R (if c then m else m')"
  by simp

locale state_order =
  fixes R :: "'s \<Rightarrow> 's \<Rightarrow> bool"
  assumes refl_R: "R w w" and trans_R: "R u v \<Longrightarrow> R v w \<Longrightarrow> R u w"
begin

lemma w_eret [within_rules]: "within R (eret x)"
  by (rule withinI) (simp add: refl_R)

lemma w_ethrow [within_rules]: "within R (ethrow e)"
  by (rule withinI) (simp add: refl_R)

lemma w_emodify: "(\<And>s. R s (f s)) \<Longrightarrow> within R (emodify f)"
  by (rule withinI) simp

lemma w_ebind [within_rules]: "within R m \<Longrightarrow> (\<And>x. within R (f x)) \<Longrightarrow> within R (ebind m f)"
  by (rule withinI) (auto simp: ebind_def split: prod.split sum.split dest: withinD within_at intro: trans_R)

lemma w_ecatch [within_rules]: "within R m \<Longrightarrow> (\<And>e. within R (h e)) \<Longrightarrow> within R (ecatch m h)"
  by (rule withinI) (auto simp: ecatch_def split: prod.split sum.split dest: withinD within_at intro: trans_R)

end

locale executor_order = state_order R
  for R :: "('k, 'v, 'm) io_world_scheme \<Rightarrow> ('k, 'v, 'm) io_world_scheme \<Rightarrow> bool" +
  assumes kernel: "R w (w\<lparr>lp_kernel := k\<rparr>)"
    and channels: "R w (w\<lparr>lp_channels := c\<rparr>)"
    and fd_states: "R w (w\<lparr>io_fd_states := m\<rparr>)"
    and timers: "R w (w\<lparr>io_timers := ts\<rparr>)"
    and token: "R w (w\<lparr>io_next_token := t\<rparr>)"
    and addr: "R w (w\<lparr>io_next_addr := n\<rparr>)"
    and roots: "R w (w\<lparr>io_roots := rs\<rparr>)"
    and head: "R w (w\<lparr>io_completed_head := h\<rparr>)"
    and queued: "R w (w\<lparr>io_ready := io_ready w @ [h]\<rparr>)"
    and result: "set_result h b (io_frames w) = Inr H \<Longrightarrow> R w (w\<lparr>io_frames := H\<rparr>)"
    and promise: "set_frame h f (io_frames w) = Inr H \<Longrightarrow> (\<And>fr. fr_point (f fr) = fr_point fr) \<Longrightarrow>
          R w (w\<lparr>io_frames := H\<rparr>)"
    and dropped: "R w (w\<lparr>io_frames := fmdrop h (io_frames w)\<rparr>)"
begin

lemma w_epoll_ctl [within_rules]: "within R (epoll_ctl os op fd events)"
  by (rule withinI) (simp add: epoll_ctl_def kernel split: prod.split)

lemma w_add_channel [within_rules]: "within R (add_channel os p ch)"
proof -
  have "within R (ecatch (ctl_add os ch)
      (\<lambda>e. ebind (emodify (\<lambda>w. w\<lparr>lp_channels := fmdrop (ch_fd ch) (lp_channels w)\<rparr>)) (\<lambda>_. ethrow e)))"
    unfolding ctl_add_def
    by (intro within_rules w_emodify channels) (auto intro: within_rules split: option.split)
  note add = trans_R [OF channels within_at [OF this]]
  show ?thesis by (rule withinI) (simp add: add_channel_def refl_R add)
qed

lemma w_update_channel [within_rules]: "within R (update_channel os p ch)"
proof -
  have "within R (ctl_mod os ch)"
    unfolding ctl_mod_def by (intro within_rules) (auto intro: within_rules split: option.split)
  from within_at [OF this] show ?thesis by (intro withinI) (simp add: update_channel_def refl_R)
qed

lemma w_remove_channel [within_rules]: "within R (remove_channel os p ch)"
proof -
  have "within R (ctl_del os fd)" for fd unfolding ctl_del_def by (intro within_rules)
  note del = trans_R [OF channels within_at [OF this]]
  show ?thesis by (rule withinI) (simp add: remove_channel_def refl_R del)
qed

lemma modify_fd_order: "R w (modify_fd fd f w)"
  by (simp add: modify_fd_def refl_R fd_states split: option.split)

lemma w_modify_fd [within_rules]: "within R (emodify (modify_fd fd f))"
  by (rule w_emodify) (rule modify_fd_order)

lemma w_erase_fd [within_rules]: "within R (emodify (erase_fd fd))"
  by (rule w_emodify) (simp add: erase_fd_def fd_states)

end
context executor_order
begin

lemma w_refresh_interest [within_rules]: "within R (refresh_interest os fd)"
proof -
  have "within R (ebind (remove_channel os p ch) (\<lambda>_. emodify (modify_fd fd f)))"
      and "within R (ebind (add_channel os p ch) (\<lambda>_. emodify (modify_fd fd f)))"
      for p f and ch :: "(int \<times> event) channel"
    by (intro within_rules)+
  note body = within_at [OF this(1)] trans_R [OF modify_fd_order within_at [OF this(2)]]
    trans_R [OF modify_fd_order within_at [OF w_update_channel]]
  show ?thesis
  proof (rule withinI)
    fix w
    show "R w (snd (refresh_interest os fd w))"
      unfolding refresh_interest_def Let_def
      by (cases "fmlookup (io_fd_states w) fd") (simp_all add: refl_R body del: ebind_ret)
  qed
qed

lemma w_is_done [within_rules]: "within R (is_done h)"
  by (rule withinI) (simp add: is_done_def refl_R)

lemma w_schedule [within_rules]: "within R (schedule h)"
  unfolding schedule_def by (intro within_rules w_emodify queued)

lemma w_set_result [within_rules]: "within R (on_heap (set_result h b))"
  by (rule withinI) (simp add: on_heap_def refl_R result split: sum.split)

lemma w_promise: "(\<And>fr. fr_point (f fr) = fr_point fr) \<Longrightarrow> within R (on_heap (set_frame h f))"
  by (rule withinI) (simp add: on_heap_def refl_R promise split: sum.split)

lemma w_complete [within_rules]: "within R (complete fd ev r)"
proof -
  have "within R (ebind (on_heap (set_result a r)) (\<lambda>_. schedule c))" for a c by (intro within_rules)
  note body = trans_R [OF modify_fd_order within_at [OF this]]
  show ?thesis by (rule withinI) (simp add: complete_def refl_R body del: ebind_ret split: option.split)
qed

lemma w_erase_if_empty [within_rules]: "within R (erase_if_empty fd)"
  unfolding erase_if_empty_def by (rule w_emodify) (simp add: erase_fd_def refl_R fd_states)

lemma w_on_ready [within_rules]: "within R (on_ready os fd ev)"
proof -
  have "within R (ebind (complete fd ev True) (\<lambda>_. ebind (refresh_interest os fd) (\<lambda>_. erase_if_empty fd)))"
    by (intro within_rules)
  from within_at [OF this] show ?thesis
    by (intro withinI) (simp add: on_ready_def refl_R del: ebind_ret split: option.split)
qed

lemma w_cancel [within_rules]: "within R (cancel os fd)"
proof -
  have "within R (ebind (if b then ebind (remove_channel os p ch)
                        (\<lambda>_. emodify (modify_fd fd (fs_registered_update (\<lambda>_. False))))
                 else eret ()) (\<lambda>_.
          ebind (complete fd READ False) (\<lambda>_.
          ebind (complete fd WRITE False) (\<lambda>_. emodify (erase_fd fd)))))" for b p and ch :: "(int \<times> event) channel"
    by (intro within_rules)
  note body = within_at [OF this]
  show ?thesis
  proof (rule withinI)
    fix w
    show "R w (snd (cancel os fd w))"
      unfolding cancel_def by (cases "fmlookup (io_fd_states w) fd") (simp_all add: refl_R body del: if_split ebind_ret)
  qed
qed

lemma w_cancel_all [within_rules]: "within R (cancel_all os fds)"
proof (induction fds)
  case Nil
  show ?case unfolding cancel_all.simps by (rule w_eret)
next
  case (Cons fd fds)
  then show ?case unfolding cancel_all.simps by (intro within_rules)
qed

lemma destroy_list_order: "destroy_list hs (io_frames w) = Inr (H, fds) \<Longrightarrow> R w (w\<lparr>io_frames := H\<rparr>)"
proof (induction hs "io_frames w" arbitrary: w H fds rule: destroy_list.induct)
  case 1
  then show ?case using refl_R [of w] by auto
next
  case (2 h hs)
  then obtain fr where fr: "fmlookup (io_frames w) h = Some fr"
    by (auto simp: destroy_list.simps(2) split: option.splits)
  let ?w = "w\<lparr>io_frames := fmdrop h (io_frames w)\<rparr>"
  from 2 fr obtain fds' where "destroy_list (owned fr @ hs) (io_frames ?w) = Inr (H, fds')"
    by (auto simp: destroy_list.simps(2) result_simps)
  with "2.hyps" [OF fr, of ?w H fds'] have "R ?w (w\<lparr>io_frames := H\<rparr>)" by simp
  with dropped show ?case by (rule trans_R)
qed

lemma w_destroy [within_rules]: "within R (destroy os hs)"
proof (rule withinI)
  fix w
  show "R w (snd (destroy os hs w))"
    using trans_R [OF destroy_list_order within_at [OF w_cancel_all]]
    by (auto simp: destroy_def refl_R split: sum.split)
qed

lemma w_drain_loop: "R w (snd (drain_loop os e w))"
proof (induction os e w rule: drain_loop.induct)
  case (1 os e w)
  show ?case
  proof (cases "io_completed_head w = 0 \<or> fmlookup (io_frames w) (io_completed_head w) = None")
    case True
    then show ?thesis by (auto simp: drain_loop.simps [of os e w] Let_def refl_R split: option.split)
  next
    case False
    then obtain fr where fr: "io_completed_head w \<noteq> 0" "fmlookup (io_frames w) (io_completed_head w) = Some fr" by auto
    let ?w = "w\<lparr>io_completed_head := fr_completed_next fr, io_roots := io_roots w |-| {|io_completed_head w|}\<rparr>"
    obtain r w' where d: "destroy os [io_completed_head w] ?w = (r, w')" by force
    have "R w w'" by (rule trans_R [OF trans_R [OF head roots] withinD [OF w_destroy d]])
    then show ?thesis
      using fr d "1.IH" [OF fr(1) refl fr(2) refl refl]
      by (cases r) (auto simp: drain_loop.simps [of os e w] Let_def intro: trans_R)
  qed
qed

lemma w_drain_completed [within_rules]: "within R (drain_completed os)"
  by (rule withinI) (simp add: drain_completed_def w_drain_loop)

lemma w_clock_now [within_rules]: "within R (clock_now os)"
  by (rule withinI) (simp add: clock_now_def kernel split: prod.split)

lemma w_arm_body [within_rules]: "within R (arm_body os fd ev timeout token)"
  unfolding arm_body_def by (intro within_rules w_emodify timers)

lemma w_arm_rollback [within_rules]: "within R (arm_rollback os fd ev)"
proof -
  have "within R (ebind (if b then remove_channel os p ch else eret ()) (\<lambda>_. emodify (erase_fd fd)))"
      for b p and ch :: "(int \<times> event) channel"
    by (intro within_rules)
  note erase = trans_R [OF modify_fd_order within_at [OF this]]
  have "within R (ecatch (refresh_interest os fd) (\<lambda>_. eret ()))" by (intro within_rules)
  note retry = trans_R [OF modify_fd_order within_at [OF this]]
  show ?thesis
  proof (rule withinI)
    fix w
    show "R w (snd (arm_rollback os fd ev w))"
      unfolding arm_rollback_def Let_def
      by (simp add: retry erase modify_fd_order del: if_split split: option.split)
  qed
qed

lemma fd_state_of_order: "R w (fd_state_of fd w)"
  using trans_R [OF fd_states addr] by (simp add: fd_state_of_def refl_R split: option.split)

lemma w_arm_wait [within_rules]: "within R (arm_wait os fd ev timeout c r)"
proof -
  have "within R (ebind (on_heap (set_result r False)) (\<lambda>_.
                ebind (emodify (\<lambda>w. modify_fd fd (set_slot ev (Some
                    \<lparr>ws_continuation = c, ws_token = token, ws_result = r\<rparr>))
                    (w\<lparr>io_next_token := token + 1\<rparr>))) (\<lambda>_.
                ecatch (arm_body os fd ev timeout token)
                  (\<lambda>e. ebind (arm_rollback os fd ev) (\<lambda>_. ethrow e)))))" for token
    by (intro within_rules w_emodify trans_R [OF token modify_fd_order])
  note body = within_at [OF this]
  show ?thesis
    unfolding arm_wait_def
    by (intro within_rules w_emodify fd_state_of_order)
       (auto simp: Let_def body refl_R simp del: ebind_ret intro!: withinI split: option.split)
qed

lemma w_spawn [within_rules]: "within R (spawn os h)"
proof -
  have completion: "within R (set_completion b h)" for b
    unfolding set_completion_def by (rule w_promise) simp
  have "within R (ebind (emodify (\<lambda>w. w\<lparr>io_roots := io_roots w |-| {|h|}\<rparr>)) (\<lambda>_.
            ebind (set_completion False h) (\<lambda>_.
            ebind (destroy os [h]) (\<lambda>_. ethrow (Logic_error ''IoContext already owns this Task''))))
          :: (_, unit) eff)"
    by (intro within_rules w_emodify roots completion)
  note undo = within_at [OF this]
  have "within R (\<lambda>w. if h |\<in>| io_roots w then
            ebind (emodify (\<lambda>w. w\<lparr>io_roots := io_roots w |-| {|h|}\<rparr>)) (\<lambda>_.
            ebind (set_completion False h) (\<lambda>_.
            ebind (destroy os [h]) (\<lambda>_. ethrow (Logic_error ''IoContext already owns this Task'')))) w
          else (Inr (), w\<lparr>io_roots := finsert h (io_roots w), io_ready := io_ready w @ [h]\<rparr>))"
  proof (rule withinI)
    fix w
    have "R w (w\<lparr>io_roots := finsert h (io_roots w), io_ready := io_ready w @ [h]\<rparr>)"
      using trans_R [OF roots queued, of w "finsert h (io_roots w)" h] by simp
    with undo [of w] show "R w (snd (if h |\<in>| io_roots w then
            ebind (emodify (\<lambda>w. w\<lparr>io_roots := io_roots w |-| {|h|}\<rparr>)) (\<lambda>_.
            ebind (set_completion False h) (\<lambda>_.
            ebind (destroy os [h]) (\<lambda>_. ethrow (Logic_error ''IoContext already owns this Task'')))) w
          else (Inr (), w\<lparr>io_roots := finsert h (io_roots w), io_ready := io_ready w @ [h]\<rparr>)))"
      by (simp del: ebind_ret)
  qed
  then show ?thesis unfolding spawn_def by (intro within_rules completion)
qed

lemma w_root_completed [within_rules]: "within R (root_completed h)"
proof -
  have "within R (ebind (on_heap (set_frame h (fr_completed_next_update (\<lambda>_. n))))
      (\<lambda>_. emodify (\<lambda>w. w\<lparr>io_completed_head := h\<rparr>)))" for n
    by (intro within_rules w_promise w_emodify head) simp
  from within_at [OF this] show ?thesis by (intro withinI) (simp add: root_completed_def del: ebind_ret)
qed

lemma w_expire_one [within_rules]: "within R (expire_one os t)"
proof -
  have "within R (ebind (complete (te_fd t) (te_event t) False) (\<lambda>_.
      ebind (refresh_interest os (te_fd t)) (\<lambda>_. erase_if_empty (te_fd t))))"
    by (intro within_rules)
  from within_at [OF this] show ?thesis by (intro withinI) (simp add: expire_one_def refl_R del: ebind_ret)
qed

lemma w_expire_loop: "R w (snd (expire_loop os now w))"
proof (induction os now w rule: expire_loop.induct)
  case (1 os now w)
  show ?case
  proof (cases "io_timers w")
    case Nil
    then show ?thesis by (simp add: expire_loop.simps [of os now w] refl_R)
  next
    case (Cons t ts)
    obtain r w' where e: "expire_one os t (w\<lparr>io_timers := ts\<rparr>) = (r, w')" by force
    have "R w w'" by (rule trans_R [OF timers withinD [OF w_expire_one e]])
    then show ?thesis
      using e "1.IH" [OF Cons _ refl]
      by (cases r) (auto simp: expire_loop.simps [of os now w] Cons Let_def refl_R intro: trans_R)
  qed
qed

lemma w_expire_timers [within_rules]: "within R (expire_timers os)"
  unfolding expire_timers_def by (intro within_rules withinI w_expire_loop)

lemma w_dispatch_event [within_rules]:
  assumes "\<And>cb. within R (invoke cb)"
  shows "within R (dispatch_event chan_at invoke events fd)"
proof -
  have call: "within R (call_if c cb invoke)" for c cb
    unfolding call_if_def using assms by (auto intro: within_rules split: option.split)
  have second: "within R (\<lambda>w1. if fmlookup (lp_channels w1) fd \<noteq> Some p then (Inr (), w1)
      else (case chan_at w1 p of
              None \<Rightarrow> (Inl Undefined_behaviour, w1)
            | Some ch1 \<Rightarrow> call_if c (ch_on_write ch1) invoke w1))" for p c
    by (rule withinI) (simp add: within_at [OF call] refl_R split: option.split)
  have both: "within R (ebind (call_if c cb invoke) (\<lambda>_ w1. if fmlookup (lp_channels w1) fd \<noteq> Some p then (Inr (), w1)
      else (case chan_at w1 p of
              None \<Rightarrow> (Inl Undefined_behaviour, w1)
            | Some ch1 \<Rightarrow> call_if c' (ch_on_write ch1) invoke w1)))" for c cb c' p
    by (intro within_rules call second)
  show ?thesis
  proof (rule withinI)
    fix w
    show "R w (snd (dispatch_event chan_at invoke events fd w))"
      unfolding dispatch_event_def Let_def
      by (cases "fmlookup (lp_channels w) fd"; simp only: option.case snd_conv refl_R;
          cases "chan_at w (the (fmlookup (lp_channels w) fd))")
         (simp_all only: option.sel option.case snd_conv refl_R within_at [OF both])
  qed
qed

lemma w_dispatch_all [within_rules]:
  assumes "\<And>cb. within R (invoke cb)"
  shows "within R (dispatch_all chan_at invoke evs)"
proof (induction evs)
  case Nil
  show ?case unfolding dispatch_all.simps by (rule w_eret)
next
  case (Cons e evs)
  then show ?case by (cases e) (simp only: dispatch_all.simps w_ebind w_dispatch_event [OF assms])
qed

lemma w_poll [within_rules]: "within R (poll os io_chan_at (\<lambda>(fd, ev). on_ready os fd ev) t)"
proof -
  have invoke: "within R (case cb of (fd, ev) \<Rightarrow> on_ready os fd ev)" for cb
    using w_on_ready by (cases cb) simp
  have "within R (ebind (dispatch_all io_chan_at (\<lambda>(fd, ev). on_ready os fd ev) evs) (\<lambda>_. eret n))" for evs and n :: nat
    by (intro w_ebind w_eret w_dispatch_all invoke)
  note all = trans_R [OF kernel within_at [OF this]]
  have "within R (dispatch_events os io_chan_at (\<lambda>(fd, ev). on_ready os fd ev) t)"
    by (rule withinI) (simp add: dispatch_events_def kernel all del: ebind_ret split: prod.split sum.split)
  then show ?thesis unfolding poll_def by (intro w_ebind w_eret)
qed

lemma w_run_poll [within_rules]: "within R (run_poll os)"
proof -
  have "within R (ebind (poll os io_chan_at (\<lambda>(fd, ev). on_ready os fd ev) t) (\<lambda>_.
      ebind (expire_timers os) (\<lambda>_. eret True)))" for t
    by (intro within_rules)
  note poll = within_at [OF this]
  have rest: "within R (\<lambda>w. if b \<and> t < 0 \<and> \<not> has_registered_waiter w then (Inl no_wake_source, w)
        else ebind (poll os io_chan_at (\<lambda>(fd, ev). on_ready os fd ev) t) (\<lambda>_.
             ebind (expire_timers os) (\<lambda>_. eret True)) w)" for b t
    by (rule withinI) (simp add: poll refl_R del: ebind_ret)
  have "within R (ebind (clock_now os) (\<lambda>now. eret (poll_timeout d now)))" for d by (intro within_rules)
  note now = within_at [OF this]
  have timeout: "within R (next_poll_timeout os)"
    unfolding next_poll_timeout_def drop_inactive_def
    by (intro within_rules w_emodify timers, rule withinI) (simp add: now refl_R del: ebind_ret split: list.split)
  have "within R (ebind (if c then eret 0 else next_poll_timeout os) (\<lambda>t w.
        if b \<and> t < 0 \<and> \<not> has_registered_waiter w then (Inl no_wake_source, w)
        else ebind (poll os io_chan_at (\<lambda>(fd, ev). on_ready os fd ev) t) (\<lambda>_.
             ebind (expire_timers os) (\<lambda>_. eret True)) w))" for b c
    by (intro within_rules timeout rest)
  from within_at [OF this] show ?thesis unfolding run_poll_def Let_def by (rule withinI)
qed

end

text \<open>The ready queue only grows.\<close>

interpretation queue: executor_order "\<lambda>w w' :: ('k, 'v, 'm) io_world_scheme. prefix (io_ready w) (io_ready w')"
  by unfold_locales (auto intro: prefix_order.trans)

section \<open>After a coroutine has run\<close>

text \<open>
  A coroutine that returns to the scheduler has suspended, or it was the last step of a root task,
  whose frame then waits in the list of completed roots.
\<close>

definition without_root :: "handle \<Rightarrow> ('k, 'v, 'm) io_world_scheme \<Rightarrow> ('k, 'v, 'm) io_world_scheme" where
  "without_root h w = w\<lparr>io_completed_head := 0, io_roots := io_roots w |-| {|h|}, io_frames := fmdrop h (io_frames w)\<rparr>"

definition ended :: "handle \<Rightarrow> handle list \<Rightarrow> ('k, 'v, 'm) io_world_scheme \<Rightarrow> bool" where
  "ended h M w \<longleftrightarrow>
     h \<noteq> 0 \<and> io_completed_head w = h \<and>
     (\<exists>fr. fmlookup (io_frames w) h = Some fr \<and> fr_point fr = At_final \<and> fr_tasks fr = [] \<and>
        fr_completed_next fr = 0 \<and> fr_exception fr \<noteq> Some Undefined_behaviour) \<and>
     io_inv 0 M (without_root h w)"

definition settled :: "handle list \<Rightarrow> ('k, 'v, 'm) io_world_scheme \<Rightarrow> bool" where
  "settled M w \<longleftrightarrow> io_inv 0 M w \<or> (\<exists>h. ended h M w)"

lemma drain_none: "io_completed_head w = 0 \<Longrightarrow> drain_loop os None w = (Inr (), w)"
  by (simp add: drain_loop.simps)

lemma wp_drain_completed:
  assumes "settled M w"
  shows "wp (drain_completed os) (\<lambda>_. io_inv 0 M) (\<lambda>_. io_inv 0 M) w"
  using assms unfolding settled_def
proof
  assume inv: "io_inv 0 M w"
  then have "io_completed_head w = 0" by (simp add: inv_but_def core_inv_def)
  with inv show ?thesis by (simp add: wp_def drain_completed_def drain_none)
next
  assume "\<exists>h. ended h M w"
  then obtain h fr where h: "h \<noteq> 0" "io_completed_head w = h" and fr: "fmlookup (io_frames w) h = Some fr"
      "fr_point fr = At_final" "fr_tasks fr = []" "fr_completed_next fr = 0" "fr_exception fr \<noteq> Some Undefined_behaviour"
    and inv: "io_inv 0 M (without_root h w)"
    by (auto simp: ended_def)
  let ?w = "w\<lparr>io_completed_head := 0, io_roots := io_roots w |-| {|h|}\<rparr>"
  have d: "destroy os [h] ?w = cancel_all os (fr_fds fr) (without_root h w)"
    using destroy_single [of ?w h fr os] fr by (simp add: owned_def without_root_def)
  obtain w' where w': "cancel_all os (fr_fds fr) (without_root h w) = (Inr (), w')" "io_inv 0 M w'"
    using wp_cancel_all [OF inv, of os "fr_fds fr"] by (auto simp: wp_def split: prod.splits sum.splits)
  then have "io_completed_head w' = 0" by (simp add: inv_but_def core_inv_def)
  then show ?thesis
    using h fr w' d
    by (auto simp: wp_def drain_completed_def drain_loop.simps [of os None w]
        drain_loop.simps [of os "fr_exception fr" w'] split: option.split)
qed

section \<open>What the scheduler relies on\<close>

text \<open>
  The contract of the coroutines: resumed from the front of the queue, a coroutine runs without
  throwing into the scheduler until it suspends or its root ends, keeps the invariant and takes
  nothing from the queue. \<open>M\<close> are the tasks held outside of coroutines.
\<close>

locale coroutine_code =
  fixes os :: "'k os" and M :: "handle list"
    and resume :: "handle \<Rightarrow> (('k, 'v, 'm) io_world_scheme, unit) eff"
  assumes resume_settles: "io_inv 0 M (w\<lparr>io_ready := h # io_ready w\<rparr>) \<Longrightarrow>
      wp (resume h) (\<lambda>_ w'. settled M w' \<and> prefix (io_ready w) (io_ready w')) (\<lambda>_ _. False) w"
begin

lemma front_resumable:
  assumes "io_inv 0 M w" and "io_ready w = h # rest"
  shows "h \<noteq> 0" and "is_done h (w\<lparr>io_ready := rest\<rparr>) = (Inr False, w\<lparr>io_ready := rest\<rparr>)"
proof -
  have heap: "heap_inv 0 M (io_frames w) (io_roots w) (io_next_addr w)"
    and wait: "wait_inv 0 (io_frames w) (io_roots w) (io_ready w) (io_fd_states w)"
    using assms(1) by (simp_all add: inv_but_def core_inv_def)
  obtain fr where fr: "fmlookup (io_frames w) h = Some fr" using wait_invD(2) [OF wait, of h] assms(2) by auto
  from heap_invD(2) [OF heap fr] show "h \<noteq> 0" by (simp add: frame_ok_def)
  from heap_invD(2) [OF heap fr] fr show "is_done h (w\<lparr>io_ready := rest\<rparr>) = (Inr False, w\<lparr>io_ready := rest\<rparr>)"
    by (simp add: is_done_def coroutine_done_def frame_ok_def)
qed

lemma resume_and_drain:
  assumes "io_inv 0 M w" and "io_ready w = h # rest"
  shows "wp (ebind (resume h) (\<lambda>_. drain_completed os))
    (\<lambda>_ w'. io_inv 0 M w' \<and> prefix rest (io_ready w')) (\<lambda>_. io_inv 0 M) (w\<lparr>io_ready := rest\<rparr>)"
proof (rule wp_bindI)
  have "w\<lparr>io_ready := h # rest\<rparr> = w" using assms(2) by simp
  with assms(1) show "wp (resume h) (\<lambda>_ w'. settled M w' \<and> prefix rest (io_ready w')) (\<lambda>_. io_inv 0 M) (w\<lparr>io_ready := rest\<rparr>)"
    using resume_settles [of h "w\<lparr>io_ready := rest\<rparr>"] by (simp add: wp_def split: prod.splits sum.splits)
next
  fix x and w' :: "('k, 'v, 'm) io_world_scheme"
  assume w': "settled M w' \<and> prefix rest (io_ready w')"
  obtain r w'' where d: "drain_completed os w' = (r, w'')" by force
  have "prefix rest (io_ready w'')" using w' withinD [OF queue.w_drain_completed d] by (auto intro: prefix_order.trans)
  with w' wp_drain_completed [of M w' os] d
  show "wp (drain_completed os) (\<lambda>_ w'. io_inv 0 M w' \<and> prefix rest (io_ready w')) (\<lambda>_. io_inv 0 M) w'"
    by (simp add: wp_def split: sum.splits)
qed

lemma run_batch_inv:
  "io_inv 0 M w \<Longrightarrow> n \<le> length (io_ready w) \<Longrightarrow>
     wp (run_batch os resume n) (\<lambda>_. io_inv 0 M) (\<lambda>_. io_inv 0 M) w"
proof (induction n arbitrary: w)
  case 0
  then show ?case by (simp add: wp_def)
next
  case (Suc n)
  then obtain h rest where q: "io_ready w = h # rest" by (cases "io_ready w") auto
  note front = front_resumable [OF Suc.prems(1) q]
  show ?case
  proof (cases "io_stop_requested w")
    case True
    with Suc.prems show ?thesis by (simp add: wp_def)
  next
    case False
    have "wp (ebind (ebind (resume h) (\<lambda>_. drain_completed os)) (\<lambda>_. run_batch os resume n))
        (\<lambda>_. io_inv 0 M) (\<lambda>_. io_inv 0 M) (w\<lparr>io_ready := rest\<rparr>)"
    proof (rule wp_bindI [OF resume_and_drain [OF Suc.prems(1) q]])
      fix x and w' :: "('k, 'v, 'm) io_world_scheme"
      assume "io_inv 0 M w' \<and> prefix rest (io_ready w')"
      moreover from this have "n \<le> length (io_ready w')" using Suc.prems(2) q prefix_length_le by fastforce
      ultimately show "wp (run_batch os resume n) (\<lambda>_. io_inv 0 M) (\<lambda>_. io_inv 0 M) w'" using Suc.IH by simp
    qed
    with False q front show ?thesis by (simp add: wp_def)
  qed
qed

lemma run_ready_inv: "io_inv 0 M w \<Longrightarrow> wp (run_ready os resume) (\<lambda>_. io_inv 0 M) (\<lambda>_. io_inv 0 M) w"
  using run_batch_inv [of w "length (io_ready w)"] by (simp add: wp_def run_ready_def)

end

lemma wp_poll_turn:
  assumes "io_inv 0 M w" and "wait_bounded os"
  shows "wp (ebind (poll os io_chan_at (\<lambda>(fd, ev). on_ready os fd ev) t) (\<lambda>_. ebind (expire_timers os) (\<lambda>_. eret True)))
      (\<lambda>_. io_inv 0 M) (\<lambda>_. io_inv 0 M) w"
proof (rule wp_bindI [OF wp_poll [OF assms]])
  fix x and w' :: "('a, 'b, 'c) io_world_scheme"
  assume "io_inv 0 M w'"
  from wp_expire_timers [OF this] show "wp (ebind (expire_timers os) (\<lambda>_. eret True)) (\<lambda>_. io_inv 0 M) (\<lambda>_. io_inv 0 M) w'"
    by (rule wp_bindI) simp
qed

lemma wp_run_poll:
  assumes inv: "io_inv 0 M w" and os: "wait_bounded os"
  shows "wp (run_poll os) (\<lambda>_. io_inv 0 M) (\<lambda>_. io_inv 0 M) w"
proof -
  let ?rest = "\<lambda>b timeout w. if b \<and> timeout < 0 \<and> \<not> has_registered_waiter w then (Inl no_wake_source, w)
        else ebind (poll os io_chan_at (\<lambda>(fd, ev). on_ready os fd ev) timeout) (\<lambda>_.
             ebind (expire_timers os) (\<lambda>_. eret True)) w"
  have rest: "wp (?rest b t) (\<lambda>_. io_inv 0 M) (\<lambda>_. io_inv 0 M) w'" if "io_inv 0 M w'"
      for b t and w' :: "('a, 'b, 'c) io_world_scheme"
    using wp_poll_turn [OF that os, of t] that
    by (cases "b \<and> t < 0 \<and> \<not> has_registered_waiter w'") (simp_all only: wp_def if_True if_False, simp_all add: no_wake_source_def)
  have "wp (next_poll_timeout os) (\<lambda>_. io_inv 0 M) (\<lambda>_. io_inv 0 M) w"
    by (rule wp_conseq [OF wp_next_poll_timeout [OF inv]]) simp_all
  from wp_bindI [OF this rest [of _ True]] rest [OF inv, of False 0] show ?thesis
    by (cases "io_ready w = []") (simp_all only: wp_def run_poll_def Let_def, simp_all)
qed

lemma run_poll_again: "run_poll os w = (Inr again, w') \<Longrightarrow> again"
  by (auto simp: run_poll_def Let_def ebind_eq_Inr split: if_splits)

text \<open>An invariant of the turns of the loop holds when the loop returns.\<close>

lemma run_loop_inv:
  assumes "run_loop os resume w = Some (r, w')" and "I w"
    and turn: "\<And>w. I w \<Longrightarrow> \<not> stopping w \<Longrightarrow> wp (run_turn os resume) (\<lambda>again w'. I w' \<and> (\<not> again \<longrightarrow> stopping w')) (\<lambda>_. I) w"
  shows "I w' \<and> r \<noteq> Inl Undefined_behaviour \<and> (r = Inr () \<longrightarrow> stopping w')"
proof -
  let ?P = "\<lambda>os' resume' w y. os' = os \<and> resume' = resume \<and> I w \<longrightarrow>
      I (snd y) \<and> fst y \<noteq> Inl Undefined_behaviour \<and> (fst y = Inr () \<longrightarrow> stopping (snd y))"
  have "?P os resume w (r, w')"
  proof (rule run_loop.raw_induct [OF _ assms(1), of ?P], intro impI, elim conjE)
    fix loop os' resume' w y
    assume IH: "\<And>os' resume' w y. loop os' resume' w = Some y \<Longrightarrow> ?P os' resume' w y"
      and step: "(if stopping w then Some (Inr (), w)
        else let r = run_turn os' resume' w in
          (case fst r of Inl e \<Rightarrow> Some (Inl e, snd r)
           | Inr again \<Rightarrow> if again then loop os' resume' (snd r) else Some (Inr (), snd r))) = Some y"
      and eq: "os' = os" "resume' = resume" and I: "I w"
    show "I (snd y) \<and> fst y \<noteq> Inl Undefined_behaviour \<and> (fst y = Inr () \<longrightarrow> stopping (snd y))"
    proof (cases "stopping w")
      case True
      with step I show ?thesis by auto
    next
      case False
      obtain t w1 where t: "run_turn os resume w = (t, w1)" by force
      with turn [OF I False] step eq False IH [of os resume w1 y] show ?thesis
        by (auto simp: wp_def Let_def split: sum.splits if_splits)
    qed
  qed
  with assms(2) show ?thesis by simp
qed

context coroutine_code
begin

lemma run_turn_inv:
  assumes inv: "io_inv 0 M w" and os: "wait_bounded os"
  shows "wp (run_turn os resume) (\<lambda>again w'. io_inv 0 M w' \<and> (\<not> again \<longrightarrow> stopping w')) (\<lambda>_. io_inv 0 M) w"
  unfolding run_turn_def
proof (rule wp_bindI [OF run_ready_inv [OF inv]], rule wp_bindI [OF wp_expire_timers])
  fix x and w' :: "('k, 'v, 'm) io_world_scheme"
  assume inv': "io_inv 0 M w'"
  have "wp (run_poll os) (\<lambda>again w'. io_inv 0 M w' \<and> again) (\<lambda>_. io_inv 0 M) w'"
    using wp_run_poll [OF inv' os] run_poll_again [of os w'] by (auto simp: wp_def split: prod.splits sum.splits)
  with inv' show "wp (\<lambda>w. if stopping w then (Inr False, w) else run_poll os w)
      (\<lambda>again w'. io_inv 0 M w' \<and> (\<not> again \<longrightarrow> stopping w')) (\<lambda>_. io_inv 0 M) w'"
    by (auto simp: wp_def split: prod.splits sum.splits)
qed

lemma run_inv:
  assumes "run os resume w = Some (r, w')" and "io_inv 0 M w" and "wait_bounded os"
  shows "io_inv 0 M w' \<and> r \<noteq> Inl Undefined_behaviour \<and>
    (r = Inr () \<longrightarrow> \<not> io_running w' \<and> (io_stop_requested w' \<or> io_roots w' = {||}))"
proof (cases "io_running w")
  case True
  with assms(1,2) show ?thesis by (auto simp: run_def)
next
  case False
  let ?w = "w\<lparr>io_running := True, io_stop_requested := False\<rparr>"
  obtain w1 where w1: "run_loop os resume ?w = Some (r, w1)" "w' = w1\<lparr>io_running := False\<rparr>"
    using assms(1) False by (auto simp: run_def)
  have "io_inv 0 M w1 \<and> r \<noteq> Inl Undefined_behaviour \<and> (r = Inr () \<longrightarrow> stopping w1)"
    by (rule run_loop_inv [OF w1(1)]) (use assms(2) run_turn_inv [OF _ assms(3)] in simp_all)
  with w1(2) show ?thesis by (simp add: stopping_def)
qed

end

section \<open>Wake sources and leaks\<close>

text \<open>Following the awaited children of a task that has been started leads to a suspended leaf.\<close>

lemma suspended_leaf:
  assumes inv: "heap_inv 0 M F R N"
  shows "fmlookup F h = Some fr \<Longrightarrow> h |\<in>| R \<or> fr_point fr \<noteq> At_start \<Longrightarrow>
    \<exists>x fx. fmlookup F x = Some fx \<and> (fr_point fx = At_yield \<or> fr_point fx = At_park \<or>
      (\<exists>aw. fr_point fx = At_wait aw) \<or> fr_point fx = At_start \<and> x |\<in>| R)"
proof (induction "N - h" arbitrary: h fr rule: less_induct)
  case less
  note D = heap_invD [OF inv]
  have ok: "frame_ok 0 R N h fr" by (rule D(2) [OF less.prems(1)])
  show ?case
  proof (cases "fr_point fr")
    case (At_await c)
    then have "child_of F h = Some c" using less.prems(1) by (simp add: child_of_def)
    then obtain fc where fc: "fmlookup F c = Some fc" "fr_point fc \<noteq> At_start" "h < c"
      using D(8) [of h c] by (auto simp: child_ok_def)
    moreover have "N - c < N - h" using fc(3) ok by (simp add: frame_ok_def diff_less_mono2)
    ultimately show ?thesis using less.hyps [of c fc] by blast
  qed (use less.prems ok in \<open>auto simp: frame_ok_def\<close>)
qed

lemma registered_waiter:
  assumes "reg_inv f S C N" and "waiting S fd ev = Some ws"
  shows "\<exists>st. st |\<in>| fmran S \<and> fs_registered st"
proof -
  obtain st where st: "fmlookup S fd = Some st" using assms(2) by (auto simp: waiting_def split: option.splits)
  then have "fs_registered st" using reg_invD(1) [OF assms(1)] by (simp add: fd_ok_def)
  with fmranI [OF st] show ?thesis by blast
qed

text \<open>The executor can find nothing to wait for only if the client has parked a coroutine.\<close>

lemma idle_parked:
  assumes inv: "io_inv 0 M w" and "io_roots w \<noteq> {||}" and "io_ready w = []" and "\<not> has_registered_waiter w"
  shows "\<exists>x fx. fmlookup (io_frames w) x = Some fx \<and> fr_point fx = At_park"
proof -
  have heap: "heap_inv 0 M (io_frames w) (io_roots w) (io_next_addr w)"
    and wait: "wait_inv 0 (io_frames w) (io_roots w) (io_ready w) (io_fd_states w)"
    and reg: "reg_inv None (io_fd_states w) (lp_channels w) (io_next_addr w)"
    using inv by (simp_all add: inv_but_def core_inv_def)
  obtain h where h: "h |\<in>| io_roots w" using assms(2) by auto
  then obtain fr where fr: "fmlookup (io_frames w) h = Some fr" using heap_invD(3) [OF heap h] by blast
  from suspended_leaf [OF heap fr disjI1 [OF h]] obtain x fx where x: "fmlookup (io_frames w) x = Some fx"
      "fr_point fx = At_yield \<or> fr_point fx = At_park \<or> (\<exists>aw. fr_point fx = At_wait aw) \<or>
       fr_point fx = At_start \<and> x |\<in>| io_roots w" by blast
  have x0: "x \<noteq> 0" using heap_invD(2) [OF heap x(1)] by (simp add: frame_ok_def)
  have "\<not> (fr_point fx = At_yield \<or> fr_point fx = At_start \<and> x |\<in>| io_roots w)"
    using wait_invD(3) [OF wait x(1)] assms(3) by auto
  moreover have "fr_point fx \<noteq> At_wait aw" for aw
    using wait_invD(4) [OF wait x(1), of aw] registered_waiter [OF reg] assms(3,4) x0
    by (auto simp: has_registered_waiter_def)
  ultimately show ?thesis using x by blast
qed

lemma no_roots_nothing_started:
  assumes inv: "heap_inv 0 M F {||} N"
  shows "fmlookup F h = Some fr \<Longrightarrow> fr_point fr = At_start"
proof (induction h arbitrary: fr rule: less_induct)
  case (less h)
  note D = heap_invD [OF inv]
  show ?case
  proof (rule ccontr)
    assume started: "fr_point fr \<noteq> At_start"
    let ?p = "fr_continuation fr"
    have "child_of F ?p = Some h" using D(9) [OF less.prems] started by (simp add: has_owner_def)
    moreover from this obtain fp where "fmlookup F ?p = Some fp" "fr_point fp = At_await h"
      by (auto simp: child_of_def split: option.splits suspend_point.splits)
    moreover have "?p < h" using D(8) [OF calculation(1)] by (simp add: child_ok_def)
    ultimately show False using less.IH by fastforce
  qed
qed

lemma no_roots_clean:
  assumes inv: "io_inv 0 M w" and "io_roots w = {||}"
  shows "fmdom (io_frames w) = fset_of_list M \<and> io_ready w = [] \<and> io_fd_states w = fmempty \<and> lp_channels w = fmempty"
proof -
  have heap: "heap_inv 0 M (io_frames w) {||} (io_next_addr w)"
    and wait: "wait_inv 0 (io_frames w) {||} (io_ready w) (io_fd_states w)"
    and reg: "reg_inv None (io_fd_states w) (lp_channels w) (io_next_addr w)"
    using assms by (simp_all add: inv_but_def core_inv_def)
  note D = heap_invD [OF heap] and start = no_roots_nothing_started [OF heap]
  have held: "h \<in> set M" if h: "fmlookup (io_frames w) h = Some fr" for h fr
  proof -
    obtain x where x: "h \<in> set (tasks_of M (io_frames w) x)"
      using D(9) [OF h] start [OF h] by (auto simp: has_owner_def)
    have "x = 0"
    proof (rule ccontr)
      assume "x \<noteq> 0"
      with x obtain fx where fx: "fmlookup (io_frames w) x = Some fx" "h \<in> set (fr_tasks fx)"
        by (cases "fmlookup (io_frames w) x") (auto simp: tasks_of_def)
      with D(2) [OF fx(1)] start [OF fx(1)] show False by (simp add: frame_ok_def)
    qed
    with x show ?thesis by simp
  qed
  have live: "fmlookup (io_frames w) h \<noteq> None" if "h \<in> set M" for h
    using D(6) [of h 0] that by (auto simp: held_ok_def)
  have "h |\<in>| fmdom (io_frames w) \<longleftrightarrow> h |\<in>| fset_of_list M" for h
    using held live [of h] by (auto simp: fmlookup_dom_iff fset_of_list_elem)
  then have "fmdom (io_frames w) = fset_of_list M" by blast
  moreover have "io_ready w = []"
  proof (rule ccontr)
    assume "io_ready w \<noteq> []"
    then obtain h where "h \<in> set (io_ready w)" by (meson last_in_set)
    from wait_invD(2) [OF wait this] show False using start by (auto simp: queued_ok_def)
  qed
  moreover have no_fd: "fmlookup (io_fd_states w) fd = None" for fd
  proof (rule ccontr)
    assume "fmlookup (io_fd_states w) fd \<noteq> None"
    then obtain st where st: "fmlookup (io_fd_states w) fd = Some st" by blast
    then have "fs_reader st \<noteq> None \<or> fs_writer st \<noteq> None" using reg_invD(1) [OF reg st] by (simp add: fd_full_def)
    then have "\<exists>ws. waiting (io_fd_states w) fd READ = Some ws \<or> waiting (io_fd_states w) fd WRITE = Some ws"
      using st by (auto simp: waiting_def slot_def)
    then obtain ev ws where "waiting (io_fd_states w) fd ev = Some ws" "direction ev" by blast
    from wait_invD(5) [OF wait this] show False using start by (auto simp: slot_ok_def)
  qed
  moreover have "fmlookup (lp_channels w) fd = None" for fd using reg_invD(2) [OF reg, of fd] no_fd by fastforce
  ultimately show ?thesis by (auto intro!: fmap_ext)
qed

text \<open>An order that does not look at the queue is respected by the whole loop.\<close>

locale loop_order = executor_order R
  for R :: "('k, 'v, 'm) io_world_scheme \<Rightarrow> ('k, 'v, 'm) io_world_scheme \<Rightarrow> bool" +
  assumes requeued: "R w (w\<lparr>io_ready := q\<rparr>)"
    and flagged: "R w (w\<lparr>io_running := b\<rparr>)" "R w (w\<lparr>io_stop_requested := b\<rparr>)"
begin

lemma l_run_batch:
  assumes "\<And>h. within R (go h)"
  shows "within R (run_batch os go n)"
proof (induction n)
  case 0
  show ?case by (rule withinI) (simp add: refl_R)
next
  case (Suc n)
  have "within R (ebind (if c = 0 then eret True else is_done c) (\<lambda>skip.
            ebind (if skip then eret () else ebind (go c) (\<lambda>_. drain_completed os))
              (\<lambda>_. run_batch os go n)))" for c
    by (intro within_rules assms Suc.IH)
  note body = trans_R [OF requeued within_at [OF this]]
  show ?case by (rule withinI) (simp add: body refl_R del: ebind_ret split: list.split)
qed

lemma l_run_turn:
  assumes "\<And>h. within R (go h)"
  shows "within R (run_turn os go)"
proof -
  have "within R (run_ready os go)"
    by (rule withinI) (simp add: run_ready_def within_at [OF l_run_batch [OF assms]])
  moreover have "within R (\<lambda>w. if stopping w then (Inr False, w) else run_poll os w)"
    by (rule withinI) (simp add: refl_R within_at [OF w_run_poll])
  ultimately show ?thesis unfolding run_turn_def by (intro within_rules)
qed

lemma l_run_loop:
  assumes go: "\<And>h. within R (go h)" and run: "run_loop os go w = Some (r, w')"
  shows "R w w'"
proof -
  let ?P = "\<lambda>os' go' w y. os' = os \<and> go' = go \<longrightarrow> R w (snd y)"
  have "?P os go w (r, w')"
  proof (rule run_loop.raw_induct [OF _ run, of ?P], intro impI, elim conjE)
    fix loop os' go' w y
    assume IH: "\<And>os' go' w y. loop os' go' w = Some y \<Longrightarrow> ?P os' go' w y"
      and step: "(if stopping w then Some (Inr (), w)
        else let r = run_turn os' go' w in
          (case fst r of Inl e \<Rightarrow> Some (Inl e, snd r)
           | Inr again \<Rightarrow> if again then loop os' go' (snd r) else Some (Inr (), snd r))) = Some y"
      and eq: "os' = os" "go' = go"
    obtain t w1 where t: "run_turn os go w = (t, w1)" by force
    have "R w w1" by (rule withinD [OF l_run_turn [OF go] t])
    with step eq t IH [of os go w1 y] show "R w (snd y)"
      by (auto simp: Let_def refl_R intro: trans_R split: if_splits sum.splits)
  qed
  then show ?thesis by simp
qed

lemma l_run:
  assumes go: "\<And>h. within R (go h)" and run: "run os go w = Some (r, w')"
  shows "R w w'"
proof (cases "io_running w")
  case True
  with run show ?thesis by (auto simp: run_def refl_R)
next
  case False
  let ?w = "w\<lparr>io_running := True, io_stop_requested := False\<rparr>"
  obtain w1 where w1: "run_loop os go ?w = Some (r, w1)" "w' = w1\<lparr>io_running := False\<rparr>"
    using run False by (auto simp: run_def)
  have "R w ?w" by (rule trans_R [OF flagged(1) flagged(2)])
  moreover have "R ?w w1" using go w1(1) by (rule l_run_loop)
  ultimately show ?thesis unfolding w1(2) by (blast intro: trans_R flagged(1))
qed

end

end
