(* ===== verification/Coroutines.thy ===== *)
theory Coroutines
  imports Io_Run
begin

text \<open>
  The programs that run on the executor. Their code is not part of the library, so all of them are
  considered at once: a program is a script of the operations of the library that its coroutines
  perform, in the order in which they happen, and every script is a program. What a coroutine
  does between two suspensions is \<open>user_code\<close>; it follows the protocol that the compiler generates
  for \<open>co_await\<close> and for the end of a coroutine from the awaiters and the promise of
  \<open>include/tinycoro/task.h\<close> and \<open>include/tinycoro/io_context.h\<close>.
\<close>

section \<open>Programs\<close>

text \<open>
  \<open>A_call\<close> calls a coroutine, whose task the caller then holds; the frame holds wrapper objects of
  the given descriptors. \<open>A_park\<close> awaits an awaiter of the client that never resumes. An operation
  that does not apply, like awaiting a task the coroutine does not hold, is skipped.
\<close>

datatype 'v action =
    A_call bool "int list"
  | A_spawn handle
  | A_drop handle
  | A_cancel int
  | A_stop
  | A_await handle
  | A_wait int event int
  | A_yield
  | A_park
  | A_return "'v option"
  | A_raise exn

text \<open>
  What the code gets from the library: the handle of a call, an exception, the result of a wait,
  the value of an awaited task. \<open>R_entered\<close> marks the start of a root, \<open>R_called\<close> that of an awaited
  task, and \<open>R_resumed\<close> the return of \<open>yield\<close>.
\<close>

datatype 'v response =
    R_entered
  | R_called
  | R_resumed
  | R_ready bool
  | R_handle handle
  | R_done
  | R_value "'v option"
  | R_exn exn

record ('k, 'v) run_world = "('k, 'v) io_world" +
  rw_main :: "handle list"
  rw_script :: "'v action list"
  rw_log :: "(handle \<times> 'v response) list"

text \<open>After an operation: the coroutine that goes on, or the return to the scheduler.\<close>

datatype control = Go_on handle | Back

text \<open>The responses with which the scheduler gives a coroutine its turn.\<close>

fun is_turn :: "'v response \<Rightarrow> bool" where
  "is_turn R_entered = True"
| "is_turn R_resumed = True"
| "is_turn (R_ready _) = True"
| "is_turn _ = False"

definition note_log :: "handle \<Rightarrow> 'v response \<Rightarrow> (('k, 'v, 'm) run_world_scheme, unit) eff" where
  "note_log x r = emodify (\<lambda>w. w\<lparr>rw_log := rw_log w @ [(x, r)]\<rparr>)"

text \<open>An operation of \<open>x\<close> with its outcome noted, whether it returns or throws.\<close>

definition attempt :: "handle \<Rightarrow> (('k, 'v, 'm) run_world_scheme, unit) eff \<Rightarrow> (('k, 'v, 'm) run_world_scheme, unit) eff" where
  "attempt x m = ecatch (ebind m (\<lambda>_. note_log x R_done)) (\<lambda>e. note_log x (R_exn e))"

section \<open>Holding tasks\<close>

definition held :: "handle \<Rightarrow> ('k, 'v, 'm) run_world_scheme \<Rightarrow> handle list" where
  "held x w = tasks_of (rw_main w) (io_frames w) x"

definition set_held :: "handle \<Rightarrow> handle list \<Rightarrow> ('k, 'v, 'm) run_world_scheme \<Rightarrow> ('k, 'v, 'm) run_world_scheme" where
  "set_held x ts w =
     (case set_tasks x ts (rw_main w) (io_frames w) of (M, F) \<Rightarrow> w\<lparr>rw_main := M, io_frames := F\<rparr>)"

definition call_coroutine :: "handle \<Rightarrow> bool \<Rightarrow> int list \<Rightarrow> (('k, 'v, 'm) run_world_scheme, unit) eff" where
  "call_coroutine x void fds w =
     (let h = io_next_addr w; w = set_held x (held x w @ [h]) w in
      note_log x (R_handle h) (w\<lparr>io_frames := fmupd h (frame_new void fds) (io_frames w), io_next_addr := h + 1\<rparr>))"

definition take_held :: "handle \<Rightarrow> handle \<Rightarrow> (('k, 'v, 'm) run_world_scheme, unit) eff" where
  "take_held x t = emodify (\<lambda>w. set_held x (remove1 t (held x w)) w)"

definition drop_task :: "'k os \<Rightarrow> handle \<Rightarrow> handle \<Rightarrow> (('k, 'v, 'm) run_world_scheme, unit) eff" where
  "drop_task os x t = ebind (take_held x t) (\<lambda>_. destroy os [t])"

definition is_void :: "handle \<Rightarrow> ('k, 'v, 'm) run_world_scheme \<Rightarrow> bool" where
  "is_void t w = (case fmlookup (io_frames w) t of None \<Rightarrow> False | Some fr \<Rightarrow> fr_void fr)"

text \<open>
  The operations that code inside and outside of coroutines shares; \<open>x\<close> is the coroutine, 0 outside.
  Only a \<open>Task<void>\<close> can be spawned.
\<close>

fun shared :: "'k os \<Rightarrow> handle \<Rightarrow> 'v action \<Rightarrow> (('k, 'v, 'm) run_world_scheme, unit) eff" where
  "shared os x (A_call void fds) w = call_coroutine x void fds w"
| "shared os x (A_spawn t) w =
     (if t = 0 then attempt x (spawn os t) w
      else if t \<in> set (held x w) \<and> is_void t w
      then ebind (take_held x t) (\<lambda>_. attempt x (spawn os t)) w
      else (Inr (), w))"
| "shared os x (A_drop t) w = (if t \<in> set (held x w) then drop_task os x t w else (Inr (), w))"
| "shared os x (A_cancel fd) w = cancel os fd w"
| "shared os x A_stop w = stop w"
| "shared os x _ w = (Inr (), w)"

section \<open>Awaiting and ending\<close>

definition set_point :: "handle \<Rightarrow> suspend_point \<Rightarrow> (('k, 'v, 'm) io_world_scheme, unit) eff" where
  "set_point h p = on_heap (set_frame h (fr_point_update (\<lambda>_. p)))"

text \<open>The end of a \<open>co_await\<close> on a task: its result is noted and the awaiter destroyed.\<close>

definition leave_await :: "'k os \<Rightarrow> handle \<Rightarrow> handle \<Rightarrow> (('k, 'v, 'm) run_world_scheme, unit) eff" where
  "leave_await os x t w =
     (case await_resume t (io_frames w) of
        Inl e \<Rightarrow> (Inl e, w)
      | Inr r \<Rightarrow>
          ebind (note_log x (case r of Inl e \<Rightarrow> R_exn e | Inr v \<Rightarrow> R_value v))
            (\<lambda>_. if t = 0 then eret () else destroy os [t]) w)"

text \<open>\<open>co_await\<close> of a task: control passes to the task unless it is empty or done.\<close>

definition enter_await :: "'k os \<Rightarrow> handle \<Rightarrow> handle \<Rightarrow> (('k, 'v, 'm) run_world_scheme, control) eff" where
  "enter_await os x t w =
     (case await_ready t (io_frames w) of
        Inl e \<Rightarrow> (Inl e, w)
      | Inr True \<Rightarrow> ebind (leave_await os x t) (\<lambda>_. eret (Go_on x)) w
      | Inr False \<Rightarrow>
          ebind (set_point x (At_await t)) (\<lambda>_ w.
          case await_suspend t x (io_frames w) of
            Inl e \<Rightarrow> (Inl e, w)
          | Inr (c, H) \<Rightarrow>
              ebind (on_heap (resume_frame c)) (\<lambda>_.
              ebind (note_log c R_called) (\<lambda>_. eret (Go_on c))) (w\<lparr>io_frames := H\<rparr>)) w)"

text \<open>The end of a coroutine: final suspension, and transfer to whoever waits for it.\<close>

definition finish :: "'k os \<Rightarrow> handle \<Rightarrow> (('k, 'v, 'm) run_world_scheme, control) eff" where
  "finish os x =
     ebind (set_point x At_final) (\<lambda>_ w.
       case final_suspend x (io_frames w) of
         Inl e \<Rightarrow> (Inl e, w)
       | Inr None \<Rightarrow> ebind (root_completed x) (\<lambda>_. eret Back) w
       | Inr (Some c) \<Rightarrow>
           if c = 0 then (Inr Back, w)
           else ebind (on_heap (resume_frame c)) (\<lambda>_.
                ebind (leave_await os c x) (\<lambda>_. eret (Go_on c))) w)"

text \<open>\<open>co_return\<close> and an exception that leaves the body; the locals are destroyed before.\<close>

definition co_return :: "'k os \<Rightarrow> handle \<Rightarrow> 'v option \<Rightarrow> (('k, 'v, 'm) run_world_scheme, control) eff" where
  "co_return os x v = ebind (on_heap (return_value v x)) (\<lambda>_. finish os x)"

definition co_raise :: "'k os \<Rightarrow> handle \<Rightarrow> exn \<Rightarrow> (('k, 'v, 'm) run_world_scheme, control) eff" where
  "co_raise os x e = ebind (on_heap (unhandled_exception e x)) (\<lambda>_. finish os x)"

text \<open>One operation of a coroutine.\<close>

fun act :: "'k os \<Rightarrow> handle \<Rightarrow> 'v action \<Rightarrow> (('k, 'v, 'm) run_world_scheme, control) eff" where
  "act os x (A_await t) w =
     (if t = 0 \<or> t \<in> set (held x w)
      then ebind (take_held x t) (\<lambda>_. enter_await os x t) w
      else (Inr (Go_on x), w))"
| "act os x (A_wait fd ev timeout) w =
     (if direction ev then
        ebind (set_point x (At_wait (FdAwaiter fd ev timeout))) (\<lambda>_.
        ecatch (ebind (fd_await_suspend os (FdAwaiter fd ev timeout) x) (\<lambda>_. eret Back))
          (\<lambda>e. ebind (set_point x Executing) (\<lambda>_. ebind (note_log x (R_exn e)) (\<lambda>_. eret (Go_on x))))) w
      else (Inr (Go_on x), w))"
| "act os x A_yield w = ebind (set_point x At_yield) (\<lambda>_. ebind (yield_await_suspend x) (\<lambda>_. eret Back)) w"
| "act os x A_park w = ebind (set_point x At_park) (\<lambda>_. eret Back) w"
| "act os x (A_return v) w =
     (if held x w = [] \<and> (v = None \<longleftrightarrow> is_void x w) then co_return os x v w else (Inr (Go_on x), w))"
| "act os x (A_raise e) w =
     (if held x w = [] \<and> e \<noteq> Undefined_behaviour then co_raise os x e w else (Inr (Go_on x), w))"
| "act os x a w = ebind (shared os x a) (\<lambda>_. eret (Go_on x)) w"

text \<open>
  A program whose script is at its end destroys the tasks it holds and returns; a coroutine that
  owes a value throws instead.
\<close>

definition wind_up :: "'k os \<Rightarrow> handle \<Rightarrow> (('k, 'v, 'm) run_world_scheme, control) eff" where
  "wind_up os x w =
     (case held x w of
        t # _ \<Rightarrow> ebind (drop_task os x t) (\<lambda>_. eret (Go_on x)) w
      | [] \<Rightarrow> if is_void x w then co_return os x None w else co_raise os x (User_exn 0) w)"

definition next_action :: "'k os \<Rightarrow> handle \<Rightarrow> (('k, 'v, 'm) run_world_scheme, control) eff" where
  "next_action os x w =
     (case rw_script w of
        [] \<Rightarrow> wind_up os x w
      | a # rest \<Rightarrow> act os x a (w\<lparr>rw_script := rest\<rparr>))"

section \<open>Termination of the code between two suspensions\<close>

text \<open>
  What the operations of a coroutine \<open>x\<close> leave alone: the script, and the tasks held outside of
  coroutines.
\<close>

definition kept :: "handle \<Rightarrow> ('k, 'v, 'm) run_world_scheme \<Rightarrow> handle list \<times> 'v action list" where
  "kept x w = (if x = 0 then [] else rw_main w, rw_script w)"

lemma kept_simps [simp]:
  "kept x (w\<lparr>lp_kernel := k\<rparr>) = kept x w" "kept x (w\<lparr>lp_channels := c\<rparr>) = kept x w"
  "kept x (w\<lparr>io_fd_states := m\<rparr>) = kept x w" "kept x (w\<lparr>io_timers := t\<rparr>) = kept x w"
  "kept x (w\<lparr>io_next_token := n\<rparr>) = kept x w" "kept x (w\<lparr>io_next_addr := n'\<rparr>) = kept x w"
  "kept x (w\<lparr>io_frames := H\<rparr>) = kept x w" "kept x (w\<lparr>io_roots := R\<rparr>) = kept x w"
  "kept x (w\<lparr>io_ready := q\<rparr>) = kept x w" "kept x (w\<lparr>io_completed_head := h\<rparr>) = kept x w"
  "kept x (w\<lparr>io_stop_requested := b\<rparr>) = kept x w" "kept x (w\<lparr>rw_log := l\<rparr>) = kept x w"
  "kept x (set_held x ts w) = kept x w"
  by (simp_all add: kept_def set_held_def set_tasks_def split: option.split)

lemma preserves_within: "preserves f m = within (\<lambda>s s'. f s' = f s) m"
  by (simp add: preserves_def within_def)

interpretation kept: executor_order "\<lambda>w w' :: ('k, 'v, 'm) run_world_scheme. kept x w' = kept x w" for x
  by unfold_locales simp_all

lemma kept_note_log [preserve_rules]: "preserves (kept x) (note_log y r)"
  unfolding note_log_def by (intro preserve_rules) simp

lemma kept_take_held [preserve_rules]: "preserves (kept x) (take_held x t)"
  unfolding take_held_def by (intro preserve_rules) simp

lemma kept_attempt [preserve_rules]: "preserves (kept x) m \<Longrightarrow> preserves (kept x) (attempt y m)"
  unfolding attempt_def by (intro preserve_rules)

lemma kept_on_heap [preserve_rules]: "preserves (kept x) (on_heap g)"
  by (auto simp: preserves_def on_heap_def split: sum.split)

lemma kept_operations [preserve_rules]:
  "preserves (kept x) (destroy os hs)" "preserves (kept x) (spawn os t)" "preserves (kept x) (cancel os fd)"
  "preserves (kept x) (arm_wait os fd ev timeout c r)" "preserves (kept x) (schedule h)"
  "preserves (kept x) (root_completed h)"
  unfolding preserves_within
  by (rule kept.w_destroy kept.w_spawn kept.w_cancel kept.w_arm_wait kept.w_schedule kept.w_root_completed)+

lemma kept_shared: "preserves (kept x) (shared os x a)"
proof -
  have spawn: "preserves (kept x) (attempt x (spawn os t))" for t :: handle
    by (intro preserve_rules)
  have take: "preserves (kept x) (ebind (take_held x t) (\<lambda>_. attempt x (spawn os t)))" for t
    by (intro preserve_rules spawn)
  have drop: "preserves (kept x) (drop_task os x t)" for t
    unfolding drop_task_def by (intro preserve_rules)
  have "kept x (snd (call_coroutine x void fds w)) = kept x w" for void fds w
    by (simp add: call_coroutine_def Let_def preservesD [OF kept_note_log])
  then show ?thesis
    by (intro preserves_applied, cases a)
       (simp_all add: preservesD [OF spawn] preservesD [OF take] preservesD [OF drop] preservesD [OF kept_operations(3)] stop_def
         del: ebind_ret)
qed

lemma kept_leave_await [preserve_rules]: "preserves (kept x) (leave_await os y t)"
proof -
  have "preserves (kept x) (ebind (note_log y r) (\<lambda>_. if t = 0 then eret () else destroy os [t]))" for r
    by (intro preserve_rules)
  note body = preservesD [OF this]
  show ?thesis
  proof (rule preserves_applied)
    fix w
    show "kept x (snd (leave_await os y t w)) = kept x w"
      unfolding leave_await_def by (cases "await_resume t (io_frames w)") (simp_all only: sum.case body snd_conv)
  qed
qed

lemma kept_finish [preserve_rules]: "preserves (kept x) (finish os y)"
proof -
  have "preserves (kept x) (ebind (on_heap (resume_frame c)) (\<lambda>_. ebind (leave_await os c y) (\<lambda>_. eret (Go_on c))))" for c
    by (intro preserve_rules)
  note back_to = preservesD [OF this]
  have "preserves (kept x) (ebind (root_completed y) (\<lambda>_. eret Back))" by (intro preserve_rules)
  note root = preservesD [OF this]
  show ?thesis
    unfolding finish_def set_point_def
    by (intro preserve_rules, rule preserves_applied)
       (simp add: root back_to del: ebind_ret split: sum.split option.split)
qed

lemma kept_wind_up: "preserves (kept x) (wind_up os x)"
proof -
  have "preserves (kept x) (ebind (drop_task os x t) (\<lambda>_. eret (Go_on x)))" for t
    unfolding drop_task_def by (intro preserve_rules)
  note drop = preservesD [OF this]
  have "preserves (kept x) (co_return os x None)" "preserves (kept x) (co_raise os x e)" for e
    unfolding co_return_def co_raise_def by (intro preserve_rules)+
  note leave = preservesD [OF this(1)] preservesD [OF this(2)]
  show ?thesis
    by (rule preserves_applied) (simp add: wind_up_def drop leave del: ebind_ret split: list.split)
qed

lemma kept_enter_await [preserve_rules]: "preserves (kept x) (enter_await os x t)"
proof -
  have "preserves (kept x) (ebind (leave_await os x t) (\<lambda>_. eret (Go_on x)))" by (intro preserve_rules)
  note ready = preservesD [OF this]
  have "preserves (kept x) (ebind (on_heap (resume_frame c)) (\<lambda>_. ebind (note_log c R_called) (\<lambda>_. eret (Go_on c))))" for c
    by (intro preserve_rules)
  note transfer = preservesD [OF this]
  have "preserves (kept x) (ebind (set_point x (At_await t)) (\<lambda>_ w.
          case await_suspend t x (io_frames w) of
            Inl e \<Rightarrow> (Inl e, w)
          | Inr (c, H) \<Rightarrow>
              ebind (on_heap (resume_frame c)) (\<lambda>_.
              ebind (note_log c R_called) (\<lambda>_. eret (Go_on c))) (w\<lparr>io_frames := H\<rparr>)))"
    unfolding set_point_def
    by (intro preserve_rules, rule preserves_applied) (simp add: transfer del: ebind_ret split: sum.split prod.split)
  note suspend = preservesD [OF this]
  show ?thesis
  proof (rule preserves_applied)
    fix w
    show "kept x (snd (enter_await os x t w)) = kept x w"
      unfolding enter_await_def
      by (cases "await_ready t (io_frames w)")
         (simp_all only: sum.case snd_conv, simp split: bool.split add: ready suspend del: ebind_ret)
  qed
qed

lemma kept_act: "preserves (kept x) (act os x a)"
proof -
  have "preserves (kept x) (ebind (take_held x t) (\<lambda>_. enter_await os x t))" for t by (intro preserve_rules)
  note await = preservesD [OF this]
  have "preserves (kept x) (ebind (set_point x p) (\<lambda>_. ecatch (ebind (arm_wait os fd ev timeout x x) (\<lambda>_. eret Back))
          (\<lambda>e. ebind (set_point x Executing) (\<lambda>_. ebind (note_log x (R_exn e)) (\<lambda>_. eret (Go_on x))))))"
    for p fd ev timeout
    unfolding set_point_def by (intro preserve_rules)
  note wait = preservesD [OF this]
  have "preserves (kept x) (ebind (set_point x At_yield) (\<lambda>_. ebind (schedule x) (\<lambda>_. eret Back)))"
    unfolding set_point_def by (intro preserve_rules)
  note yield = preservesD [OF this]
  have "preserves (kept x) (ebind (set_point x At_park) (\<lambda>_. eret Back))"
    unfolding set_point_def by (intro preserve_rules)
  note park = preservesD [OF this]
  have "preserves (kept x) (co_return os x v)" "preserves (kept x) (co_raise os x e)" for v e
    unfolding co_return_def co_raise_def by (intro preserve_rules)+
  note leave = preservesD [OF this(1)] preservesD [OF this(2)]
  have "preserves (kept x) (ebind (shared os x a) (\<lambda>_. eret (Go_on x)))" for a by (intro preserve_rules kept_shared)
  note shared = preservesD [OF this]
  show ?thesis
  proof (rule preserves_applied)
    fix w
    show "kept x (snd (act os x a w)) = kept x w"
      by (cases a) (simp_all only: act.simps awaiter_simps fd_awaiter.simps await wait yield park leave shared snd_conv if_distrib [of snd]
            if_distrib [of "kept x"] if_cancel)
  qed
qed

text \<open>When the script is at its end, each step that goes on destroys a frame.\<close>

lemma on_heap_dom:
  "(\<And>H H'. g H = Inr H' \<Longrightarrow> fmdom H' = fmdom H) \<Longrightarrow> preserves (\<lambda>w. fmdom (io_frames w)) (on_heap g)"
  by (auto simp: preserves_def on_heap_def split: sum.split)

lemma set_frame_dom: "set_frame h f H = Inr H' \<Longrightarrow> fmdom H' = fmdom H"
  by (auto simp: set_frame_def fmlookup_dom_iff split: option.splits)

lemma resume_frame_dom: "resume_frame h H = Inr H' \<Longrightarrow> fmdom H' = fmdom H"
  by (auto simp: resume_frame_def fmlookup_dom_iff split: option.splits if_splits)

lemma set_held_dom [simp]: "fmdom (io_frames (set_held x ts w)) = fmdom (io_frames w)"
  by (auto simp: set_held_def set_tasks_def fmlookup_dom_iff split: option.split)

abbreviation frame_count :: "('k, 'v, 'm) io_world_scheme \<Rightarrow> nat" where
  "frame_count w \<equiv> fcard (fmdom (io_frames w))"

lemma drop_task_shrinks:
  assumes "drop_task os x t w = (Inr u, w')"
  shows "frame_count w' < frame_count w"
proof -
  from assms have "destroy os [t] (set_held x (remove1 t (held x w)) w) = (Inr u, w')"
    by (simp add: drop_task_def take_held_def)
  from destroy_shrinks [OF this] show ?thesis by simp
qed

lemma leave_await_shrinks:
  assumes "leave_await os x t w = (Inr u, w')" and "t \<noteq> 0"
  shows "frame_count w' < frame_count w"
proof -
  obtain r where r: "await_resume t (io_frames w) = Inr r" using assms(1)
    by (cases "await_resume t (io_frames w)") (simp_all add: leave_await_def)
  from assms r obtain l where "destroy os [t] (w\<lparr>rw_log := l\<rparr>) = (Inr u, w')"
    by (auto simp: leave_await_def note_log_def)
  from destroy_shrinks [OF this] show ?thesis by simp
qed

lemma finish_shrinks:
  assumes "finish os x w = (Inr (Go_on c), w')" and "x \<noteq> 0"
  shows "frame_count w' < frame_count w"
proof -
  obtain w1 where w1: "set_point x At_final w = (Inr (), w1)"
    using assms(1) by (auto simp: finish_def ebind_eq_Inr)
  then obtain d where d: "final_suspend x (io_frames w1) = Inr (Some d)" and d0: "d \<noteq> 0"
      and rest: "ebind (on_heap (resume_frame d)) (\<lambda>_. ebind (leave_await os d x) (\<lambda>_. eret (Go_on d))) w1 = (Inr (Go_on c), w')"
    using assms(1) by (auto simp: finish_def ebind_eq_Inr split: sum.splits option.splits if_splits)
  then obtain w2 w3 where w2: "on_heap (resume_frame d) w1 = (Inr (), w2)" and w3: "leave_await os d x w2 = (Inr (), w')"
    by (auto simp: ebind_eq_Inr)
  have "fmdom (io_frames w1) = fmdom (io_frames w)"
    using preserves_result [OF on_heap_dom w1 [unfolded set_point_def]] set_frame_dom by blast
  moreover have "fmdom (io_frames w2) = fmdom (io_frames w1)"
    using preserves_result [OF on_heap_dom w2] resume_frame_dom by blast
  ultimately show ?thesis using leave_await_shrinks [OF w3 assms(2)] by simp
qed

lemma wind_up_shrinks:
  assumes "wind_up os x w = (Inr (Go_on c), w')" and "x \<noteq> 0"
  shows "frame_count w' < frame_count w"
proof (cases "held x w")
  case (Cons t ts)
  with assms show ?thesis by (auto simp: wind_up_def ebind_eq_Inr dest: drop_task_shrinks)
next
  case Nil
  then obtain f w1 where w1: "on_heap (set_frame x f) w = (Inr (), w1)" "finish os x w1 = (Inr (Go_on c), w')"
    using assms
    by (auto simp: wind_up_def co_return_def co_raise_def ebind_eq_Inr return_value_def unhandled_exception_def
        split: if_splits)
  have "fmdom (io_frames w1) = fmdom (io_frames w)"
    using preserves_result [OF on_heap_dom w1(1)] set_frame_dom by blast
  with finish_shrinks [OF w1(2) assms(2)] show ?thesis by simp
qed

section \<open>Running a coroutine\<close>

function user_code :: "'k os \<Rightarrow> handle \<Rightarrow> (('k, 'v, 'm) run_world_scheme, unit) eff" where
  "user_code os x w =
     (if x = 0 then (Inl Undefined_behaviour, w)
      else
        let r = next_action os x w in
        case fst r of
          Inl e \<Rightarrow> (Inl e, snd r)
        | Inr Back \<Rightarrow> (Inr (), snd r)
        | Inr (Go_on c) \<Rightarrow> user_code os c (snd r))"
  by pat_completeness auto
termination
proof (relation "(\<lambda>(os, x, w). length (rw_script w)) <*mlex*> measure (\<lambda>(os, x, w). frame_count w)", goal_cases)
  case 1
  show ?case by (simp add: wf_mlex)
next
  case (2 os x w r u c)
  show ?case
  proof (cases "rw_script w")
    case Nil
    then have r: "r = wind_up os x w" using 2 by (simp add: next_action_def)
    have "kept x (snd r) = kept x w" unfolding r by (rule preservesD [OF kept_wind_up])
    moreover have "frame_count (snd r) < frame_count w"
      using wind_up_shrinks [of os x w c "snd r"] 2 r by (metis prod.collapse)
    ultimately show ?thesis using Nil by (auto simp: kept_def mlex_prod_def)
  next
    case (Cons a rest)
    then have "kept x (snd r) = kept x (w\<lparr>rw_script := rest\<rparr>)"
      using 2 preservesD [OF kept_act, of x os a "w\<lparr>rw_script := rest\<rparr>"] by (simp add: next_action_def)
    with Cons show ?thesis by (simp add: kept_def mlex_prod_def)
  qed
qed

declare user_code.simps [simp del]

definition response_of :: "suspend_point \<Rightarrow> 'v response" where
  "response_of p = (case p of At_wait aw \<Rightarrow> R_ready (fd_await_resume aw) | At_start \<Rightarrow> R_entered | _ \<Rightarrow> R_resumed)"

text \<open>\<open>continuation.resume()\<close>: the awaiter of the coroutine returns and its code goes on.\<close>

definition resume :: "'k os \<Rightarrow> handle \<Rightarrow> (('k, 'v, 'm) run_world_scheme, unit) eff" where
  "resume os h w =
     (case fmlookup (io_frames w) h of
        None \<Rightarrow> (Inl Undefined_behaviour, w)
      | Some fr \<Rightarrow>
          ebind (on_heap (resume_frame h)) (\<lambda>_.
          ebind (note_log h (response_of (fr_point fr))) (\<lambda>_. user_code os h)) w)"

end
