(* ===== verification/Coroutine_Inv.thy ===== *)
theory Coroutine_Inv
  imports Coroutines
begin

text \<open>
  Every operation of a program keeps the invariant of the executor, so that the coroutines of all
  programs meet the contract of the scheduler.
\<close>

section \<open>Frames and wake sources\<close>

text \<open>The wake sources depend on a frame only through the point where it is suspended.\<close>

definition point_of :: "'v heap \<Rightarrow> handle \<Rightarrow> suspend_point option" where
  "point_of F h = map_option fr_point (fmlookup F h)"

lemma wait_inv_iff:
  "wait_inv b F R Q S \<longleftrightarrow>
     distinct Q \<and>
     (\<forall>h. h \<in> set Q \<longrightarrow> h \<noteq> b \<and> (\<exists>p. point_of F h = Some p \<and> queued_ok R h p)) \<and>
     (\<forall>h. point_of F h = Some At_yield \<or> point_of F h = Some At_start \<and> h |\<in>| R \<longrightarrow> h \<in> set Q) \<and>
     (\<forall>h aw. point_of F h = Some (At_wait aw) \<longrightarrow>
        direction (aw_event aw) \<and>
        (h = b \<or> h \<in> set Q \<or>
         (\<exists>ws. waiting S (aw_fd aw) (aw_event aw) = Some ws \<and> ws_continuation ws = h))) \<and>
     (\<forall>fd ev ws. waiting S fd ev = Some ws \<and> direction ev \<longrightarrow>
        ws_result ws = ws_continuation ws \<and> ws_continuation ws \<notin> set Q \<and> ws_continuation ws \<noteq> b \<and>
        (\<exists>aw. point_of F (ws_continuation ws) = Some (At_wait aw) \<and> aw_fd aw = fd \<and> aw_event aw = ev))"
proof -
  have 2: "(\<exists>fr. fmlookup F h = Some fr \<and> queued_ok R h (fr_point fr)) \<longleftrightarrow> (\<exists>p. point_of F h = Some p \<and> queued_ok R h p)" for h
    by (auto simp: point_of_def)
  have 3: "(\<forall>fr. fmlookup F h = Some fr \<and> (fr_point fr = At_yield \<or> fr_point fr = At_start \<and> h |\<in>| R) \<longrightarrow> X) \<longleftrightarrow>
      (point_of F h = Some At_yield \<or> point_of F h = Some At_start \<and> h |\<in>| R \<longrightarrow> X)" for h X
    by (auto simp: point_of_def)
  have 4: "(\<forall>fr aw. fmlookup F h = Some fr \<and> fr_point fr = At_wait aw \<longrightarrow> P aw) \<longleftrightarrow>
      (\<forall>aw. point_of F h = Some (At_wait aw) \<longrightarrow> P aw)" for h P
    by (auto simp: point_of_def)
  have 5: "slot_ok F Q fd ev ws \<and> ws_continuation ws \<noteq> b \<longleftrightarrow>
      ws_result ws = ws_continuation ws \<and> ws_continuation ws \<notin> set Q \<and> ws_continuation ws \<noteq> b \<and>
      (\<exists>aw. point_of F (ws_continuation ws) = Some (At_wait aw) \<and> aw_fd aw = fd \<and> aw_event aw = ev)" for fd ev ws
    by (auto simp: slot_ok_def point_of_def)
  show ?thesis unfolding wait_inv_def 2 3 4 5 ..
qed

lemma point_of_upd [simp]: "point_of (fmupd h fr F) x = (if x = h then Some (fr_point fr) else point_of F x)"
  by (simp add: point_of_def)

lemma point_of_drop [simp]: "point_of (fmdrop h F) x = (if x = h then None else point_of F x)"
  by (simp add: point_of_def)

lemma wait_pointI:
  assumes "distinct Q"
    and "\<And>h. h \<in> set Q \<Longrightarrow> h \<noteq> b \<and> (\<exists>p. point_of F h = Some p \<and> queued_ok R h p)"
    and "\<And>h. point_of F h = Some At_yield \<or> point_of F h = Some At_start \<and> h |\<in>| R \<Longrightarrow> h \<in> set Q"
    and "\<And>h aw. point_of F h = Some (At_wait aw) \<Longrightarrow> direction (aw_event aw) \<and> (h = b \<or> h \<in> set Q \<or>
         (\<exists>ws. waiting S (aw_fd aw) (aw_event aw) = Some ws \<and> ws_continuation ws = h))"
    and "\<And>fd ev ws. waiting S fd ev = Some ws \<Longrightarrow> direction ev \<Longrightarrow>
        ws_result ws = ws_continuation ws \<and> ws_continuation ws \<notin> set Q \<and> ws_continuation ws \<noteq> b \<and>
        (\<exists>aw. point_of F (ws_continuation ws) = Some (At_wait aw) \<and> aw_fd aw = fd \<and> aw_event aw = ev)"
  shows "wait_inv b F R Q S"
  using assms unfolding wait_inv_iff by blast

lemma wait_pointD:
  assumes "wait_inv b F R Q S"
  shows "distinct Q"
    and "\<And>h. h \<in> set Q \<Longrightarrow> h \<noteq> b \<and> (\<exists>p. point_of F h = Some p \<and> queued_ok R h p)"
    and "\<And>h. point_of F h = Some At_yield \<or> point_of F h = Some At_start \<and> h |\<in>| R \<Longrightarrow> h \<in> set Q"
    and "\<And>h aw. point_of F h = Some (At_wait aw) \<Longrightarrow> direction (aw_event aw) \<and> (h = b \<or> h \<in> set Q \<or>
         (\<exists>ws. waiting S (aw_fd aw) (aw_event aw) = Some ws \<and> ws_continuation ws = h))"
    and "\<And>fd ev ws. waiting S fd ev = Some ws \<Longrightarrow> direction ev \<Longrightarrow>
        ws_result ws = ws_continuation ws \<and> ws_continuation ws \<notin> set Q \<and> ws_continuation ws \<noteq> b \<and>
        (\<exists>aw. point_of F (ws_continuation ws) = Some (At_wait aw) \<and> aw_fd aw = fd \<and> aw_event aw = ev)"
  using assms unfolding wait_inv_iff by blast+

lemma wait_inv_same_points:
  "wait_inv b F R Q S \<Longrightarrow> (\<And>h. point_of F' h = point_of F h) \<Longrightarrow> wait_inv b F' R Q S"
  by (simp add: wait_inv_iff)

text \<open>A point from which a frame needs no wake source.\<close>

definition inert :: "handle fset \<Rightarrow> handle \<Rightarrow> suspend_point option \<Rightarrow> bool" where
  "inert R h p \<longleftrightarrow> p \<noteq> Some At_yield \<and> (\<forall>aw. p \<noteq> Some (At_wait aw)) \<and> (p = Some At_start \<longrightarrow> h |\<notin>| R)"

lemma inert_unused:
  assumes "wait_inv b F R Q S" and "inert R h (point_of F h)"
  shows "h \<notin> set Q" and "waiting S fd ev = Some ws \<Longrightarrow> direction ev \<Longrightarrow> ws_continuation ws \<noteq> h"
proof -
  show "h \<notin> set Q" using wait_pointD(2) [OF assms(1), of h] assms(2) by (auto simp: inert_def queued_ok_def)
  show "ws_continuation ws \<noteq> h" if "waiting S fd ev = Some ws" "direction ev"
    using wait_pointD(5) [OF assms(1) that] assms(2) by (auto simp: inert_def)
qed

lemma wait_inv_inert:
  assumes inv: "wait_inv b F R Q S" and h: "inert R h (point_of F h)" and new: "inert R h (point_of F' h)"
    and same: "\<And>x. x \<noteq> h \<Longrightarrow> point_of F' x = point_of F x"
  shows "wait_inv b F' R Q S"
proof -
  note D = wait_pointD [OF inv] and U = inert_unused [OF inv h]
  show ?thesis
  proof (rule wait_pointI)
    fix x fd ev ws aw
    show "distinct Q" by (rule D(1))
    show "x \<noteq> b \<and> (\<exists>p. point_of F' x = Some p \<and> queued_ok R x p)" if "x \<in> set Q"
    proof -
      have "x \<noteq> h" using that U(1) by blast
      from same [OF this] D(2) [OF that] show ?thesis by simp
    qed
    show "x \<in> set Q" if "point_of F' x = Some At_yield \<or> point_of F' x = Some At_start \<and> x |\<in>| R"
      using that same [of x] D(3) [of x] new by (cases "x = h") (auto simp: inert_def)
    show "direction (aw_event aw) \<and> (x = b \<or> x \<in> set Q \<or>
         (\<exists>ws. waiting S (aw_fd aw) (aw_event aw) = Some ws \<and> ws_continuation ws = x))"
      if "point_of F' x = Some (At_wait aw)"
      using that same [of x] D(4) [of x aw] new by (cases "x = h") (simp_all add: inert_def)
    show "ws_result ws = ws_continuation ws \<and> ws_continuation ws \<notin> set Q \<and> ws_continuation ws \<noteq> b \<and>
        (\<exists>aw. point_of F' (ws_continuation ws) = Some (At_wait aw) \<and> aw_fd aw = fd \<and> aw_event aw = ev)"
      if "waiting S fd ev = Some ws" "direction ev"
      using same [OF U(2) [OF that]] D(5) [OF that] by simp
  qed
qed

text \<open>A frame is queued: it yields, or it becomes a root.\<close>

lemma wait_inv_queue:
  assumes inv: "wait_inv b F R Q S" and h: "inert R h (point_of F h)" and "h \<noteq> b"
    and new: "point_of F' h = Some p" "p = At_yield \<or> p = At_start \<and> h |\<in>| R'"
    and same: "\<And>x. x \<noteq> h \<Longrightarrow> point_of F' x = point_of F x" and R: "\<And>x. x \<noteq> h \<Longrightarrow> x |\<in>| R' \<longleftrightarrow> x |\<in>| R"
  shows "wait_inv b F' R' (Q @ [h]) S"
proof -
  note D = wait_pointD [OF inv] and U = inert_unused [OF inv h]
  show ?thesis
  proof (rule wait_pointI)
    fix x fd ev ws aw
    show "distinct (Q @ [h])" using D(1) U(1) by simp
    show "x \<noteq> b \<and> (\<exists>p. point_of F' x = Some p \<and> queued_ok R' x p)" if "x \<in> set (Q @ [h])"
    proof (cases "x = h")
      case True
      with new assms(3) show ?thesis by (auto simp: queued_ok_def)
    next
      case False
      with that D(2) [of x] same [OF False] R [OF False] show ?thesis by (auto simp: queued_ok_def)
    qed
    show "x \<in> set (Q @ [h])" if "point_of F' x = Some At_yield \<or> point_of F' x = Some At_start \<and> x |\<in>| R'"
      using that D(3) [of x] same [of x] R [of x] by (cases "x = h") auto
    show "direction (aw_event aw) \<and> (x = b \<or> x \<in> set (Q @ [h]) \<or>
         (\<exists>ws. waiting S (aw_fd aw) (aw_event aw) = Some ws \<and> ws_continuation ws = x))"
      if "point_of F' x = Some (At_wait aw)"
      using that D(4) [of x aw] same [of x] new by (cases "x = h") auto
    show "ws_result ws = ws_continuation ws \<and> ws_continuation ws \<notin> set (Q @ [h]) \<and> ws_continuation ws \<noteq> b \<and>
        (\<exists>aw. point_of F' (ws_continuation ws) = Some (At_wait aw) \<and> aw_fd aw = fd \<and> aw_event aw = ev)"
      if "waiting S fd ev = Some ws" "direction ev"
      using same [OF U(2) [OF that]] U(2) [OF that] D(5) [OF that] by simp
  qed
qed

text \<open>A frame suspends in an awaiter before the wait is armed, and goes on when arming throws.\<close>

lemma wait_inv_before_arm:
  assumes inv: "wait_inv 0 F R Q S" and h: "inert R h (point_of F h)"
    and new: "point_of F' h = Some (At_wait aw)" "direction (aw_event aw)"
    and same: "\<And>x. x \<noteq> h \<Longrightarrow> point_of F' x = point_of F x" and null: "point_of F 0 = None"
  shows "wait_inv h F' R Q S"
proof -
  note D = wait_pointD [OF inv] and U = inert_unused [OF inv h]
  show ?thesis
  proof (rule wait_pointI)
    fix x fd ev ws aw'
    show "distinct Q" by (rule D(1))
    show "x \<noteq> h \<and> (\<exists>p. point_of F' x = Some p \<and> queued_ok R x p)" if "x \<in> set Q"
    proof -
      have "x \<noteq> h" using that U(1) by blast
      with D(2) [OF that] same [OF this] show ?thesis by simp
    qed
    show "x \<in> set Q" if "point_of F' x = Some At_yield \<or> point_of F' x = Some At_start \<and> x |\<in>| R"
      using that D(3) [of x] same [of x] new by (cases "x = h") auto
    show "direction (aw_event aw') \<and> (x = h \<or> x \<in> set Q \<or>
         (\<exists>ws. waiting S (aw_fd aw') (aw_event aw') = Some ws \<and> ws_continuation ws = x))"
      if "point_of F' x = Some (At_wait aw')"
    proof (cases "x = h")
      case True
      with that new show ?thesis by simp
    next
      case False
      with that same have "point_of F x = Some (At_wait aw')" by simp
      with D(4) [OF this] null show ?thesis by (cases "x = 0") auto
    qed
    show "ws_result ws = ws_continuation ws \<and> ws_continuation ws \<notin> set Q \<and> ws_continuation ws \<noteq> h \<and>
        (\<exists>aw. point_of F' (ws_continuation ws) = Some (At_wait aw) \<and> aw_fd aw = fd \<and> aw_event aw = ev)"
      if "waiting S fd ev = Some ws" "direction ev"
      using same [OF U(2) [OF that]] U(2) [OF that] D(5) [OF that] by simp
  qed
qed

lemma wait_inv_arm_failed:
  assumes inv: "wait_inv h F R Q S" and new: "point_of F' h = Some Executing"
    and same: "\<And>x. x \<noteq> h \<Longrightarrow> point_of F' x = point_of F x" and null: "point_of F 0 = None"
  shows "wait_inv 0 F' R Q S"
proof -
  note D = wait_pointD [OF inv]
  show ?thesis
  proof (rule wait_pointI)
    fix x fd ev ws aw
    show "distinct Q" by (rule D(1))
    show "x \<noteq> 0 \<and> (\<exists>p. point_of F' x = Some p \<and> queued_ok R x p)" if "x \<in> set Q"
      using D(2) [OF that] same [of x] null by (cases "x = 0") auto
    show "x \<in> set Q" if "point_of F' x = Some At_yield \<or> point_of F' x = Some At_start \<and> x |\<in>| R"
      using that D(3) [of x] same [of x] new by (cases "x = h") auto
    show "direction (aw_event aw) \<and> (x = 0 \<or> x \<in> set Q \<or>
         (\<exists>ws. waiting S (aw_fd aw) (aw_event aw) = Some ws \<and> ws_continuation ws = x))"
      if "point_of F' x = Some (At_wait aw)"
      using that D(4) [of x aw] same [of x] new by (cases "x = h") auto
    show "ws_result ws = ws_continuation ws \<and> ws_continuation ws \<notin> set Q \<and> ws_continuation ws \<noteq> 0 \<and>
        (\<exists>aw. point_of F' (ws_continuation ws) = Some (At_wait aw) \<and> aw_fd aw = fd \<and> aw_event aw = ev)"
      if "waiting S fd ev = Some ws" "direction ev"
      using same [of "ws_continuation ws"] D(5) [OF that] null by (cases "ws_continuation ws = 0") auto
  qed
qed

lemma wait_inv_resume:
  assumes inv: "wait_inv b F R (h # Q) S" and new: "point_of F' h = Some Executing"
    and same: "\<And>x. x \<noteq> h \<Longrightarrow> point_of F' x = point_of F x"
  shows "wait_inv b F' R Q S"
proof -
  note D = wait_pointD [OF inv]
  show ?thesis
  proof (rule wait_pointI)
    fix x fd ev ws aw
    show "distinct Q" using D(1) by simp
    show "x \<noteq> b \<and> (\<exists>p. point_of F' x = Some p \<and> queued_ok R x p)" if "x \<in> set Q"
    proof -
      have "x \<noteq> h" using that D(1) by auto
      with D(2) [of x] that same [OF this] show ?thesis by simp
    qed
    show "x \<in> set Q" if "point_of F' x = Some At_yield \<or> point_of F' x = Some At_start \<and> x |\<in>| R"
      using that D(3) [of x] same [of x] new by (cases "x = h") auto
    show "direction (aw_event aw) \<and> (x = b \<or> x \<in> set Q \<or>
         (\<exists>ws. waiting S (aw_fd aw) (aw_event aw) = Some ws \<and> ws_continuation ws = x))"
      if "point_of F' x = Some (At_wait aw)"
      using that D(4) [of x aw] same [of x] new by (cases "x = h") auto
    show "ws_result ws = ws_continuation ws \<and> ws_continuation ws \<notin> set Q \<and> ws_continuation ws \<noteq> b \<and>
        (\<exists>aw. point_of F' (ws_continuation ws) = Some (At_wait aw) \<and> aw_fd aw = fd \<and> aw_event aw = ev)"
      if "waiting S fd ev = Some ws" "direction ev"
      using same [of "ws_continuation ws"] D(5) [OF that] by auto
  qed
qed

section \<open>Operations inside and outside of coroutines\<close>

text \<open>\<open>M\<close> are the tasks held outside of coroutines; outside of coroutines they are in the state.\<close>

definition outside :: "handle \<Rightarrow> handle list \<Rightarrow> ('k, 'v, 'm) run_world_scheme \<Rightarrow> handle list" where
  "outside x M w = (if x = 0 then rw_main w else M)"

abbreviation client_inv :: "handle \<Rightarrow> handle list \<Rightarrow> ('k, 'v, 'm) run_world_scheme \<Rightarrow> bool" where
  "client_inv x M w \<equiv> io_inv x (outside x M w) w"

lemma client_inv_unfold:
  "client_inv x M w \<longleftrightarrow>
     heap_inv x (outside x M w) (io_frames w) (io_roots w) (io_next_addr w) \<and>
     wait_inv 0 (io_frames w) (io_roots w) (io_ready w) (io_fd_states w) \<and>
     io_completed_head w = 0 \<and>
     reg_inv None (io_fd_states w) (lp_channels w) (io_next_addr w)"
  by (simp add: inv_but_def core_inv_def)

lemma outside_simps [simp]:
  "outside x M (w\<lparr>io_frames := F\<rparr>) = outside x M w" "outside x M (w\<lparr>io_next_addr := n\<rparr>) = outside x M w"
  "outside x M (w\<lparr>io_roots := R\<rparr>) = outside x M w" "outside x M (w\<lparr>io_ready := q\<rparr>) = outside x M w"
  "outside x M (w\<lparr>rw_log := l\<rparr>) = outside x M w" "outside x M (w\<lparr>io_stop_requested := b\<rparr>) = outside x M w"
  by (simp_all add: outside_def)

lemma held_outside: "held x w = tasks_of (outside x M w) (io_frames w) x"
  by (simp add: held_def outside_def tasks_of_def)

lemma inv_but_client [simp]:
  "inv_but b f x M (w\<lparr>rw_log := l\<rparr>) = inv_but b f x M w"
  "inv_but b f x M (w\<lparr>rw_script := as\<rparr>) = inv_but b f x M w"
  by (simp_all add: inv_but_def core_inv_def)

lemma wp_note_log [simp]: "wp (note_log x r) Q E w = Q () (w\<lparr>rw_log := rw_log w @ [(x, r)]\<rparr>)"
  by (simp add: note_log_def)

lemma set_held_simps [simp]:
  "io_roots (set_held x ts w) = io_roots w" "io_ready (set_held x ts w) = io_ready w"
  "io_fd_states (set_held x ts w) = io_fd_states w" "io_next_addr (set_held x ts w) = io_next_addr w"
  "io_completed_head (set_held x ts w) = io_completed_head w" "lp_channels (set_held x ts w) = lp_channels w"
  by (simp_all add: set_held_def split: prod.split)

lemma set_held_set_tasks:
  "set_tasks x ts (rw_main w) (io_frames w) = (rw_main (set_held x ts w), io_frames (set_held x ts w))"
  by (simp add: set_held_def split: prod.split)

lemma set_held_outside:
  "set_tasks x ts (outside x M w) (io_frames w) = (outside x M (set_held x ts w), io_frames (set_held x ts w))"
  by (simp add: set_held_def outside_def set_tasks_def)

lemma set_held_points: "point_of (io_frames (set_held x ts w)) h = point_of (io_frames w) h"
  by (simp add: point_of_def set_tasks_lookup [OF set_held_set_tasks] option.map_comp comp_def)

lemma heap_inv_null: "heap_inv cur M F R N \<Longrightarrow> point_of F 0 = None"
  using heap_invD(2) [of cur M F R N 0] by (cases "fmlookup F 0") (auto simp: point_of_def frame_ok_def)

lemma heap_inv_fresh: "heap_inv cur M F R N \<Longrightarrow> fmlookup F N = None \<and> N |\<notin>| R"
  using heap_invD(2) [of cur M F R N N] heap_invD(3) [of cur M F R N N]
  by (cases "fmlookup F N") (auto simp: frame_ok_def)

lemma wp_call_coroutine:
  assumes inv: "client_inv x M w"
  shows "wp (call_coroutine x void fds) (\<lambda>_. client_inv x M) (\<lambda>_ _. False) w"
proof -
  let ?N = "io_next_addr w" and ?w = "set_held x (held x w @ [io_next_addr w]) w"
  let ?F = "fmupd ?N (frame_new void fds) (io_frames ?w)"
  from inv have heap: "heap_inv x (outside x M w) (io_frames w) (io_roots w) ?N" by (simp add: client_inv_unfold)
  have "heap_inv x (outside x M ?w) ?F (io_roots w) (Suc ?N)"
    by (rule heap_inv_create [OF heap]) (simp add: held_outside [of x w M] set_held_outside)
  moreover have "wait_inv 0 ?F (io_roots w) (io_ready w) (io_fd_states w)"
  proof (rule wait_inv_inert [where h = ?N])
    show "wait_inv 0 (io_frames w) (io_roots w) (io_ready w) (io_fd_states w)" using inv by (simp add: client_inv_unfold)
  qed (use heap_inv_fresh [OF heap] in \<open>auto simp: inert_def set_held_points frame_new_def point_of_def [of "io_frames w"]\<close>)
  moreover have "reg_inv None (io_fd_states w) (lp_channels w) (Suc ?N)"
    using inv reg_inv_mono [of None "io_fd_states w" "lp_channels w" ?N "Suc ?N"] by (simp add: client_inv_unfold)
  moreover have "io_completed_head w = 0" using inv by (simp add: client_inv_unfold)
  ultimately show ?thesis by (simp add: call_coroutine_def Let_def wp_def note_log_def client_inv_unfold)
qed

text \<open>What is known of a held task once it has been taken.\<close>

lemma taken:
  assumes inv: "client_inv x M w" and t: "t \<in> set (held x w)" and w': "w' = set_held x (remove1 t (held x w)) w"
  obtains ft where "fmlookup (io_frames w') t = Some ft" and "fr_point ft = At_start" and "fr_tasks ft = []"
    and "t \<noteq> 0" and "t \<noteq> x" and "t |\<notin>| io_roots w"
    and "wait_inv 0 (io_frames w') (io_roots w) (io_ready w) (io_fd_states w)"
    and "inert (io_roots w) t (point_of (io_frames w') t)"
proof -
  from inv have heap: "heap_inv x (outside x M w) (io_frames w) (io_roots w) (io_next_addr w)"
    and wait: "wait_inv 0 (io_frames w) (io_roots w) (io_ready w) (io_fd_states w)"
    by (simp_all add: client_inv_unfold)
  note K = take_task [OF heap t [unfolded held_outside [of x w M]] set_held_outside
      [of x "remove1 t (tasks_of (outside x M w) (io_frames w) x)"]]
  note w'' = w' [unfolded held_outside [of x w M], symmetric]
  from K(8) obtain ft where ft: "fmlookup (io_frames w') t = Some ft" "fr_point ft = At_start" "fr_tasks ft = []"
    unfolding w'' by blast
  moreover have "wait_inv 0 (io_frames w') (io_roots w) (io_ready w) (io_fd_states w)"
    by (rule wait_inv_same_points [OF wait]) (simp add: w' set_held_points)
  moreover have "inert (io_roots w) t (point_of (io_frames w') t)" using ft K(9) by (simp add: inert_def point_of_def)
  ultimately show ?thesis using that K(9) by blast
qed

lemma wp_spawn_held:
  assumes inv: "client_inv x M w" and t: "t \<in> set (held x w)"
  shows "wp (ebind (take_held x t) (\<lambda>_. attempt x (spawn os t))) (\<lambda>_. client_inv x M) (\<lambda>_ _. False) w"
proof -
  define w' where "w' = set_held x (remove1 t (held x w)) w"
  from inv t w'_def obtain ft where ft: "fmlookup (io_frames w') t = Some ft" "fr_point ft = At_start"
    and t0: "t \<noteq> 0" "t |\<notin>| io_roots w" and wait: "wait_inv 0 (io_frames w') (io_roots w) (io_ready w) (io_fd_states w)"
    and inert: "inert (io_roots w) t (point_of (io_frames w') t)"
    by (rule taken) blast
  let ?F = "fmupd t (ft\<lparr>fr_completion := True\<rparr>) (io_frames w')"
  have heap: "heap_inv x (outside x M w) (io_frames w) (io_roots w) (io_next_addr w)" using inv by (simp add: client_inv_unfold)
  have "heap_inv x (outside x M w') ?F (finsert t (io_roots w)) (io_next_addr w)"
    by (rule heap_inv_spawn [OF heap _ _ ft(1)]) (use t in \<open>simp_all add: held_outside [of x w M] w'_def set_held_outside\<close>)
  moreover have "wait_inv 0 ?F (finsert t (io_roots w)) (io_ready w @ [t]) (io_fd_states w)"
    by (rule wait_inv_queue [OF wait inert t0(1), where p = At_start]) (use ft in simp_all)
  moreover have "spawn os t w' = (Inr (), w'\<lparr>io_frames := ?F, io_roots := finsert t (io_roots w), io_ready := io_ready w @ [t]\<rparr>)"
    using t0 ft(1) by (simp add: spawn_def task_valid_def set_completion_def on_heap_def set_frame_def ebind_def w'_def)
  ultimately show ?thesis
    using inv by (simp add: wp_def take_held_def attempt_def note_log_def client_inv_unfold w'_def [symmetric])
      (simp add: w'_def)
qed

interpretation main: executor_order "\<lambda>w w' :: ('k, 'v, 'm) run_world_scheme. rw_main w' = rw_main w"
  by unfold_locales simp_all

lemma main_cancel_all: "preserves rw_main (cancel_all os fds)"
  unfolding preserves_within by (rule main.w_cancel_all)

lemma wp_client:
  assumes "wp m (\<lambda>_. inv_but b f x (outside x M w)) E w" and "preserves rw_main m"
  shows "wp m (\<lambda>_ w'. inv_but b f x (outside x M w') w') E w"
  using wp_preserves [OF assms] by (rule wp_conseq) (auto simp: outside_def)

lemma wp_drop_task:
  assumes inv: "client_inv x M w" and t: "t \<in> set (held x w)"
  shows "wp (drop_task os x t) (\<lambda>_. client_inv x M) (\<lambda>_ _. False) w"
proof -
  define w' where "w' = set_held x (remove1 t (held x w)) w"
  from inv t w'_def obtain ft where ft: "fmlookup (io_frames w') t = Some ft" "fr_point ft = At_start" "fr_tasks ft = []"
    and t0: "t |\<notin>| io_roots w" and wait: "wait_inv 0 (io_frames w') (io_roots w) (io_ready w) (io_fd_states w)"
    by (rule taken) blast
  let ?F = "fmdrop t (io_frames w')"
  have heap: "heap_inv x (outside x M w) (io_frames w) (io_roots w) (io_next_addr w)" using inv by (simp add: client_inv_unfold)
  have "heap_inv x (outside x M w') ?F (io_roots w) (io_next_addr w)"
    by (rule heap_inv_drop [OF heap]) (use t in \<open>simp_all add: held_outside [of x w M] w'_def set_held_outside\<close>)
  moreover have "wait_inv 0 ?F (io_roots w |-| {|t|}) (io_ready w) (io_fd_states w)"
    using wait_inv_drop [OF wait ft(1)] ft(2) t0 by simp
  moreover have "io_roots w |-| {|t|} = io_roots w" using t0 by blast
  ultimately have "inv_but 0 None x (outside x M w') (w'\<lparr>io_frames := ?F\<rparr>)"
    using inv by (simp add: inv_but_def core_inv_def) (simp add: w'_def)
  then have "client_inv x M (w'\<lparr>io_frames := ?F\<rparr>)" by simp
  from wp_client [OF wp_cancel_all [OF this, of os "fr_fds ft"] main_cancel_all] show ?thesis
    using destroy_single [OF ft(1), of os] ft(2,3)
    by (simp add: drop_task_def take_held_def w'_def [symmetric] owned_def wp_def)
qed

lemma wp_shared:
  assumes inv: "client_inv x M w"
  shows "wp (shared os x a) (\<lambda>_. client_inv x M) (\<lambda>_ _. False) w"
proof (cases a)
  case (A_call void fds)
  with wp_call_coroutine [OF inv] show ?thesis by (simp add: wp_def)
next
  case (A_spawn t)
  have "wp (attempt x (spawn os 0)) (\<lambda>_. client_inv x M) (\<lambda>_ _. False) w"
    using inv by (simp add: attempt_def wp_ecatch wp_ebind spawn_def task_valid_def)
  with A_spawn inv wp_spawn_held [OF inv, of t os] show ?thesis by (simp add: wp_def)
next
  case (A_drop t)
  with inv wp_drop_task [OF inv, of t os] show ?thesis by (simp add: wp_def)
next
  case (A_cancel fd)
  have "wp (cancel os fd) (\<lambda>_. client_inv x M) (\<lambda>_ _. False) w"
    by (rule wp_client [OF wp_cancel [OF inv]]) (unfold preserves_within, rule main.w_cancel)
  with A_cancel show ?thesis by (simp add: wp_def)
qed (use inv in \<open>simp_all add: wp_def stop_def\<close>)

section \<open>Coroutines\<close>

lemma executing:
  assumes "heap_inv x M F R N" and "x \<noteq> 0"
  obtains fx where "fmlookup F x = Some fx" and "fr_point fx = Executing" and "fr_completion fx \<longleftrightarrow> x |\<in>| R"
    and "tasks_of M F x = fr_tasks fx"
proof -
  obtain fx where fx: "fmlookup F x = Some fx" using heap_invD(4) [OF assms(1,2)] by blast
  with heap_invD(2) [OF assms(1) fx] assms(2) that show ?thesis by (simp add: frame_ok_def tasks_of_def)
qed

lemma set_point_at: "fmlookup (io_frames w) x = Some fx \<Longrightarrow>
    set_point x p w = (Inr (), w\<lparr>io_frames := fmupd x (fx\<lparr>fr_point := p\<rparr>) (io_frames w)\<rparr>)"
  by (simp add: set_point_def on_heap_def set_frame_def)

text \<open>The code of a coroutine stops at a yield, in an awaiter of the client, or in an fd wait.\<close>

lemma heap_inv_suspend:
  assumes "heap_inv x M F R N" and "x \<noteq> 0" and "fmlookup F x = Some fx"
    and "p = At_yield \<or> p = At_park \<or> (\<exists>aw. p = At_wait aw)"
  shows "heap_inv 0 M (fmupd x (fx\<lparr>fr_point := p\<rparr>) F) R N"
proof -
  have "fr_point fx = Executing" using heap_invD(2) [OF assms(1,3)] assms(2) by (simp add: frame_ok_def)
  with assms(4) show ?thesis by (intro heap_inv_point [OF assms(1,3)]) auto
qed

definition coroutine_step :: "handle list \<Rightarrow> control \<Rightarrow> ('k, 'v, 'm) run_world_scheme \<Rightarrow> bool" where
  "coroutine_step M c w = (case c of Go_on y \<Rightarrow> y \<noteq> 0 \<and> io_inv y M w | Back \<Rightarrow> settled M w)"

lemma wp_yield:
  assumes inv: "io_inv x M w" and x: "x \<noteq> 0"
  shows "wp (act os x A_yield) (coroutine_step M) (\<lambda>_ _. False) w"
proof -
  from inv have heap: "heap_inv x M (io_frames w) (io_roots w) (io_next_addr w)"
    and wait: "wait_inv 0 (io_frames w) (io_roots w) (io_ready w) (io_fd_states w)"
    by (simp_all add: inv_but_def core_inv_def)
  obtain fx where fx: "fmlookup (io_frames w) x = Some fx" "fr_point fx = Executing" using executing [OF heap x] by metis
  let ?F = "fmupd x (fx\<lparr>fr_point := At_yield\<rparr>) (io_frames w)"
  have "heap_inv 0 M ?F (io_roots w) (io_next_addr w)" by (rule heap_inv_suspend [OF heap x fx(1)]) simp
  moreover have "wait_inv 0 ?F (io_roots w) (io_ready w @ [x]) (io_fd_states w)"
    by (rule wait_inv_queue [OF wait _ x, where p = At_yield]) (use fx in \<open>simp_all add: inert_def point_of_def [of "io_frames w"]\<close>)
  ultimately have "io_inv 0 M (w\<lparr>io_frames := ?F, io_ready := io_ready w @ [x]\<rparr>)"
    using inv by (simp add: inv_but_def core_inv_def)
  then show ?thesis
    using x fx(1)
    by (simp add: wp_def set_point_at schedule_def is_done_def coroutine_done_def ebind_def coroutine_step_def settled_def)
qed

lemma wp_park:
  assumes inv: "io_inv x M w" and x: "x \<noteq> 0"
  shows "wp (act os x A_park) (coroutine_step M) (\<lambda>_ _. False) w"
proof -
  from inv have heap: "heap_inv x M (io_frames w) (io_roots w) (io_next_addr w)"
    and wait: "wait_inv 0 (io_frames w) (io_roots w) (io_ready w) (io_fd_states w)"
    by (simp_all add: inv_but_def core_inv_def)
  obtain fx where fx: "fmlookup (io_frames w) x = Some fx" "fr_point fx = Executing" using executing [OF heap x] by metis
  let ?F = "fmupd x (fx\<lparr>fr_point := At_park\<rparr>) (io_frames w)"
  have "heap_inv 0 M ?F (io_roots w) (io_next_addr w)" by (rule heap_inv_suspend [OF heap x fx(1)]) simp
  moreover have "wait_inv 0 ?F (io_roots w) (io_ready w) (io_fd_states w)"
    by (rule wait_inv_inert [OF wait, where h = x]) (use fx in \<open>simp_all add: inert_def point_of_def [of "io_frames w"]\<close>)
  ultimately have "io_inv 0 M (w\<lparr>io_frames := ?F\<rparr>)"
    using inv by (simp add: inv_but_def core_inv_def)
  then show ?thesis by (simp add: wp_def set_point_at [OF fx(1)] coroutine_step_def settled_def)
qed

text \<open>Arming the wait threw: the coroutine goes on with the exception.\<close>

lemma wp_unwait:
  assumes inv: "inv_but x None 0 M w" and fx: "fmlookup (io_frames w) x = Some fx" "fr_point fx = At_wait aw"
  shows "wp (ebind (set_point x Executing) (\<lambda>_. ebind (note_log x r) (\<lambda>_. eret (Go_on x)))) (coroutine_step M) (\<lambda>_ _. False) w"
proof -
  from inv have heap: "heap_inv 0 M (io_frames w) (io_roots w) (io_next_addr w)"
    and wait: "wait_inv x (io_frames w) (io_roots w) (io_ready w) (io_fd_states w)"
    by (simp_all add: inv_but_def core_inv_def)
  let ?F = "fmupd x (fx\<lparr>fr_point := Executing\<rparr>) (io_frames w)"
  have x: "x \<noteq> 0" using heap_invD(2) [OF heap fx(1)] by (simp add: frame_ok_def)
  have "heap_inv x M ?F (io_roots w) (io_next_addr w)" by (rule heap_inv_point [OF heap fx(1)]) (use fx in simp_all)
  moreover have "wait_inv 0 ?F (io_roots w) (io_ready w) (io_fd_states w)"
    by (rule wait_inv_arm_failed [OF wait]) (use heap_inv_null [OF heap] in simp_all)
  ultimately have "io_inv x M (w\<lparr>io_frames := ?F\<rparr>)" using inv by (simp add: inv_but_def core_inv_def)
  with x show ?thesis by (simp add: wp_def set_point_at [OF fx(1)] note_log_def ebind_def coroutine_step_def)
qed

lemma unarmed_waiting:
  assumes "unarmed x w w'" and "fmlookup (io_frames w) x = Some fx" and "fr_point fx = At_wait aw"
  obtains fx' aw' where "fmlookup (io_frames w') x = Some fx'" and "fr_point fx' = At_wait aw'"
  using assms by (auto simp: unarmed_def set_ready_def)

lemma wp_wait:
  assumes inv: "io_inv x M w" and x: "x \<noteq> 0"
  shows "wp (act os x (A_wait fd ev timeout)) (coroutine_step M) (\<lambda>_ _. False) w"
proof (cases "direction ev")
  case False
  with inv x show ?thesis by (simp add: wp_def coroutine_step_def)
next
  case True
  from inv have heap: "heap_inv x M (io_frames w) (io_roots w) (io_next_addr w)"
    and wait: "wait_inv 0 (io_frames w) (io_roots w) (io_ready w) (io_fd_states w)"
    by (simp_all add: inv_but_def core_inv_def)
  obtain fx where fx: "fmlookup (io_frames w) x = Some fx" "fr_point fx = Executing" using executing [OF heap x] by metis
  define aw where "aw = \<lparr>aw_fd = fd, aw_event = ev, aw_timeout = timeout, aw_ready = False\<rparr>"
  define w1 where "w1 = w\<lparr>io_frames := fmupd x (fx\<lparr>fr_point := At_wait aw\<rparr>) (io_frames w)\<rparr>"
  let ?fail = "\<lambda>e. ebind (set_point x Executing) (\<lambda>_. ebind (note_log x (R_exn e)) (\<lambda>_. eret (Go_on x)))"
  have "heap_inv 0 M (io_frames w1) (io_roots w) (io_next_addr w)"
    unfolding w1_def by (simp, rule heap_inv_suspend [OF heap x fx(1)]) simp
  moreover have "wait_inv x (io_frames w1) (io_roots w) (io_ready w) (io_fd_states w)"
    by (rule wait_inv_before_arm [OF wait, where aw = aw])
       (use fx True heap_inv_null [OF heap] in \<open>simp_all add: w1_def aw_def inert_def point_of_def [of "io_frames w"]\<close>)
  ultimately have inv1: "inv_but x None 0 M w1" using inv by (simp add: inv_but_def core_inv_def w1_def)
  have fx1: "fmlookup (io_frames w1) x = Some (fx\<lparr>fr_point := At_wait aw\<rparr>)" by (simp add: w1_def)
  have fail: "wp (?fail e) (coroutine_step M) (\<lambda>_ _. False) w2" if u: "unarmed x w1 w2" for e w2
    by (rule unarmed_waiting [OF u fx1]) (auto intro: wp_unwait [OF inv_unarmed [OF inv1 u]])
  have "wp (arm_wait os fd ev timeout x x) (\<lambda>_. io_inv 0 M) (\<lambda>_. unarmed x w1) w1"
    by (rule wp_conseq [OF wp_arm_wait [OF inv1 fx1, where aw = aw and fd = fd and ev = ev]]) (simp_all add: aw_def)
  then have "wp (ebind (arm_wait os fd ev timeout x x) (\<lambda>_. eret Back)) (coroutine_step M) (\<lambda>_. unarmed x w1) w1"
    by (rule wp_bindI) (simp add: coroutine_step_def settled_def)
  then have "wp (ecatch (ebind (arm_wait os fd ev timeout x x) (\<lambda>_. eret Back)) ?fail) (coroutine_step M) (\<lambda>_ _. False) w1"
    unfolding wp_ecatch by (rule wp_conseq) (use fail in simp_all)
  with True show ?thesis by (simp add: wp_def set_point_at [OF fx(1)] w1_def aw_def)
qed

section \<open>Awaiting tasks\<close>

lemma wp_await_held:
  assumes inv: "io_inv x M w" and x: "x \<noteq> 0" and t: "t \<in> set (held x w)"
  shows "wp (ebind (take_held x t) (\<lambda>_. enter_await os x t)) (coroutine_step M) (\<lambda>_ _. False) w"
proof -
  define w' where "w' = set_held x (remove1 t (held x w)) w"
  have inv': "client_inv x M w" using inv x by (simp add: outside_def)
  from inv' t w'_def obtain ft where ft: "fmlookup (io_frames w') t = Some ft" "fr_point ft = At_start"
    and t0: "t \<noteq> 0" "t \<noteq> x" "t |\<notin>| io_roots w"
    and wait: "wait_inv 0 (io_frames w') (io_roots w) (io_ready w) (io_fd_states w)"
    and inert: "inert (io_roots w) t (point_of (io_frames w') t)"
    by (rule taken) blast
  have heap: "heap_inv x (outside x M w) (io_frames w) (io_roots w) (io_next_addr w)" using inv' by (simp add: client_inv_unfold)
  obtain fo where fo: "fmlookup (io_frames w) x = Some fo" "fr_point fo = Executing" using executing [OF heap x] by metis
  then obtain fx where fx: "fmlookup (io_frames w') x = Some fx"
    using x by (simp add: w'_def set_tasks_lookup [OF set_held_set_tasks])
  have px: "point_of (io_frames w') x = Some Executing"
    using fo by (simp add: w'_def set_held_points) (simp add: point_of_def)
  have M': "outside x M w' = M" using x by (simp add: outside_def)
  let ?F1 = "fmupd x (fx\<lparr>fr_point := At_await t\<rparr>) (io_frames w')"
  let ?F = "fmupd t (ft\<lparr>fr_continuation := x, fr_point := Executing\<rparr>) ?F1"
  have "heap_inv t M ?F (io_roots w) (io_next_addr w)"
    by (rule heap_inv_await [OF heap _ x _ fx ft(1)])
       (use t M' in \<open>simp_all add: held_outside [of x w M] w'_def set_held_outside\<close>)
  moreover have "wait_inv 0 ?F1 (io_roots w) (io_ready w) (io_fd_states w)"
    by (rule wait_inv_inert [OF wait, where h = x]) (use px in \<open>simp_all add: inert_def\<close>)
  then have "wait_inv 0 ?F (io_roots w) (io_ready w) (io_fd_states w)"
    by (rule wait_inv_inert [where h = t]) (use inert t0 in \<open>simp_all add: inert_def\<close>)
  ultimately have step: "io_inv t M (w'\<lparr>io_frames := ?F\<rparr>)"
    using inv by (simp add: inv_but_def core_inv_def) (simp add: w'_def)
  have "enter_await os x t w' =
      (Inr (Go_on t), w'\<lparr>io_frames := ?F, rw_log := rw_log w' @ [(t, R_called)]\<rparr>)"
    using t0 ft fx
    by (simp add: enter_await_def await_ready_def coroutine_done_def set_point_at [OF fx] await_suspend_def set_frame_def
        on_heap_def resume_frame_def ebind_def note_log_def)
  with step t0 show ?thesis
    by (simp add: wp_def take_held_def w'_def [symmetric] coroutine_step_def)
qed

lemma wp_await_empty:
  assumes inv: "io_inv x M w" and x: "x \<noteq> 0" and none: "0 \<notin> set (held x w)"
  shows "wp (ebind (take_held x 0) (\<lambda>_. enter_await os x 0)) (coroutine_step M) (\<lambda>_ _. False) w"
proof -
  have same: "set_held x (remove1 0 (held x w)) w = w"
  proof -
    obtain fx where "fmlookup (io_frames w) x = Some fx" "held x w = fr_tasks fx"
      using inv x executing [of x M "io_frames w" "io_roots w" "io_next_addr w"]
      by (auto simp: inv_but_def core_inv_def held_outside [of x w M] outside_def)
    with x none show ?thesis by (simp add: set_held_def set_tasks_def remove1_idem fmupd_same)
  qed
  have "enter_await os x 0 w = (Inr (Go_on x), w\<lparr>rw_log := rw_log w @
      [(x, R_exn (Logic_error ''cannot await an empty Task''))]\<rparr>)"
    by (simp add: enter_await_def await_ready_def leave_await_def await_resume_def note_log_def ebind_def)
  with inv x show ?thesis by (simp add: wp_def take_held_def same coroutine_step_def)
qed

section \<open>The end of a coroutine\<close>

text \<open>\<open>f\<close> stores the result in the promise.\<close>

definition stores :: "('v frame \<Rightarrow> 'v frame) \<Rightarrow> bool" where
  "stores f \<longleftrightarrow> (\<forall>fr. fr_tasks (f fr) = fr_tasks fr \<and> fr_continuation (f fr) = fr_continuation fr \<and>
     fr_completion (f fr) = fr_completion fr \<and> fr_fds (f fr) = fr_fds fr \<and>
     (fr_exception fr = None \<longrightarrow> fr_exception (f fr) \<noteq> Some Undefined_behaviour))"

lemma wp_end_root:
  assumes inv: "io_inv x M w" and root: "x |\<in>| io_roots w" and f: "stores f"
    and fx: "fmlookup (io_frames w) x = Some fx" "fr_tasks fx = []"
  shows "wp (ebind (on_heap (set_frame x f)) (\<lambda>_. finish os x)) (coroutine_step M) (\<lambda>_ _. False) w"
proof -
  from inv have heap: "heap_inv x M (io_frames w) (io_roots w) (io_next_addr w)"
    and wait: "wait_inv 0 (io_frames w) (io_roots w) (io_ready w) (io_fd_states w)"
    and c0: "io_completed_head w = 0"
    by (simp_all add: inv_but_def core_inv_def)
  have ok: "x \<noteq> 0" "fr_point fx = Executing" "fr_completion fx" "fr_exception fx = None"
    using heap_invD(2) [OF heap fx(1)] root by (simp_all add: frame_ok_def)
  let ?fr = "(f fx)\<lparr>fr_point := At_final, fr_completed_next := 0\<rparr>"
  let ?w = "w\<lparr>io_frames := fmupd x ?fr (io_frames w), io_completed_head := x\<rparr>"
  have eq: "ebind (on_heap (set_frame x f)) (\<lambda>_. finish os x) w = (Inr Back, ?w)"
    using f fx ok c0
    by (simp add: stores_def finish_def set_point_def on_heap_def set_frame_def ebind_def final_suspend_def root_completed_def)
  have "heap_inv 0 M (fmdrop x (io_frames w)) (io_roots w |-| {|x|}) (io_next_addr w)"
    using heap_inv_end_root [OF heap root] fx ok by (simp add: tasks_of_def)
  moreover have "wait_inv 0 (fmdrop x (io_frames w)) (io_roots w |-| {|x|}) (io_ready w) (io_fd_states w)"
    using wait_inv_drop [OF wait fx(1)] ok by simp
  ultimately have "io_inv 0 M (without_root x ?w)"
    using inv by (simp add: inv_but_def core_inv_def without_root_def fmdrop_fmupd_same)
  then have "ended x M ?w" using f fx ok by (auto simp: ended_def stores_def)
  then show ?thesis by (auto simp: wp_def eq coroutine_step_def settled_def)
qed

text \<open>
  The end of an awaited task: control goes to the coroutine \<open>p\<close> that awaits it, which gets the
  result stored in the promise.
\<close>

lemma end_child:
  assumes inv: "io_inv x M w" and child: "x |\<notin>| io_roots w" "x \<noteq> 0" and f: "stores f"
    and fx: "fmlookup (io_frames w) x = Some fx" "fr_tasks fx = []" and p: "p = fr_continuation fx"
    and r: "r = (case fr_exception (f fx) of Some e \<Rightarrow> R_exn e | None \<Rightarrow>
        if fr_void (f fx) then R_value None
        else case fr_value (f fx) of
          None \<Rightarrow> R_exn (Logic_error ''Task completed without a value'') | Some v \<Rightarrow> R_value (Some v))"
  obtains fp where "fmlookup (io_frames w) p = Some fp" and "fr_point fp = At_await x" and "p \<noteq> 0" and "p \<noteq> x"
    and "io_inv p M (w\<lparr>io_frames := fmupd p (fp\<lparr>fr_point := Executing\<rparr>) (fmdrop x (io_frames w)), rw_log := rw_log w @ [(p, r)]\<rparr>)"
    and "ebind (on_heap (set_frame x f)) (\<lambda>_. finish os x) w = ebind (cancel_all os (fr_fds fx)) (\<lambda>_. eret (Go_on p))
      (w\<lparr>io_frames := fmupd p (fp\<lparr>fr_point := Executing\<rparr>) (fmdrop x (io_frames w)), rw_log := rw_log w @ [(p, r)]\<rparr>)"
proof -
  from inv have heap: "heap_inv x M (io_frames w) (io_roots w) (io_next_addr w)"
    and wait: "wait_inv 0 (io_frames w) (io_roots w) (io_ready w) (io_fd_states w)"
    by (simp_all add: inv_but_def core_inv_def)
  have ok: "fr_point fx = Executing" "\<not> fr_completion fx" "fr_exception fx = None"
    using heap_invD(2) [OF heap fx(1)] child by (simp_all add: frame_ok_def)
  obtain fp where fp: "fmlookup (io_frames w) p = Some fp" "fr_point fp = At_await x" "p \<noteq> x" "p \<noteq> 0"
    and heap': "heap_inv p M (fmupd p (fp\<lparr>fr_point := Executing\<rparr>) (fmdrop x (io_frames w))) (io_roots w) (io_next_addr w)"
    using heap_inv_end_child [OF heap fx(1) child(1) fx(2) p [symmetric]] by blast
  let ?fr = "(f fx)\<lparr>fr_point := At_final\<rparr>" and ?fp = "fp\<lparr>fr_point := Executing\<rparr>"
  let ?F = "fmupd p ?fp (fmupd x ?fr (io_frames w))" and ?F' = "fmupd p ?fp (fmdrop x (io_frames w))"
  have drop: "fmdrop x ?F = ?F'" using fp(3) by (intro fmap_ext) simp
  obtain y where y: "await_resume x ?F = Inr y" "(case y of Inl e \<Rightarrow> R_exn e | Inr v \<Rightarrow> R_value v) = r"
    using child(2) fp(3) r by (auto simp: await_resume_def split: option.splits)
  let ?w = "w\<lparr>io_frames := ?F, rw_log := rw_log w @ [(p, r)]\<rparr>"
  have "ebind (on_heap (set_frame x f)) (\<lambda>_. finish os x) w = ebind (destroy os [x]) (\<lambda>_. eret (Go_on p)) ?w"
    using f fx ok fp y child(2)
    by (simp add: stores_def finish_def set_point_def on_heap_def set_frame_def ebind_def final_suspend_def p [symmetric]
        resume_frame_def leave_await_def note_log_def)
  moreover have "destroy os [x] ?w = cancel_all os (fr_fds fx) (?w\<lparr>io_frames := ?F'\<rparr>)"
    using destroy_single [of ?w x ?fr os] fp(3) f fx drop by (simp add: owned_def stores_def)
  moreover have "?w\<lparr>io_frames := ?F'\<rparr> = w\<lparr>io_frames := ?F', rw_log := rw_log w @ [(p, r)]\<rparr>" by simp
  moreover have "wait_inv 0 (fmdrop x (io_frames w)) (io_roots w) (io_ready w) (io_fd_states w)"
    using wait_inv_drop [OF wait fx(1)] ok(1) child(1) by (simp add: fminus_finsert_absorb)
  then have "wait_inv 0 ?F' (io_roots w) (io_ready w) (io_fd_states w)"
    by (rule wait_inv_inert [where h = p]) (use fp in \<open>simp_all add: inert_def point_of_def [of "io_frames w"]\<close>)
  with heap' inv have "io_inv p M (w\<lparr>io_frames := ?F', rw_log := rw_log w @ [(p, r)]\<rparr>)"
    by (simp add: inv_but_def core_inv_def)
  ultimately show ?thesis using that [OF fp(1,2,4,3)] by (simp add: ebind_def)
qed

lemma wp_end_child:
  assumes inv: "io_inv x M w" and child: "x |\<notin>| io_roots w" "x \<noteq> 0" and f: "stores f"
    and fx: "fmlookup (io_frames w) x = Some fx" "fr_tasks fx = []"
  shows "wp (ebind (on_heap (set_frame x f)) (\<lambda>_. finish os x)) (coroutine_step M) (\<lambda>_ _. False) w"
proof (rule end_child [OF assms refl refl, of os])
  fix fp r
  let ?p = "fr_continuation fx"
  let ?w = "w\<lparr>io_frames := fmupd ?p (fp\<lparr>fr_point := Executing\<rparr>) (fmdrop x (io_frames w)), rw_log := rw_log w @ [(?p, r)]\<rparr>"
  assume p: "?p \<noteq> 0" and inv': "io_inv ?p M ?w"
    and eq: "ebind (on_heap (set_frame x f)) (\<lambda>_. finish os x) w = ebind (cancel_all os (fr_fds fx)) (\<lambda>_. eret (Go_on ?p)) ?w"
  from wp_cancel_all [OF inv', of os "fr_fds fx"]
  have "wp (ebind (cancel_all os (fr_fds fx)) (\<lambda>_. eret (Go_on ?p))) (coroutine_step M) (\<lambda>_ _. False) ?w"
    by (rule wp_bindI) (use p in \<open>simp add: coroutine_step_def\<close>)
  with eq show ?thesis by (simp add: wp_def)
qed

lemma wp_finish:
  assumes inv: "io_inv x M w" and x: "x \<noteq> 0" and held: "held x w = []" and f: "stores f"
  shows "wp (ebind (on_heap (set_frame x f)) (\<lambda>_. finish os x)) (coroutine_step M) (\<lambda>_ _. False) w"
proof -
  have heap: "heap_inv x M (io_frames w) (io_roots w) (io_next_addr w)" using inv by (simp add: inv_but_def core_inv_def)
  obtain fx where fx: "fmlookup (io_frames w) x = Some fx" "tasks_of M (io_frames w) x = fr_tasks fx"
    using executing [OF heap x] by metis
  then have "fr_tasks fx = []" using held x by (simp add: held_outside [of x w M] outside_def)
  with fx inv x f show ?thesis by (cases "x |\<in>| io_roots w") (auto intro: wp_end_root wp_end_child)
qed

lemma wp_co_return:
  "io_inv x M w \<Longrightarrow> x \<noteq> 0 \<Longrightarrow> held x w = [] \<Longrightarrow>
     wp (co_return os x v) (coroutine_step M) (\<lambda>_ _. False) w"
  unfolding co_return_def return_value_def by (rule wp_finish) (auto simp: stores_def)

lemma wp_co_raise:
  "io_inv x M w \<Longrightarrow> x \<noteq> 0 \<Longrightarrow> held x w = [] \<Longrightarrow> e \<noteq> Undefined_behaviour \<Longrightarrow>
     wp (co_raise os x e) (coroutine_step M) (\<lambda>_ _. False) w"
  unfolding co_raise_def unhandled_exception_def by (rule wp_finish) (auto simp: stores_def)

lemma wp_act:
  assumes inv: "io_inv x M w" and x: "x \<noteq> 0"
  shows "wp (act os x a) (coroutine_step M) (\<lambda>_ _. False) w"
proof -
  have skip: "wp (\<lambda>w. (Inr (Go_on x), w)) (coroutine_step M) (\<lambda>_ _. False) w"
    using inv x by (simp add: coroutine_step_def)
  have "client_inv x M w" using inv x by (simp add: outside_def)
  from wp_shared [OF this]
  have "wp (shared os x b) (\<lambda>_. io_inv x M) (\<lambda>_ _. False) w" for b
    by (rule wp_conseq) (use x in \<open>auto simp: outside_def\<close>)
  then have sh: "wp (ebind (shared os x b) (\<lambda>_. eret (Go_on x))) (coroutine_step M) (\<lambda>_ _. False) w" for b
    by (rule wp_bindI) (use x in \<open>simp add: coroutine_step_def\<close>)
  have null: "0 \<notin> set (held x w)"
    using inv x heap_invD(6) [of x M "io_frames w" "io_roots w" "io_next_addr w" 0 x]
    by (auto simp: inv_but_def core_inv_def held_outside [of x w M] outside_def held_ok_def)
  show ?thesis
  proof (cases a)
    case (A_await t)
    show ?thesis
      using wp_await_held [OF inv x, of t os] wp_await_empty [OF inv x null, of os] skip null
      unfolding A_await wp_def by (cases "t = 0 \<or> t \<in> set (held x w)") auto
  next
    case (A_return v)
    show ?thesis
      using wp_co_return [OF inv x, of os v] skip unfolding A_return wp_def by simp
  next
    case (A_raise e)
    show ?thesis
      using wp_co_raise [OF inv x, of e os] skip unfolding A_raise wp_def by simp
  qed (use sh wp_wait [OF inv x] wp_yield [OF inv x] wp_park [OF inv x] in \<open>simp_all add: wp_def del: ebind_ret\<close>)
qed

lemma wp_wind_up:
  assumes inv: "io_inv x M w" and x: "x \<noteq> 0"
  shows "wp (wind_up os x) (coroutine_step M) (\<lambda>_ _. False) w"
proof (cases "held x w")
  case (Cons t ts)
  have "client_inv x M w" using inv x by (simp add: outside_def)
  then have "wp (drop_task os x t) (\<lambda>_. io_inv x M) (\<lambda>_ _. False) w"
    using wp_drop_task [of x M w t os] Cons x by (simp add: outside_def)
  then have "wp (ebind (drop_task os x t) (\<lambda>_. eret (Go_on x))) (coroutine_step M) (\<lambda>_ _. False) w"
    by (rule wp_bindI) (use x in \<open>simp add: coroutine_step_def\<close>)
  with Cons show ?thesis by (simp add: wp_def wind_up_def del: ebind_ret)
next
  case Nil
  with wp_co_return [OF inv x Nil, of os None] wp_co_raise [OF inv x Nil, of "User_exn 0" os] show ?thesis
    by (simp add: wp_def wind_up_def)
qed

lemma wp_next_action:
  assumes inv: "io_inv x M w" and x: "x \<noteq> 0"
  shows "wp (next_action os x) (coroutine_step M) (\<lambda>_ _. False) w"
proof (cases "rw_script w")
  case Nil
  with wp_wind_up [OF assms] show ?thesis by (simp add: wp_def next_action_def)
next
  case (Cons a rest)
  have "wp (act os x a) (coroutine_step M) (\<lambda>_ _. False) (w\<lparr>rw_script := rest\<rparr>)"
    by (rule wp_act) (use assms in simp_all)
  with Cons show ?thesis by (simp add: wp_def next_action_def)
qed

lemma wp_user_code:
  "io_inv x M w \<Longrightarrow> x \<noteq> 0 \<Longrightarrow>
     wp (user_code os x) (\<lambda>_ w'. settled M w') (\<lambda>_ _. False) w"
proof (induction os x w rule: user_code.induct)
  case (1 os x w)
  obtain r w' where r: "next_action os x w = (r, w')" by force
  with wp_next_action [OF "1.prems", of os] obtain c where c: "r = Inr c" "coroutine_step M c w'"
    by (auto simp: wp_def split: sum.splits)
  show ?case
  proof (cases c)
    case Back
    with c r "1.prems" show ?thesis by (simp add: wp_def user_code.simps [of os x w] coroutine_step_def)
  next
    case (Go_on y)
    with c r "1.prems" "1.IH" [OF _ refl, of "Go_on y" y] show ?thesis
      by (simp add: wp_def user_code.simps [of os x w] coroutine_step_def)
  qed
qed

section \<open>Orders that programs respect\<close>

text \<open>
  As for the operations of the executor, with the elementary changes of a program: \<open>allowed\<close> are
  the points where the order lets a coroutine stop, \<open>creates\<close> says that it allows new frames.
\<close>

definition permits :: "(suspend_point \<Rightarrow> bool) \<Rightarrow> bool \<Rightarrow> 'v action \<Rightarrow> bool" where
  "permits allowed creates a =
     (case a of
        A_wait fd ev timeout \<Rightarrow> allowed (At_wait (FdAwaiter fd ev timeout))
      | A_park \<Rightarrow> allowed At_park
      | A_call _ _ \<Rightarrow> creates
      | _ \<Rightarrow> True)"

locale client_order = executor_order R
  for R :: "('k, 'v, 'm) run_world_scheme \<Rightarrow> ('k, 'v, 'm) run_world_scheme \<Rightarrow> bool" +
  fixes allowed :: "suspend_point \<Rightarrow> bool" and creates :: bool
  assumes log: "\<not> is_turn r \<Longrightarrow> R w (w\<lparr>rw_log := rw_log w @ [(x, r)]\<rparr>)"
    and script: "R w (w\<lparr>rw_script := as\<rparr>)"
    and stopped: "R w (w\<lparr>io_stop_requested := True\<rparr>)"
    and held_set: "x \<noteq> 0 \<Longrightarrow> R w (set_held x ts w)"
    and point: "set_frame h (fr_point_update (\<lambda>_. p)) (io_frames w) = Inr H \<Longrightarrow> allowed p \<Longrightarrow> R w (w\<lparr>io_frames := H\<rparr>)"
    and running: "allowed Executing" "allowed (At_await c)" "allowed At_yield" "allowed At_final"
    and created: "creates \<Longrightarrow> R w (w\<lparr>io_frames := fmupd h (frame_new void fds) (io_frames w)\<rparr>)"
begin

lemma c_note_log: "\<not> is_turn r \<Longrightarrow> within R (note_log x r)"
  unfolding note_log_def by (rule w_emodify) (rule log)

lemma c_notes [within_rules]:
  "within R (note_log x R_called)" "within R (note_log x R_done)" "within R (note_log x (R_exn e))"
  "within R (note_log x (R_handle h))"
  by (rule c_note_log, simp)+

lemma c_take_held: "x \<noteq> 0 \<Longrightarrow> within R (take_held x t)"
  unfolding take_held_def by (rule w_emodify) (rule held_set)

lemma c_attempt [within_rules]: "within R m \<Longrightarrow> within R (attempt x m)"
  unfolding attempt_def by (intro within_rules)

lemma c_set_point: "allowed p \<Longrightarrow> within R (set_point x p)"
  unfolding set_point_def by (rule withinI) (simp add: on_heap_def refl_R point split: sum.split)

lemma c_resume_frame [within_rules]: "within R (on_heap (resume_frame h))"
proof (rule withinI)
  fix w :: "('k, 'v, 'm) run_world_scheme"
  have "set_frame h (fr_point_update (\<lambda>_. Executing)) (io_frames w) = Inr H" if "resume_frame h (io_frames w) = Inr H" for H
    using that by (auto simp: resume_frame_def set_frame_def split: option.splits if_splits)
  then show "R w (snd (on_heap (resume_frame h) w))"
    by (auto simp: on_heap_def refl_R split: sum.split intro: point running)
qed

lemma c_drop_task: "x \<noteq> 0 \<Longrightarrow> within R (drop_task os x t)"
  unfolding drop_task_def by (intro within_rules c_take_held)

lemma c_call: "x \<noteq> 0 \<Longrightarrow> creates \<Longrightarrow> within R (call_coroutine x void fds)"
proof (rule withinI)
  fix w :: "('k, 'v, 'm) run_world_scheme"
  assume c: "x \<noteq> 0" "creates"
  let ?w = "set_held x (held x w @ [io_next_addr w]) w"
  have "R w (?w\<lparr>io_frames := fmupd (io_next_addr w) (frame_new void fds) (io_frames ?w), io_next_addr := io_next_addr w + 1\<rparr>)"
    by (rule trans_R [OF trans_R [OF held_set [OF c(1)] created [OF c(2)]] addr])
  from trans_R [OF this within_at [OF c_notes(4)]] show "R w (snd (call_coroutine x void fds w))"
    by (simp add: call_coroutine_def Let_def)
qed

lemma c_shared:
  assumes x: "x \<noteq> 0" and "permits allowed creates a"
  shows "within R (shared os x a)"
proof -
  have "within R (attempt x (spawn os t))" for t by (intro within_rules)
  note spawn = within_at [OF this]
  have "within R (ebind (take_held x t) (\<lambda>_. attempt x (spawn os t)))" for t by (intro within_rules c_take_held x)
  note take = within_at [OF this]
  have "within R stop" unfolding stop_def by (rule w_emodify) (rule stopped)
  note stop = within_at [OF this]
  show ?thesis
    using assms within_at [OF c_call [OF x], of w void fds for w void fds]
    by (intro withinI, cases a)
       (simp_all add: permits_def spawn take stop refl_R within_at [OF c_drop_task [OF x]] within_at [OF w_cancel] del: ebind_ret)
qed

lemma c_leave_await [within_rules]: "within R (leave_await os x t)"
proof -
  have "within R (ebind (note_log x (case r of Inl e \<Rightarrow> R_exn e | Inr v \<Rightarrow> R_value v))
      (\<lambda>_. if t = 0 then eret () else destroy os [t]))" for r
    by (intro within_rules c_note_log) (simp split: sum.split)
  note body = within_at [OF this]
  show ?thesis
  proof (rule withinI)
    fix w :: "('k, 'v, 'm) run_world_scheme"
    show "R w (snd (leave_await os x t w))"
      unfolding leave_await_def
      by (cases "await_resume t (io_frames w)") (simp_all only: sum.case body snd_conv refl_R)
  qed
qed

lemma c_enter_await: "within R (enter_await os x t)"
proof -
  have "within R (ebind (leave_await os x t) (\<lambda>_. eret (Go_on x)))" by (intro within_rules)
  note ready = within_at [OF this]
  have transfer: "within R (ebind (on_heap (resume_frame c)) (\<lambda>_. ebind (note_log c R_called) (\<lambda>_. eret (Go_on c))))" for c
    by (intro within_rules)
  have "within R (\<lambda>w. case await_suspend t x (io_frames w) of
            Inl e \<Rightarrow> (Inl e, w)
          | Inr (c, H) \<Rightarrow>
              ebind (on_heap (resume_frame c)) (\<lambda>_.
              ebind (note_log c R_called) (\<lambda>_. eret (Go_on c))) (w\<lparr>io_frames := H\<rparr>))"
  proof (rule withinI)
    fix w :: "('k, 'v, 'm) run_world_scheme"
    have "R w (snd (ebind (on_heap (resume_frame c)) (\<lambda>_. ebind (note_log c R_called) (\<lambda>_. eret (Go_on c))) (w\<lparr>io_frames := H\<rparr>)))"
      if "await_suspend t x (io_frames w) = Inr (c, H)" for c H
    proof -
      from that have "set_frame t (fr_continuation_update (\<lambda>_. x)) (io_frames w) = Inr H"
        by (auto simp: await_suspend_def result_simps)
      from promise [OF this] show ?thesis using trans_R within_at [OF transfer] by fastforce
    qed
    then show "R w (snd (case await_suspend t x (io_frames w) of
            Inl e \<Rightarrow> (Inl e, w)
          | Inr (c, H) \<Rightarrow>
              ebind (on_heap (resume_frame c)) (\<lambda>_.
              ebind (note_log c R_called) (\<lambda>_. eret (Go_on c))) (w\<lparr>io_frames := H\<rparr>)))"
      by (auto simp: refl_R simp del: ebind_ret split: sum.split)
  qed
  from within_at [OF w_ebind [OF c_set_point this]] running have suspend:
    "R w (snd (ebind (set_point x (At_await t)) (\<lambda>_ w. case await_suspend t x (io_frames w) of
            Inl e \<Rightarrow> (Inl e, w)
          | Inr (c, H) \<Rightarrow>
              ebind (on_heap (resume_frame c)) (\<lambda>_.
              ebind (note_log c R_called) (\<lambda>_. eret (Go_on c))) (w\<lparr>io_frames := H\<rparr>)) w))" for w
    by blast
  show ?thesis
  proof (rule withinI)
    fix w :: "('k, 'v, 'm) run_world_scheme"
    show "R w (snd (enter_await os x t w))"
      unfolding enter_await_def
      by (cases "await_ready t (io_frames w)")
         (simp_all only: sum.case snd_conv refl_R, simp split: bool.split add: ready suspend del: ebind_ret)
  qed
qed

lemma c_finish: "within R (finish os x)"
proof -
  have "within R (ebind (on_heap (resume_frame c)) (\<lambda>_. ebind (leave_await os c x) (\<lambda>_. eret (Go_on c))))"
      and "within R (ebind (root_completed x) (\<lambda>_. eret Back))" for c
    by (intro within_rules)+
  note body = within_at [OF this(1)] within_at [OF this(2)]
  show ?thesis
    unfolding finish_def
    by (intro within_rules c_set_point running, rule withinI)
       (simp add: refl_R body del: ebind_ret split: sum.split option.split)
qed

lemma c_leave: "within R (co_return os x v)" "within R (co_raise os x e)"
  unfolding co_return_def co_raise_def return_value_def unhandled_exception_def
  by (intro within_rules w_promise c_finish; simp)+

lemma c_act:
  assumes x: "x \<noteq> 0" and a: "permits allowed creates a"
  shows "within R (act os x a)"
proof -
  have "within R (ebind (take_held x t) (\<lambda>_. enter_await os x t))" for t
    by (intro within_rules c_take_held c_enter_await x)
  note await = within_at [OF this]
  have "allowed p \<Longrightarrow> within R (ebind (set_point x p) (\<lambda>_. ecatch (ebind (arm_wait os fd ev timeout x x) (\<lambda>_. eret Back))
          (\<lambda>e. ebind (set_point x Executing) (\<lambda>_. ebind (note_log x (R_exn e)) (\<lambda>_. eret (Go_on x))))))"
    for p fd ev timeout by (intro within_rules c_set_point running)
  note wait = within_at [OF this]
  have "within R (ebind (set_point x At_yield) (\<lambda>_. ebind (schedule x) (\<lambda>_. eret Back)))"
    by (intro within_rules c_set_point running)
  note yield = within_at [OF this]
  have "allowed At_park \<Longrightarrow> within R (ebind (set_point x At_park) (\<lambda>_. eret Back))" by (intro within_rules c_set_point)
  note park = within_at [OF this]
  have "permits allowed creates a \<Longrightarrow> within R (ebind (shared os x a) (\<lambda>_. eret (Go_on x)))" for a
    by (intro within_rules c_shared x)
  note sh = within_at [OF this]
  show ?thesis
  proof (rule withinI)
    fix w :: "('k, 'v, 'm) run_world_scheme"
    show "R w (snd (act os x a w))"
      using a sh [OF a, of w]
      by (cases a) (simp_all add: permits_def await wait yield park within_at [OF c_leave(1)] within_at [OF c_leave(2)]
          refl_R del: ebind_ret shared.simps)
  qed
qed

lemma c_next_action:
  assumes x: "x \<noteq> 0" and "\<And>a. a \<in> set (rw_script w) \<Longrightarrow> permits allowed creates a"
  shows "R w (snd (next_action os x w))"
proof (cases "rw_script w")
  case Nil
  have "within R (ebind (drop_task os x t) (\<lambda>_. eret (Go_on x)))" for t by (intro within_rules c_drop_task x)
  with Nil show ?thesis
    by (simp add: next_action_def wind_up_def within_at [OF c_leave(1)] within_at [OF c_leave(2)] within_at
        del: ebind_ret split: list.split)
next
  case (Cons a rest)
  with assms have "permits allowed creates a" by simp
  from trans_R [OF script within_at [OF c_act [OF x this]]] Cons show ?thesis by (simp add: next_action_def)
qed

lemma script_next_action: "set (rw_script (snd (next_action os x w))) \<subseteq> set (rw_script w)"
proof (cases "rw_script w")
  case Nil
  with preservesD [OF kept_wind_up, of x os w] show ?thesis by (simp add: next_action_def kept_def)
next
  case (Cons a rest)
  with preservesD [OF kept_act, of x os a "w\<lparr>rw_script := rest\<rparr>"] show ?thesis by (auto simp: next_action_def kept_def)
qed

lemma c_user_code:
  "(\<And>a. a \<in> set (rw_script w) \<Longrightarrow> permits allowed creates a) \<Longrightarrow> R w (snd (user_code os x w))"
proof (induction os x w rule: user_code.induct)
  case (1 os x w)
  show ?case
  proof (cases "x = 0")
    case True
    then show ?thesis by (simp add: user_code.simps refl_R)
  next
    case False
    obtain r w' where r: "next_action os x w = (r, w')" by force
    have first: "R w w'" using c_next_action [OF False, of w os] "1.prems" r by simp
    have rest: "R w' (snd (user_code os c w'))" if "r = Inr (Go_on c)" for c
      using "1.IH" [OF False refl, of "Go_on c" c] that r script_next_action [of os x w] "1.prems" by auto
    show ?thesis
      using False r first trans_R [OF first rest]
      by (auto simp: user_code.simps [of os x w] Let_def split: sum.split control.split)
  qed
qed

end

text \<open>An order that also allows turns is respected by the coroutines as the scheduler runs them.\<close>

locale turn_order = client_order R allowed creates
  for R :: "('k, 'v, 'm) run_world_scheme \<Rightarrow> ('k, 'v, 'm) run_world_scheme \<Rightarrow> bool" and allowed creates +
  assumes turn: "R w (w\<lparr>rw_log := rw_log w @ [(h, r)]\<rparr>)"
begin

lemma c_resume:
  assumes "\<And>a. a \<in> set (rw_script w) \<Longrightarrow> permits allowed creates a"
  shows "R w (snd (resume os h w))"
proof (cases "fmlookup (io_frames w) h")
  case None
  then show ?thesis by (simp add: resume_def refl_R)
next
  case (Some fr)
  obtain r w' where r: "on_heap (resume_frame h) w = (r, w')" by force
  have first: "R w w'" by (rule withinD [OF c_resume_frame r])
  have same: "rw_script w' = rw_script w" using r by (auto simp: on_heap_def split: sum.splits)
  let ?w = "w'\<lparr>rw_log := rw_log w' @ [(h, response_of (fr_point fr))]\<rparr>"
  have "R w (snd (user_code os h ?w))"
    by (rule trans_R [OF trans_R [OF first turn] c_user_code]) (use assms same in simp)
  with Some r first show ?thesis by (cases r) (simp_all add: resume_def note_log_def ebind_def)
qed

end

text \<open>The ready queue only grows.\<close>

interpretation queue: turn_order "\<lambda>w w' :: ('k, 'v, 'm) run_world_scheme. prefix (io_ready w) (io_ready w')"
    "\<lambda>_. True" True
  by unfold_locales simp_all

text \<open>Coroutines do not touch the tasks held outside.\<close>

interpretation held_outside: turn_order "\<lambda>w w' :: ('k, 'v, 'm) run_world_scheme. rw_main w' = rw_main w"
    "\<lambda>_. True" True
  by unfold_locales (simp_all add: set_held_def set_tasks_def)

lemma permits_all [simp]: "permits (\<lambda>_. True) True a"
  by (simp add: permits_def split: action.split)

section \<open>The coroutines meet the contract of the scheduler\<close>

lemma wp_resume:
  fixes w :: "('k, 'v, 'm) run_world_scheme"
  assumes inv: "io_inv 0 M (w\<lparr>io_ready := h # io_ready w\<rparr>)"
  shows "wp (resume os h) (\<lambda>_ w'. settled M w' \<and> prefix (io_ready w) (io_ready w')) (\<lambda>_ _. False) w"
proof -
  from inv have heap: "heap_inv 0 M (io_frames w) (io_roots w) (io_next_addr w)"
    and wait: "wait_inv 0 (io_frames w) (io_roots w) (h # io_ready w) (io_fd_states w)"
    by (simp_all add: inv_but_def core_inv_def)
  obtain fr where fr: "fmlookup (io_frames w) h = Some fr" "queued_ok (io_roots w) h (fr_point fr)"
    using wait_invD(2) [OF wait, of h] by auto
  have ok: "h \<noteq> 0" "fr_point fr \<noteq> At_final" "fr_point fr \<noteq> Executing"
    using heap_invD(2) [OF heap fr(1)] by (simp_all add: frame_ok_def)
  let ?F = "fmupd h (fr\<lparr>fr_point := Executing\<rparr>) (io_frames w)"
  let ?w = "w\<lparr>io_frames := ?F, rw_log := rw_log w @ [(h, response_of (fr_point fr))]\<rparr>"
  have "heap_inv h M ?F (io_roots w) (io_next_addr w)"
    by (rule heap_inv_point [OF heap fr(1)]) (use fr(2) in \<open>auto simp: queued_ok_def\<close>)
  moreover have "wait_inv 0 ?F (io_roots w) (io_ready w) (io_fd_states w)" by (rule wait_inv_resume [OF wait]) simp_all
  ultimately have "io_inv h M ?w" using inv by (simp add: inv_but_def core_inv_def)
  from wp_user_code [OF this ok(1)] have "wp (user_code os h) (\<lambda>_. settled M) (\<lambda>_ _. False) ?w" .
  moreover have "resume os h w = user_code os h ?w"
    using fr(1) ok by (simp add: resume_def on_heap_def resume_frame_def ebind_def note_log_def)
  moreover have "prefix (io_ready w) (io_ready (snd (user_code os h ?w)))"
    using queue.c_user_code [of ?w os h] by simp
  ultimately show ?thesis by (auto simp: wp_def split: prod.splits sum.splits)
qed

interpretation client: coroutine_code os M "resume os :: handle \<Rightarrow> (('k, 'v, 'm) run_world_scheme, unit) eff"
  for os :: "'k os" and M
  by unfold_locales (rule wp_resume)

end
