(* ===== verification/Programs.thy ===== *)
theory Programs
  imports Coroutine_Inv
begin

text \<open>
  Whole programs: code outside of coroutines that creates and spawns tasks, cancels waits, runs the
  executor any number of times and finally destroys it. They keep the invariant of the executor.
\<close>

section \<open>Programs\<close>

text \<open>\<open>M_run\<close> carries the script of what the coroutines do during that run.\<close>

datatype 'v main_action =
    M_do "'v action"
  | M_run "'v action list"

text \<open>\<open>None\<close>: the run does not return.\<close>

fun main_step :: "'k os \<Rightarrow> 'v main_action \<Rightarrow> ('k, 'v) run_world \<Rightarrow> (unit result \<times> ('k, 'v) run_world) option" where
  "main_step os (M_do a) w = Some (shared os 0 a w)"
| "main_step os (M_run script) w = run os (resume os) (w\<lparr>rw_script := script\<rparr>)"

fun execute :: "'k os \<Rightarrow> 'v main_action list \<Rightarrow> ('k, 'v) run_world \<Rightarrow> (unit result list \<times> ('k, 'v) run_world) option" where
  "execute os [] w = Some ([], w)"
| "execute os (a # as) w =
     (case main_step os a w of
        None \<Rightarrow> None
      | Some (r, w1) \<Rightarrow> map_option (\<lambda>(rs, w2). (r # rs, w2)) (execute os as w1))"

text \<open>\<open>IoContext()\<close>: the members with their initial values, and the poller of the event loop.\<close>

definition IoContext_new :: "'k os \<Rightarrow> 'k \<Rightarrow> unit result \<times> ('k, 'v) run_world" where
  "IoContext_new os k =
     init_poller os
       \<lparr>lp_kernel = k, lp_poller = -1, lp_running = False, lp_channels = fmempty,
        io_frames = fmempty, io_next_addr = 1, io_roots = {||}, io_ready = [], io_completed_head = 0,
        io_fd_states = fmempty, io_timers = [], io_next_token = 1, io_running = False, io_stop_requested = False,
        rw_main = [], rw_script = [], rw_log = []\<rparr>"

section \<open>The invariant of all programs\<close>

interpretation main: loop_order "\<lambda>w w' :: ('k, 'v, 'm) run_world_scheme. rw_main w' = rw_main w"
  by unfold_locales simp_all

lemma run_main:
  assumes "run os (resume os) w = Some (r, w')"
  shows "rw_main w' = rw_main w"
  by (rule main.l_run [OF _ assms]) (rule withinI, simp add: held_outside.c_resume)

abbreviation program_inv :: "('k, 'v) run_world \<Rightarrow> bool" where
  "program_inv w \<equiv> io_inv 0 (rw_main w) w"

lemma IoContext_new_inv:
  "IoContext_new os k = (r, w) \<Longrightarrow> program_inv w"
  by (auto simp: IoContext_new_def init_poller_def inv_but_def core_inv_def heap_inv_def wait_inv_def reg_inv_def
      tasks_of_def child_of_def waiting_def split: prod.splits sum.splits)

lemma main_step_inv:
  assumes "program_inv w" and "wait_bounded os" and "main_step os a w = Some (r, w')"
  shows "program_inv w' \<and> r \<noteq> Inl Undefined_behaviour"
proof (cases a)
  case (M_do b)
  have "io_inv 0 (outside 0 [] w) w" using assms(1) by (simp add: outside_def)
  from wp_shared [OF this, of os b] assms(3) M_do show ?thesis by (auto simp: wp_def outside_def split: sum.splits)
next
  case (M_run script)
  let ?w = "w\<lparr>rw_script := script\<rparr>"
  have r: "run os (resume os) ?w = Some (r, w')" using assms(3) M_run by simp
  have "io_inv 0 (rw_main w) ?w" using assms(1) by simp
  from client.run_inv [OF r this assms(2)] run_main [OF r] show ?thesis by simp
qed

lemma execute_inv:
  assumes "wait_bounded os"
  shows "program_inv w \<Longrightarrow> execute os as w = Some (rs, w') \<Longrightarrow>
    program_inv w' \<and> Inl Undefined_behaviour \<notin> set rs"
proof (induction as arbitrary: w rs)
  case (Cons a as)
  then obtain r w1 rs' where "main_step os a w = Some (r, w1)" "execute os as w1 = Some (rs', w')" "rs = r # rs'"
    by (auto split: option.splits)
  with main_step_inv [OF Cons.prems(1) assms] Cons.IH [of w1 rs'] show ?case by auto
qed simp

section \<open>Programs on the demonstration kernel\<close>

text \<open>\<open>reports\<close> are the readiness reports that the kernel will give, one list per poll.\<close>

definition demo_start :: "(u32 \<times> int) list list \<Rightarrow> (demo_kernel, nat) run_world" where
  "demo_start reports = snd (IoContext_new demo_os \<lparr>dk_reg = fmempty, dk_events = reports, dk_clock = 0\<rparr>)"

definition demo_run :: "(u32 \<times> int) list list \<Rightarrow> nat main_action list \<Rightarrow> (demo_kernel, nat) run_world" where
  "demo_run reports program = snd (the (execute demo_os program (demo_start reports)))"

lemma demo_bounded: "wait_bounded demo_os"
  by (auto simp: wait_bounded_def demo_os_def demo_wait_def split: list.splits)

lemma demo_new: "IoContext_new demo_os \<lparr>dk_reg = fmempty, dk_events = reports, dk_clock = 0\<rparr> = (Inr (), demo_start reports)"
  by (simp add: IoContext_new_def demo_start_def init_poller_def demo_os_def)

lemma demo_run_inv:
  assumes "execute demo_os program (demo_start reports) \<noteq> None"
  shows "program_inv (demo_run reports program)"
proof -
  have "program_inv (demo_start reports)" by (rule IoContext_new_inv [OF demo_new])
  moreover obtain rs w' where "execute demo_os program (demo_start reports) = Some (rs, w')" using assms by auto
  ultimately show ?thesis using execute_inv [OF demo_bounded] by (fastforce simp: demo_run_def)
qed

text \<open>Two roots: the first waits for descriptor 5 with a timeout of 10 ms, the second stops the run.\<close>

definition demo_waiting :: "nat main_action list" where
  "demo_waiting =
     [M_do (A_call True []), M_do (A_spawn 1), M_do (A_call True []), M_do (A_spawn 2),
      M_run [A_wait 5 READ 10, A_stop]]"

lemma demo_waiting_runs: "execute demo_os demo_waiting (demo_start reports) \<noteq> None" if "reports = [] \<or> reports = [[(EPOLLHUP, 5)]]"
  using that by (elim disjE; hypsubst; code_simp)

section \<open>Turns\<close>

text \<open>The coroutines to which the scheduler gave a turn, in order.\<close>

definition turns :: "('k, 'v, 'm) run_world_scheme \<Rightarrow> handle list" where
  "turns w = map fst (filter (is_turn \<circ> snd) (rw_log w))"

interpretation turns: client_order "\<lambda>w w' :: ('k, 'v, 'm) run_world_scheme. turns w' = turns w" "\<lambda>_. True" True
  by unfold_locales (simp_all add: turns_def set_held_def set_tasks_def)

interpretation stop: turn_order
  "\<lambda>w w' :: ('k, 'v, 'm) run_world_scheme. io_stop_requested w \<longrightarrow> io_stop_requested w'" "\<lambda>_. True" True
  by unfold_locales (simp_all add: set_held_def set_tasks_def)

lemma resume_turn:
  assumes "resume os h w = (Inr u, w')"
  shows "turns w' = turns w @ [h]"
proof -
  obtain fr where fr: "fmlookup (io_frames w) h = Some fr" using assms by (auto simp: resume_def split: option.splits)
  with assms obtain w1 where w1: "on_heap (resume_frame h) w = (Inr (), w1)"
    and code: "user_code os h (w1\<lparr>rw_log := rw_log w1 @ [(h, response_of (fr_point fr))]\<rparr>) = (Inr u, w')"
    by (auto simp: resume_def ebind_eq_Inr note_log_def)
  have "is_turn (response_of (fr_point fr) :: 'b response)"
    by (simp add: response_of_def split: suspend_point.split)
  moreover have "rw_log w1 = rw_log w" using w1 by (auto simp: on_heap_def split: sum.splits)
  ultimately show ?thesis
    using turns.c_user_code [of "w1\<lparr>rw_log := rw_log w1 @ [(h, response_of (fr_point fr))]\<rparr>" os h] code
    by (simp add: turns_def)
qed

lemma run_batch_turns:
  fixes w w' :: "('k, 'v, 'm) run_world_scheme"
  assumes "io_inv 0 M w" and "n \<le> length (io_ready w)" and "run_batch os (resume os) n w = (Inr u, w')"
    and "\<not> io_stop_requested w'"
  shows "turns w' = turns w @ take n (io_ready w)"
  using assms
proof (induction n arbitrary: w)
  case (Suc n)
  obtain h rest where q: "io_ready w = h # rest" using Suc.prems(2) by (cases "io_ready w") auto
  note front = client.front_resumable [OF Suc.prems(1) q]
  have go: "\<not> io_stop_requested w" using Suc.prems(3,4) by auto
  let ?w = "w\<lparr>io_ready := rest\<rparr>"
  from Suc.prems(3) q front go obtain w1 w2 where w1: "resume os h ?w = (Inr (), w1)"
      and w2: "drain_completed os w1 = (Inr (), w2)" and batch: "run_batch os (resume os) n w2 = (Inr u, w')"
    by (auto simp: ebind_eq_Inr)
  have "wp (ebind (resume os h) (\<lambda>_. drain_completed os))
      (\<lambda>_ w'. io_inv 0 M w' \<and> prefix rest (io_ready w')) (\<lambda>_. io_inv 0 M) ?w"
    by (rule client.resume_and_drain [OF Suc.prems(1) q])
  with w1 w2 have inv2: "io_inv 0 M w2" "prefix rest (io_ready w2)" by (simp_all add: wp_def)
  then obtain more where more: "io_ready w2 = rest @ more" by (auto simp: prefix_def)
  have n: "n \<le> length rest" using Suc.prems(2) q by simp
  have "turns w' = turns w2 @ take n (io_ready w2)"
    using Suc.IH [OF inv2(1) _ batch Suc.prems(4)] more n by simp
  moreover have "turns w2 = turns w1" by (rule withinD [OF turns.w_drain_completed w2])
  moreover have "turns w1 = turns w @ [h]" using resume_turn [OF w1] by (simp add: turns_def)
  ultimately show ?case using q more n by simp
qed simp

section \<open>Destroying the executor\<close>

text \<open>
  The frames to destroy form a forest: \<open>hs\<close> is what is left to do, \<open>M\<close> are the frames to keep. Every
  other frame is to do or owned by a frame of the heap, never twice.
\<close>

definition owned_by :: "'v heap \<Rightarrow> handle \<Rightarrow> handle list" where
  "owned_by H x = (case fmlookup H x of None \<Rightarrow> [] | Some fr \<Rightarrow> owned fr)"

definition forest :: "handle list \<Rightarrow> handle list \<Rightarrow> 'v heap \<Rightarrow> bool" where
  "forest M hs H \<longleftrightarrow>
     distinct hs \<and> (\<forall>y \<in> set hs. fmlookup H y \<noteq> None) \<and>
     (\<forall>x. distinct (owned_by H x)) \<and>
     (\<forall>x y. y \<in> set (owned_by H x) \<longrightarrow> x < y \<and> fmlookup H y \<noteq> None \<and> y \<notin> set hs \<and> y \<notin> set M) \<and>
     (\<forall>x x' y. y \<in> set (owned_by H x) \<and> y \<in> set (owned_by H x') \<longrightarrow> x = x') \<and>
     (\<forall>y fr. fmlookup H y = Some fr \<longrightarrow> y \<in> set M \<or> y \<in> set hs \<or> (\<exists>x. y \<in> set (owned_by H x))) \<and>
     (\<forall>y \<in> set M. fmlookup H y \<noteq> None \<and> y \<notin> set hs \<and> owned_by H y = [])"

lemma forestD:
  assumes "forest M hs H"
  shows "distinct hs" and "y \<in> set hs \<Longrightarrow> fmlookup H y \<noteq> None" and "distinct (owned_by H x)"
    and "y \<in> set (owned_by H x) \<Longrightarrow> x < y \<and> fmlookup H y \<noteq> None \<and> y \<notin> set hs \<and> y \<notin> set M"
    and "y \<in> set (owned_by H x) \<Longrightarrow> y \<in> set (owned_by H x') \<Longrightarrow> x = x'"
    and "fmlookup H y = Some fr \<Longrightarrow> y \<in> set M \<or> y \<in> set hs \<or> (\<exists>x. y \<in> set (owned_by H x))"
    and "y \<in> set M \<Longrightarrow> fmlookup H y \<noteq> None \<and> y \<notin> set hs \<and> owned_by H y = []"
  using assms unfolding forest_def by blast+

lemma owned_by_drop: "owned_by (fmdrop h H) x = (if x = h then [] else owned_by H x)"
  by (simp add: owned_by_def)

lemma forestI:
  assumes "distinct hs" and "\<And>y. y \<in> set hs \<Longrightarrow> fmlookup H y \<noteq> None" and "\<And>x. distinct (owned_by H x)"
    and "\<And>x y. y \<in> set (owned_by H x) \<Longrightarrow> x < y \<and> fmlookup H y \<noteq> None \<and> y \<notin> set hs \<and> y \<notin> set M"
    and "\<And>x x' y. y \<in> set (owned_by H x) \<Longrightarrow> y \<in> set (owned_by H x') \<Longrightarrow> x = x'"
    and "\<And>y fr. fmlookup H y = Some fr \<Longrightarrow> y \<in> set M \<or> y \<in> set hs \<or> (\<exists>x. y \<in> set (owned_by H x))"
    and "\<And>y. y \<in> set M \<Longrightarrow> fmlookup H y \<noteq> None \<and> y \<notin> set hs \<and> owned_by H y = []"
  shows "forest M hs H"
  using assms unfolding forest_def by blast

lemma forest_step:
  assumes inv: "forest M (h # hs) H" and h: "fmlookup H h = Some fr"
  shows "forest M (owned fr @ hs) (fmdrop h H)"
proof -
  note D = forestD [OF inv]
  have o: "owned fr = owned_by H h" using h by (simp add: owned_by_def)
  have mem: "y \<in> set (owned_by (fmdrop h H) x) \<longleftrightarrow> x \<noteq> h \<and> y \<in> set (owned_by H x)" for x y
    by (simp add: owned_by_drop)
  have own: "x < y" "fmlookup H y \<noteq> None" "y \<noteq> h" "y \<notin> set hs" "y \<notin> set M" if "y \<in> set (owned_by H x)" for x y
    using D(4) [OF that] by simp_all
  have hs: "h \<notin> set hs" "distinct hs" using D(1) by simp_all
  have M: "fmlookup H y \<noteq> None" "y \<noteq> h" "y \<notin> set hs" "owned_by H y = []" if "y \<in> set M" for y
    using D(7) [OF that] by simp_all
  show ?thesis
    unfolding o
  proof (rule forestI)
    fix x x' y fr'
    show "distinct (owned_by H h @ hs)" using hs(2) D(3) [of h] own(4) by auto
    show "fmlookup (fmdrop h H) y \<noteq> None" if "y \<in> set (owned_by H h @ hs)"
      using that
    proof (cases "y \<in> set (owned_by H h)")
      case True
      from own(2,3) [OF True] show ?thesis by simp
    next
      case False
      with that have y: "y \<in> set hs" by simp
      with hs(1) have "y \<noteq> h" by blast
      with D(2) [of y] y show ?thesis by simp
    qed
    show "distinct (owned_by (fmdrop h H) x)" using D(3) [of x] by (simp add: owned_by_drop)
    show "x < y \<and> fmlookup (fmdrop h H) y \<noteq> None \<and> y \<notin> set (owned_by H h @ hs) \<and> y \<notin> set M"
      if "y \<in> set (owned_by (fmdrop h H) x)"
      using that own [of y x] D(5) [of y x h] by (auto simp: mem)
    show "x = x'" if "y \<in> set (owned_by (fmdrop h H) x)" "y \<in> set (owned_by (fmdrop h H) x')"
      using that D(5) [of y x x'] by (simp add: mem)
    show "y \<in> set M \<or> y \<in> set (owned_by H h @ hs) \<or> (\<exists>x. y \<in> set (owned_by (fmdrop h H) x))"
      if "fmlookup (fmdrop h H) y = Some fr'"
    proof -
      from that have "fmlookup H y = Some fr'" "y \<noteq> h" by (simp_all split: if_splits)
      with D(6) [of y fr'] show ?thesis unfolding mem by auto
    qed
    show "fmlookup (fmdrop h H) y \<noteq> None \<and> y \<notin> set (owned_by H h @ hs) \<and> owned_by (fmdrop h H) y = []"
      if "y \<in> set M"
      using M [OF that] own(5) [of y h] that by (auto simp: owned_by_drop)
  qed
qed

lemma forest_done:
  assumes "forest M [] H"
  shows "fmdom H = fset_of_list M"
proof -
  note D = forestD [OF assms]
  have "fmlookup H y = Some fr \<Longrightarrow> y \<in> set M" for y fr
  proof (induction y arbitrary: fr rule: less_induct)
    case (less y)
    show ?case
    proof (rule ccontr)
      assume n: "y \<notin> set M"
      with D(6) [OF less.prems] obtain x where x: "y \<in> set (owned_by H x)" by auto
      then obtain fx where "fmlookup H x = Some fx" by (cases "fmlookup H x") (auto simp: owned_by_def)
      with less.IH D(4) [OF x] have "x \<in> set M" by blast
      from D(7) [OF this] x show False by simp
    qed
  qed
  then have "y |\<in>| fmdom H \<longleftrightarrow> y |\<in>| fset_of_list M" for y
    using D(7) [of y] by (auto simp: fmlookup_dom_iff fset_of_list_elem)
  then show ?thesis by blast
qed

lemma destroy_forest: "forest M hs H \<Longrightarrow> \<exists>H' fds. destroy_list hs H = Inr (H', fds) \<and> fmdom H' = fset_of_list M"
proof (induction hs H rule: destroy_list.induct)
  case (1 H)
  then show ?case using forest_done by auto
next
  case (2 h hs H)
  then obtain fr where fr: "fmlookup H h = Some fr" using forestD(2) [of M "h # hs" H h] by auto
  from "2.IH" [OF fr forest_step [OF "2.prems" fr]] fr show ?case
    by (auto simp: destroy_list.simps(2) result_simps)
qed

lemma heap_inv_forest:
  assumes inv: "heap_inv 0 M F R N"
  shows "forest M (sorted_list_of_fset R) F"
proof -
  note D = heap_invD [OF inv]
  have own: "y \<in> set (owned_by F x) \<longleftrightarrow> x \<noteq> 0 \<and> y \<in> set (tasks_of M F x) \<or> child_of F x = Some y" for x y
  proof (cases "fmlookup F x")
    case None
    then show ?thesis by (simp add: owned_by_def tasks_of_def child_of_def)
  next
    case (Some fx)
    then have "x \<noteq> 0" using D(2) [OF Some] by (simp add: frame_ok_def)
    with Some show ?thesis
      by (auto simp: owned_by_def owned_def tasks_of_def child_of_def split: suspend_point.splits)
  qed
  have task: "x < t" "t |\<notin>| R" "\<exists>fr. fmlookup F t = Some fr \<and> fr_point fr = At_start" if "t \<in> set (tasks_of M F x)" for x t
    using D(6) [OF that] by (simp_all add: held_ok_def)
  have child: "x < c" "c |\<notin>| R" "\<exists>fr. fmlookup F c = Some fr \<and> fr_point fr \<noteq> At_start \<and> fr_continuation fr = x"
    if "child_of F x = Some c" for x c
    using D(8) [OF that] by (simp_all add: child_ok_def)
  show ?thesis
  proof (rule forestI)
    fix x x' y fr
    show "distinct (sorted_list_of_fset R)" by (simp add: sorted_list_of_fset.rep_eq)
    show "fmlookup F y \<noteq> None" if "y \<in> set (sorted_list_of_fset R)" using that D(3) [of y] by simp
    show "distinct (owned_by F x)"
    proof (cases "fmlookup F x")
      case (Some fx)
      have "x \<noteq> 0" using D(2) [OF Some] by (simp add: frame_ok_def)
      then have "distinct (fr_tasks fx)" using D(5) [of x] Some by (simp add: tasks_of_def)
      moreover have "c \<notin> set (fr_tasks fx)" if "fr_point fx = At_await c" for c
        using that Some task(3) [of c x] child(3) [of x c] \<open>x \<noteq> 0\<close> by (auto simp: tasks_of_def child_of_def)
      ultimately show ?thesis using Some by (auto simp: owned_by_def owned_def split: suspend_point.split)
    qed (simp add: owned_by_def)
    show "x < y \<and> fmlookup F y \<noteq> None \<and> y \<notin> set (sorted_list_of_fset R) \<and> y \<notin> set M"
      if "y \<in> set (owned_by F x)"
    proof -
      have "y \<notin> set M"
        using that task(3) [of y 0] child(3) [of x y] D(7) [of y x 0] unfolding own by auto
      with that task(1,2,3) [of y x] child(1,2,3) [of x y] show ?thesis unfolding own by auto
    qed
    show "x = x'" if "y \<in> set (owned_by F x)" "y \<in> set (owned_by F x')"
      using that task(3) [of y x] task(3) [of y x'] child(3) [of x y] child(3) [of x' y] D(7) [of y x x']
      unfolding own by auto
    show "y \<in> set M \<or> y \<in> set (sorted_list_of_fset R) \<or> (\<exists>x. y \<in> set (owned_by F x))" if y: "fmlookup F y = Some fr"
    proof -
      from D(9) [OF y] consider "y |\<in>| R" | z where "y \<in> set (tasks_of M F z)" | "child_of F (fr_continuation fr) = Some y"
        unfolding has_owner_def by (auto split: if_splits)
      then show ?thesis
      proof cases
        case (2 z)
        then show ?thesis using own [of y z] by (cases "z = 0") auto
      qed (auto simp: own)
    qed
    show "fmlookup F y \<noteq> None \<and> y \<notin> set (sorted_list_of_fset R) \<and> owned_by F y = []" if y: "y \<in> set M"
    proof -
      have "y \<in> set (tasks_of M F 0)" using y by simp
      from task(2,3) [OF this] obtain fy where fy: "fmlookup F y = Some fy" "fr_point fy = At_start" "y |\<notin>| R" by blast
      then have "fr_tasks fy = []" using D(2) [OF fy(1)] by (simp add: frame_ok_def)
      with fy show ?thesis by (simp add: owned_by_def owned_def)
    qed
  qed
qed

lemma cancel_all_none: "io_fd_states w = fmempty \<Longrightarrow> cancel_all os fds w = (Inr (), w)"
  by (induction fds) (simp_all add: cancel_def ebind_def)

lemma remove_channel_eq:
  assumes "fd_ok (lp_channels w) N fd st"
  obtains k where "remove_channel os (fs_addr st) (fs_channel st) w =
    (Inr (), w\<lparr>lp_channels := fmdrop fd (lp_channels w), lp_kernel := k\<rparr>)"
proof -
  obtain r k where "os_epoll_ctl os (lp_poller w) CTL_DEL fd 0 (lp_kernel w) = (r, k)" by force
  with assms that [of k] show ?thesis
    by (auto simp: remove_channel_def fd_ok_def ctl_del_def epoll_ctl_def ebind_def)
qed

text \<open>Removing the registered channels one by one empties the table of the event loop.\<close>

lemma remove_all_eq:
  assumes "reg_inv None (io_fd_states w) C N" and "set fds \<subseteq> fset (fmdom (io_fd_states w))" and "distinct fds"
    and "\<And>fd. fd \<in> set fds \<Longrightarrow> fmlookup (lp_channels w) fd = fmlookup C fd"
  shows "\<exists>k. remove_all os fds w = (Inr (), w\<lparr>lp_kernel := k, lp_channels := fold fmdrop fds (lp_channels w)\<rparr>)"
  using assms
proof (induction fds arbitrary: w)
  case Nil
  show ?case by (auto intro!: exI [of _ "lp_kernel w"])
next
  case (Cons fd fds)
  obtain st where st: "fmlookup (io_fd_states w) fd = Some st" using Cons.prems(2) by (auto simp: fmlookup_dom_iff)
  have ok: "fd_ok C N fd st" using reg_invD(1) [OF Cons.prems(1) st] by simp
  then have "fd_ok (lp_channels w) N fd st" using Cons.prems(4) [of fd] by (simp add: fd_ok_def)
  then obtain k where k: "remove_channel os (fs_addr st) (fs_channel st) w =
      (Inr (), w\<lparr>lp_channels := fmdrop fd (lp_channels w), lp_kernel := k\<rparr>)"
    using remove_channel_eq by metis
  let ?w = "w\<lparr>lp_channels := fmdrop fd (lp_channels w), lp_kernel := k\<rparr>"
  have "remove_registered os fd w = (Inr (), ?w)" using st ok k by (simp add: remove_registered_def fd_ok_def)
  moreover obtain k' where "remove_all os fds ?w =
      (Inr (), ?w\<lparr>lp_kernel := k', lp_channels := fold fmdrop fds (lp_channels ?w)\<rparr>)"
    using Cons.IH [of ?w] Cons.prems by fastforce
  ultimately show ?case by (auto intro: exI [of _ k'])
qed

lemma fold_fmdrop: "fmlookup (fold fmdrop xs m) y = (if y \<in> set xs then None else fmlookup m y)"
  by (induction xs arbitrary: m) auto

lemma IoContext_destroy_releases:
  assumes inv: "io_inv 0 M w"
  shows "\<exists>w'. IoContext_destroy os w = (Inr (), w') \<and> fmdom (io_frames w') = fset_of_list M \<and>
    lp_channels w' = fmempty \<and> lp_poller w' < 0 \<and> io_fd_states w' = fmempty \<and> io_timers w' = []"
proof -
  from inv have heap: "heap_inv 0 M (io_frames w) (io_roots w) (io_next_addr w)"
    and reg: "reg_inv None (io_fd_states w) (lp_channels w) (io_next_addr w)"
    by (simp_all add: inv_but_def core_inv_def)
  let ?fds = "sorted_list_of_fset (fmdom (io_fd_states w))"
  obtain k where k: "remove_all os ?fds w = (Inr (), w\<lparr>lp_kernel := k, lp_channels := fold fmdrop ?fds (lp_channels w)\<rparr>)"
    using remove_all_eq [OF reg, of ?fds os] by (auto simp: sorted_list_of_fset.rep_eq)
  have "fd |\<notin>| fmdom (io_fd_states w) \<Longrightarrow> fmlookup (lp_channels w) fd = None" for fd
    using reg_invD(2) [OF reg, of fd] by (cases "fmlookup (lp_channels w) fd") (auto simp: fmlookup_dom_iff)
  then have "fold fmdrop ?fds (lp_channels w) = fmempty"
    by (intro fmap_ext) (auto simp: fold_fmdrop sorted_list_of_fset.rep_eq)
  note k = k [unfolded this]
  obtain H fds where H: "destroy_list (sorted_list_of_fset (io_roots w)) (io_frames w) = Inr (H, fds)"
      "fmdom H = fset_of_list M"
    using destroy_forest [OF heap_inv_forest [OF heap]] by blast
  with k show ?thesis
    by (auto simp: IoContext_destroy_def destroy_def cancel_all_none destroy_poller_def ebind_def)
qed

end
