(* ===== verification/Termination.thy ===== *)
theory Termination
  imports Programs
begin

text \<open>
  The scheduler loop returns: every program that waits neither for a descriptor nor for an awaiter
  of its own is run to its end. Each batch of the ready queue consumes a part of the script or,
  when the script is at its end, a frame.
\<close>

section \<open>Programs that never block\<close>

fun blocking :: "suspend_point \<Rightarrow> bool" where
  "blocking (At_wait _) = True"
| "blocking At_park = True"
| "blocking _ = False"

fun blocks :: "'v action \<Rightarrow> bool" where
  "blocks (A_wait _ _ _) = True"
| "blocks A_park = True"
| "blocks _ = False"

definition unblocked :: "('k, 'v, 'm) io_world_scheme \<Rightarrow> bool" where
  "unblocked w \<longleftrightarrow> (\<forall>fr |\<in>| fmran (io_frames w). \<not> blocking (fr_point fr))"

lemma unblockedD: "unblocked w \<Longrightarrow> fmlookup (io_frames w) h = Some fr \<Longrightarrow> \<not> blocking (fr_point fr)"
  by (auto simp: unblocked_def dest: fmranI)

lemma unblockedI: "(\<And>h fr. fmlookup (io_frames w) h = Some fr \<Longrightarrow> \<not> blocking (fr_point fr)) \<Longrightarrow> unblocked w"
  by (auto simp: unblocked_def elim!: fmranE)

lemma blocking_set_result:
  assumes "unblocked w" and "set_result h b (io_frames w) = Inr H"
  shows False
  using assms(2) unblockedD [OF assms(1), of h]
  by (auto simp: set_result_def split: option.splits suspend_point.splits)

lemma unblocked_set_frame:
  assumes "unblocked w" and "set_frame h f (io_frames w) = Inr H"
    and "\<And>fr. \<not> blocking (fr_point fr) \<Longrightarrow> \<not> blocking (fr_point (f fr))"
  shows "unblocked (w\<lparr>io_frames := H\<rparr>)"
proof (rule unblockedI)
  fix x fr
  assume "fmlookup (io_frames (w\<lparr>io_frames := H\<rparr>)) x = Some fr"
  then show "\<not> blocking (fr_point fr)"
    using assms unblockedD [OF assms(1)] by (auto simp: set_frame_def split: option.splits if_splits)
qed

lemma unblocked_set_held: "unblocked w \<Longrightarrow> unblocked (set_held x ts w)"
  by (rule unblockedI)
     (auto simp: set_held_def set_tasks_def split: if_splits option.splits dest: unblockedD)

interpretation unblocked: turn_order "\<lambda>w w' :: ('k, 'v, 'm) run_world_scheme. unblocked w \<longrightarrow> unblocked w'"
    "\<lambda>p. \<not> blocking p" True
proof unfold_locales
  fix w :: "('k, 'v, 'm) run_world_scheme" and h H b f p x ts
  show "unblocked w \<longrightarrow> unblocked (w\<lparr>io_frames := H\<rparr>)" if "set_result h b (io_frames w) = Inr H"
    using that blocking_set_result by blast
  show "unblocked w \<longrightarrow> unblocked (w\<lparr>io_frames := H\<rparr>)" if "set_frame h f (io_frames w) = Inr H"
      "\<And>fr. fr_point (f fr) = fr_point fr"
    using that unblocked_set_frame by metis
  show "unblocked w \<longrightarrow> unblocked (w\<lparr>io_frames := H\<rparr>)" if "set_frame h (fr_point_update (\<lambda>_. p)) (io_frames w) = Inr H"
      "\<not> blocking p"
    using that unblocked_set_frame [of w h _ H] by auto
  show "unblocked w \<longrightarrow> unblocked (w\<lparr>io_frames := fmdrop h (io_frames w)\<rparr>)"
    by (auto intro!: unblockedI dest: unblockedD split: if_splits)
  show "unblocked w \<longrightarrow> unblocked (w\<lparr>io_frames := fmupd h (frame_new v fds) (io_frames w)\<rparr>)" for v fds
    by (auto intro!: unblockedI dest: unblockedD split: if_splits simp: frame_new_def)
  show "unblocked w \<longrightarrow> unblocked (set_held x ts w)" using unblocked_set_held by blast
qed (simp_all add: unblocked_def)

text \<open>A program that never blocks always has a coroutine to run.\<close>

lemma unblocked_no_waiter:
  assumes inv: "io_inv 0 M w" and "unblocked w"
  shows "\<not> has_registered_waiter w"
proof
  assume "has_registered_waiter w"
  then obtain fd st where st: "fmlookup (io_fd_states w) fd = Some st"
    by (auto simp: has_registered_waiter_def elim!: fmranE)
  have reg: "reg_inv None (io_fd_states w) (lp_channels w) (io_next_addr w)"
    and wait: "wait_inv 0 (io_frames w) (io_roots w) (io_ready w) (io_fd_states w)"
    using inv by (simp_all add: inv_but_def core_inv_def)
  have "fs_reader st \<noteq> None \<or> fs_writer st \<noteq> None" using reg_invD(1) [OF reg st] by (simp add: fd_full_def)
  then obtain ev ws where "waiting (io_fd_states w) fd ev = Some ws" "direction ev"
    using st by (auto simp: waiting_def slot_def intro: that [of READ] that [of WRITE])
  from wait_invD(5) [OF wait this] show False
    using unblockedD [OF assms(2)] by (fastforce simp: slot_ok_def)
qed

lemma unblocked_ready:
  assumes "io_inv 0 M w" and "unblocked w" and "io_roots w \<noteq> {||}"
  shows "io_ready w \<noteq> []"
  using idle_parked [OF assms(1,3) _ unblocked_no_waiter [OF assms(1,2)]] unblockedD [OF assms(2)]
  by fastforce

section \<open>The measure of a program\<close>

text \<open>\<open>spends w w'\<close>: a part of the script has been consumed, or a frame if there was none left.\<close>

definition spends :: "('k, 'v, 'm) run_world_scheme \<Rightarrow> ('k, 'v, 'm) run_world_scheme \<Rightarrow> bool" where
  "spends w w' \<longleftrightarrow>
     length (rw_script w') < length (rw_script w) \<or>
     rw_script w = [] \<and> rw_script w' = [] \<and> frame_count w' < frame_count w"

definition costs :: "('k, 'v, 'm) run_world_scheme \<Rightarrow> ('k, 'v, 'm) run_world_scheme \<Rightarrow> bool" where
  "costs w w' \<longleftrightarrow> spends w w' \<or> rw_script w' = rw_script w \<and> (rw_script w = [] \<longrightarrow> frame_count w' \<le> frame_count w)"

lemma spends_costs: "spends u v \<Longrightarrow> costs v w \<Longrightarrow> spends u w" "costs u v \<Longrightarrow> spends v w \<Longrightarrow> spends u w"
  by (auto simp: spends_def costs_def)

interpretation costs: loop_order "costs :: ('k, 'v, 'm) run_world_scheme \<Rightarrow> _"
proof unfold_locales
  fix w :: "('k, 'v, 'm) run_world_scheme" and h H b f
  show "costs w (w\<lparr>io_frames := H\<rparr>)" if "set_result h b (io_frames w) = Inr H"
    using set_result_dom [OF that] by (simp add: costs_def)
  show "costs w (w\<lparr>io_frames := H\<rparr>)" if "set_frame h f (io_frames w) = Inr H" "\<And>fr. fr_point (f fr) = fr_point fr"
    using set_frame_dom [OF that(1)] by (simp add: costs_def)
  show "costs w (w\<lparr>io_frames := fmdrop h (io_frames w)\<rparr>)"
    by (auto simp: costs_def intro!: fcard_mono)
qed (auto simp: costs_def spends_def)

interpretation frames: turn_order "\<lambda>w w' :: ('k, 'v, 'm) run_world_scheme. frame_count w' \<le> frame_count w"
    "\<lambda>_. True" False
proof unfold_locales
  fix w :: "('k, 'v, 'm) run_world_scheme" and h H b f p x ts
  show "frame_count (w\<lparr>io_frames := H\<rparr>) \<le> frame_count w" if "set_result h b (io_frames w) = Inr H"
    using set_result_dom [OF that] by simp
  show "frame_count (w\<lparr>io_frames := H\<rparr>) \<le> frame_count w"
    if "set_frame h f (io_frames w) = Inr H" "\<And>fr. fr_point (f fr) = fr_point fr"
    using set_frame_dom [OF that(1)] by simp
  show "frame_count (w\<lparr>io_frames := H\<rparr>) \<le> frame_count w" if "set_frame h (fr_point_update (\<lambda>_. p)) (io_frames w) = Inr H"
    using set_frame_dom [OF that] by simp
  show "frame_count (w\<lparr>io_frames := fmdrop h (io_frames w)\<rparr>) \<le> frame_count w" by (auto intro!: fcard_mono)
qed simp_all

text \<open>A coroutine consumes the script while there is one.\<close>

lemma next_action_script:
  "length (rw_script (snd (next_action os x w))) = length (rw_script w) - 1"
proof (cases "rw_script w")
  case Nil
  then show ?thesis
    using preservesD [OF kept_wind_up, of x os w] by (simp add: next_action_def kept_def)
next
  case (Cons a rest)
  then show ?thesis
    using preservesD [OF kept_act, of x os a "w\<lparr>rw_script := rest\<rparr>"] by (simp add: next_action_def kept_def)
qed

lemma user_code_script:
  "length (rw_script (snd (user_code os x w))) \<le> length (rw_script w) - (if x = 0 then 0 else 1)"
proof (induction os x w rule: user_code.induct)
  case (1 os x w)
  show ?case
  proof (cases "x = 0")
    case False
    obtain r w' where r: "next_action os x w = (r, w')" by force
    then have first: "length (rw_script w') = length (rw_script w) - 1" using next_action_script [of os x w] by simp
    have rest: "length (rw_script (snd (user_code os c w'))) \<le> length (rw_script w')" if "r = Inr (Go_on c)" for c
      using "1.IH" [OF False refl, of "Go_on c" c] that r by (simp split: if_splits)
    show ?thesis
      using False r first rest by (auto simp: user_code.simps [of os x w] Let_def split: sum.split control.split)
  qed (simp add: user_code.simps)
qed

text \<open>At the end of the script the coroutine comes to its end.\<close>

definition at_end :: "('k, 'v, 'm) io_world_scheme \<Rightarrow> bool" where
  "at_end w \<longleftrightarrow> (\<exists>x fr. fmlookup (io_frames w) x = Some fr \<and> fr_point fr = At_final)"

lemma finish_ends:
  assumes "finish os x w = (Inr Back, w')"
  shows "at_end w'"
proof -
  obtain w1 where w1: "set_point x At_final w = (Inr (), w1)"
    using assms by (auto simp: finish_def ebind_eq_Inr)
  then obtain fr where fr: "fmlookup (io_frames w1) x = Some fr" "fr_point fr = At_final"
    by (auto simp: set_point_def on_heap_def set_frame_def split: sum.splits option.splits)
  show ?thesis
    using assms w1 fr
    by (auto simp: finish_def ebind_eq_Inr at_end_def root_completed_def on_heap_def set_frame_def
        split: sum.splits option.splits if_splits)
qed

lemma wind_up_ends: "wind_up os x w = (Inr Back, w') \<Longrightarrow> at_end w'"
  by (auto simp: wind_up_def co_return_def co_raise_def ebind_eq_Inr dest: finish_ends split: list.splits if_splits)

lemma user_code_ends: "rw_script w = [] \<Longrightarrow> user_code os x w = (Inr u, w') \<Longrightarrow> at_end w'"
proof (induction os x w rule: user_code.induct)
  case (1 os x w)
  have x: "x \<noteq> 0"
  proof
    assume "x = 0"
    with "1.prems"(2) show False by (simp add: user_code.simps [of os 0 w])
  qed
  obtain r w1 where r: "wind_up os x w = (r, w1)" by force
  with "1.prems" have next_eq: "next_action os x w = (r, w1)" by (simp add: next_action_def)
  have s: "rw_script w1 = []" using next_action_script [of os x w] "1.prems" next_eq by simp
  show ?case
  proof (cases "r = Inr Back")
    case True
    with "1.prems" x next_eq r show ?thesis by (auto simp: user_code.simps [of os x w] dest: wind_up_ends)
  next
    case False
    then obtain c where c: "r = Inr (Go_on c)" "user_code os c w1 = (Inr u, w')"
      using "1.prems" x next_eq by (auto simp: user_code.simps [of os x w] Let_def split: sum.splits control.splits)
    with "1.IH" [OF x refl, of "Go_on c" c] next_eq s show ?thesis by simp
  qed
qed

lemma inv_not_at_end: "io_inv 0 M w \<Longrightarrow> \<not> at_end w"
  by (auto simp: at_end_def inv_but_def core_inv_def frame_ok_def dest!: heap_invD(2))

lemma drain_shrinks:
  fixes w :: "('k, 'v, 'm) run_world_scheme"
  assumes "drain_completed os w = (Inr u, w')" and "io_completed_head w \<noteq> 0"
  shows "frame_count w' < frame_count w"
proof -
  let ?h = "io_completed_head w"
  obtain fr where fr: "fmlookup (io_frames w) ?h = Some fr"
    using assms by (auto simp: drain_completed_def drain_loop.simps [of os None w] Let_def split: option.splits)
  let ?w = "w\<lparr>io_completed_head := fr_completed_next fr, io_roots := io_roots w |-| {|?h|}\<rparr>"
  obtain r w1 where d: "destroy os [?h] ?w = (r, w1)" by force
  then have r: "r = Inr ()" "drain_loop os (fr_exception fr) w1 = (Inr u, w')"
    using assms fr by (auto simp: drain_completed_def drain_loop.simps [of os None w] Let_def split: sum.splits)
  then have "frame_count w1 < frame_count ?w" using destroy_shrinks d by blast
  moreover have "frame_count w' \<le> frame_count w1" using frames.w_drain_loop [where w = w1 and os = os and e = "fr_exception fr"] r(2) by simp
  ultimately show ?thesis by simp
qed

lemma resume_spends:
  assumes inv: "io_inv 0 M w" and q: "io_ready w = h # rest"
    and run: "ebind (resume os h) (\<lambda>_. drain_completed os) (w\<lparr>io_ready := rest\<rparr>) = (Inr u, w')"
  shows "spends w w'"
proof -
  let ?w = "w\<lparr>io_ready := rest\<rparr>"
  obtain w1 where w1: "resume os h ?w = (Inr (), w1)" "drain_completed os w1 = (Inr u, w')"
    using run by (auto simp: ebind_eq_Inr)
  have "?w\<lparr>io_ready := h # io_ready ?w\<rparr> = w" using q by simp
  with inv have "io_inv 0 M (?w\<lparr>io_ready := h # io_ready ?w\<rparr>)" by metis
  from wp_resume [OF this, of os] w1(1) have settled: "settled M w1" by (simp add: wp_def)
  obtain fr where fr: "fmlookup (io_frames w) h = Some fr" using w1(1) by (auto simp: resume_def split: option.splits)
  with w1 obtain w0 where w0: "on_heap (resume_frame h) ?w = (Inr (), w0)"
    and code: "user_code os h (w0\<lparr>rw_log := rw_log w0 @ [(h, response_of (fr_point fr))]\<rparr>) = (Inr (), w1)"
    by (auto simp: resume_def ebind_eq_Inr note_log_def)
  have script0: "rw_script w0 = rw_script w" using w0 by (auto simp: on_heap_def split: sum.splits)
  have h: "h \<noteq> 0" by (rule client.front_resumable(1) [OF inv q])
  have script1: "length (rw_script w1) \<le> length (rw_script w) - 1"
    using user_code_script [of os h "w0\<lparr>rw_log := rw_log w0 @ [(h, response_of (fr_point fr))]\<rparr>"] code h script0 by simp
  have drain: "costs w1 w'" by (rule withinD [OF costs.w_drain_completed w1(2)])
  show ?thesis
  proof (cases "rw_script w = []")
    case False
    then have "spends w w1" using script1 by (cases "rw_script w") (auto simp: spends_def)
    with drain show ?thesis using spends_costs by blast
  next
    case True
    have "at_end w1" by (rule user_code_ends [OF _ code]) (use True script0 in simp)
    then have "io_completed_head w1 \<noteq> 0" using settled inv_not_at_end by (auto simp: settled_def ended_def)
    from drain_shrinks [OF w1(2) this] have "frame_count w' < frame_count w1" .
    moreover have "frame_count w1 \<le> frame_count ?w" using frames.c_resume [of ?w os h] w1(1) True by simp
    moreover have "rw_script w' = []" using drain script1 True by (auto simp: costs_def spends_def)
    ultimately show ?thesis using True by (auto simp: spends_def)
  qed
qed

lemma run_batch_costs:
  assumes "io_inv 0 M w" and "n \<le> length (io_ready w)" and "run_batch os (resume os) n w = (Inr u, w')"
  shows "costs w w' \<and> (n > 0 \<and> \<not> io_stop_requested w \<longrightarrow> spends w w')"
  using assms
proof (induction n arbitrary: w)
  case 0
  then show ?case by (simp add: costs.refl_R)
next
  case (Suc n)
  obtain h rest where q: "io_ready w = h # rest" using Suc.prems(2) by (cases "io_ready w") auto
  note front = client.front_resumable [OF Suc.prems(1) q]
  show ?case
  proof (cases "io_stop_requested w")
    case True
    with Suc.prems(3) show ?thesis by (simp add: costs.refl_R)
  next
    case go: False
    let ?step = "ebind (resume os h) (\<lambda>_. drain_completed os)"
    let ?w = "w\<lparr>io_ready := rest\<rparr>"
    from Suc.prems(3) q front go obtain w1 where w1: "?step ?w = (Inr (), w1)" "run_batch os (resume os) n w1 = (Inr u, w')"
      by (auto simp: ebind_eq_Inr)
    have inv1: "io_inv 0 M w1" "prefix rest (io_ready w1)"
      using client.resume_and_drain [OF Suc.prems(1) q, of os] w1(1) by (simp_all add: wp_def)
    have "spends w w1" by (rule resume_spends [OF Suc.prems(1) q w1(1)])
    moreover have "costs w1 w'"
      using Suc.IH [OF inv1(1) _ w1(2)] Suc.prems(2) q prefix_length_le [OF inv1(2)] by simp
    ultimately have "spends w w'" using spends_costs by blast
    then show ?thesis by (simp add: costs_def)
  qed
qed

lemma run_turn_spends:
  assumes "io_inv 0 M w" and "io_ready w \<noteq> []" and "\<not> io_stop_requested w"
    and "run_turn os (resume os) w = (Inr again, w')"
  shows "spends w w'"
proof -
  obtain w1 where w1: "run_ready os (resume os) w = (Inr (), w1)"
    and rest: "ebind (expire_timers os) (\<lambda>_ w. if stopping w then (Inr False, w) else run_poll os w) w1 = (Inr again, w')"
    using assms(4) by (auto simp: run_turn_def ebind_eq_Inr)
  have "spends w w1"
    using run_batch_costs [OF assms(1) order_refl w1 [unfolded run_ready_def]] assms(2,3) by simp
  moreover have "within costs (ebind (expire_timers os) (\<lambda>_ w. if stopping w then (Inr False, w) else run_poll os w))"
    by (intro within_rules costs.w_ebind costs.w_expire_timers withinI)
       (simp add: costs.refl_R within_at [OF costs.w_run_poll])
  from withinD [OF this rest] have "costs w1 w'" .
  ultimately show ?thesis using spends_costs by blast
qed

section \<open>The run returns\<close>

text \<open>The scripts shrink, and without blocking operations no coroutine blocks.\<close>

definition calmer :: "('k, 'v, 'm) run_world_scheme \<Rightarrow> ('k, 'v, 'm) run_world_scheme \<Rightarrow> bool" where
  "calmer w w' \<longleftrightarrow>
     set (rw_script w') \<subseteq> set (rw_script w) \<and>
     ((\<forall>a \<in> set (rw_script w). \<not> blocks a) \<longrightarrow> unblocked w \<longrightarrow> unblocked w')"

lemma permits_unblocking: "\<not> blocks a \<Longrightarrow> permits (\<lambda>p. \<not> blocking p) True a"
  by (cases a) (simp_all add: permits_def)

lemma script_user_code: "set (rw_script (snd (user_code os x w))) \<subseteq> set (rw_script w)"
proof (induction os x w rule: user_code.induct)
  case (1 os x w)
  show ?case
  proof (cases "x = 0")
    case False
    obtain r w' where r: "next_action os x w = (r, w')" by force
    have first: "set (rw_script w') \<subseteq> set (rw_script w)" using queue.script_next_action [of os x w] r by simp
    have rest: "set (rw_script (snd (user_code os c w'))) \<subseteq> set (rw_script w')" if "r = Inr (Go_on c)" for c
      using "1.IH" [OF False refl, of "Go_on c" c] that r by simp
    show ?thesis
      using False r first rest by (auto simp: user_code.simps [of os x w] Let_def split: sum.split control.split)
  qed (simp add: user_code.simps)
qed

lemma script_resume: "set (rw_script (snd (resume os h w))) \<subseteq> set (rw_script w)"
proof (cases "fmlookup (io_frames w) h")
  case (Some fr)
  obtain r w' where r: "on_heap (resume_frame h) w = (r, w')" by force
  then have "rw_script w' = rw_script w" by (auto simp: on_heap_def split: sum.splits)
  with Some r script_user_code [of os h "w'\<lparr>rw_log := rw_log w' @ [(h, response_of (fr_point fr))]\<rparr>"]
  show ?thesis by (cases r) (simp_all add: resume_def note_log_def ebind_def)
qed (simp add: resume_def)

interpretation calmer: loop_order "calmer :: ('k, 'v, 'm) run_world_scheme \<Rightarrow> _"
proof unfold_locales
  fix u v w :: "('k, 'v, 'm) run_world_scheme" and h H b f
  show "calmer u v \<Longrightarrow> calmer v w \<Longrightarrow> calmer u w" by (auto simp: calmer_def)
  show "calmer w (w\<lparr>io_frames := H\<rparr>)" if "set_result h b (io_frames w) = Inr H"
    using unblocked.result [OF that] by (simp add: calmer_def)
  show "calmer w (w\<lparr>io_frames := H\<rparr>)" if "set_frame h f (io_frames w) = Inr H" "\<And>fr. fr_point (f fr) = fr_point fr"
    using unblocked.promise [OF that] by (simp add: calmer_def)
  show "calmer w (w\<lparr>io_frames := fmdrop h (io_frames w)\<rparr>)"
    using unblocked.dropped [of w h] by (simp add: calmer_def)
qed (simp_all add: calmer_def unblocked_def)

lemma resume_calmer:
  fixes os :: "'k os"
  shows "within (calmer :: ('k, 'v, 'm) run_world_scheme \<Rightarrow> _) (resume os h)"
proof (rule withinI)
  fix w :: "('k, 'v, 'm) run_world_scheme"
  show "calmer w (snd (resume os h w))"
    using script_resume [of os h w] unblocked.c_resume [OF permits_unblocking, of w os h]
    unfolding calmer_def by blast
qed

lemma run_loop_returns:
  assumes "wait_bounded os"
  shows "io_inv 0 M w \<Longrightarrow> unblocked w \<Longrightarrow> \<forall>a \<in> set (rw_script w). \<not> blocks a \<Longrightarrow>
    \<exists>r. run_loop os (resume os) w = Some r"
proof (induction "(length (rw_script w), frame_count w)" arbitrary: w rule: wf_induct [OF wf_lex_prod [OF wf_less_than wf_less_than]])
  case (1 w)
  show ?case
  proof (cases "stopping w")
    case True
    then show ?thesis by (simp add: run_loop.simps)
  next
    case False
    then have "io_ready w \<noteq> []" "\<not> io_stop_requested w"
      using unblocked_ready [OF "1.prems"(1,2)] by (simp_all add: stopping_def)
    note spend = run_turn_spends [OF "1.prems"(1) this, of os]
    obtain r w' where r: "run_turn os (resume os) w = (r, w')" by force
    have "\<exists>y. run_loop os (resume os) w' = Some y" if "r = Inr True"
    proof -
      have "io_inv 0 M w'" using client.run_turn_inv [OF "1.prems"(1) assms] r that by (simp add: wp_def)
      moreover have "calmer w w'" by (rule withinD [OF calmer.l_run_turn [OF resume_calmer] r])
      moreover have "spends w w'" using spend r that by simp
      moreover have "((length (rw_script w'), frame_count w'), (length (rw_script w), frame_count w))
          \<in> less_than <*lex*> less_than"
        using calculation(3) by (auto simp: spends_def)
      ultimately show ?thesis using "1.hyps" "1.prems"(2,3) unfolding calmer_def by blast
    qed
    with False r show ?thesis by (auto simp: run_loop.simps [of os _ w] Let_def split: sum.split)
  qed
qed

end
