(* ===== verification/Io_Spec.thy ===== *)
theory Io_Spec
  imports Termination
begin

text \<open>
  What the operations of the executor do, as equations or against abstract specifications: arming
  and cancelling waits, readiness, timers and the timeout of a poll.
\<close>

section \<open>Cancelling\<close>

definition waiters :: "fd_state \<Rightarrow> handle list" where
  "waiters st =
     (case fs_reader st of None \<Rightarrow> [] | Some ws \<Rightarrow> [ws_continuation ws]) @
     (case fs_writer st of None \<Rightarrow> [] | Some ws \<Rightarrow> [ws_continuation ws])"

abbreviation set_all_ready :: "bool \<Rightarrow> handle list \<Rightarrow> 'v heap \<Rightarrow> 'v heap" where
  "set_all_ready b hs F \<equiv> fold (\<lambda>h. set_ready h b) hs F"

lemma woken_both:
  assumes "fmlookup (io_fd_states w) fd = Some st"
  shows "erase_fd fd (woken fd WRITE b (woken fd READ b w)) =
    w\<lparr>io_fd_states := fmdrop fd (io_fd_states w), io_frames := set_all_ready b (waiters st) (io_frames w),
      io_ready := io_ready w @ waiters st\<rparr>"
proof -
  have S: "io_fd_states (woken fd READ b w) = fmupd fd (set_slot READ None st) (io_fd_states w)"
    by (rule woken_fd [OF assms]) simp
  then have "waiting (io_fd_states (woken fd READ b w)) fd WRITE = fs_writer st"
    by (simp add: waiting_def slot_def set_slot_def)
  moreover have "waiting (io_fd_states w) fd READ = fs_reader st" using assms by (simp add: waiting_def slot_def)
  ultimately show ?thesis
    using assms S
    by (cases "fs_reader st"; cases "fs_writer st")
       (auto simp: woken_def [of fd WRITE] woken_def [of fd READ] erase_fd_def waiters_def modify_fd_some fmdrop_fmupd_same
         intro: io_world.equality)
qed

lemma cancel_eq:
  assumes inv: "inv_but b None x M w" and st: "fmlookup (io_fd_states w) fd = Some st"
  shows "\<exists>k. cancel os fd w = (Inr (), w\<lparr>lp_kernel := k, lp_channels := fmdrop fd (lp_channels w),
    io_fd_states := fmdrop fd (io_fd_states w), io_frames := set_all_ready False (waiters st) (io_frames w),
    io_ready := io_ready w @ waiters st\<rparr>)"
proof -
  have core: "core_inv b x M w" and reg: "reg_inv None (io_fd_states w) (lp_channels w) (io_next_addr w)"
    using inv by (simp_all add: inv_but_def)
  have ok: "fd_ok (lp_channels w) (io_next_addr w) fd st" using reg_invD(1) [OF reg st] by simp
  obtain k where k: "remove_channel os (fs_addr st) (fs_channel st) w =
      (Inr (), w\<lparr>lp_channels := fmdrop fd (lp_channels w), lp_kernel := k\<rparr>)"
    using remove_channel_eq [OF ok] by metis
  let ?st = "st\<lparr>fs_registered := False\<rparr>"
  define w1 where "w1 = w\<lparr>lp_channels := fmdrop fd (lp_channels w), lp_kernel := k, io_fd_states := fmupd fd ?st (io_fd_states w)\<rparr>"
  have st1: "fmlookup (io_fd_states w1) fd = Some ?st" by (simp add: w1_def)
  have core1: "core_inv b x M w1"
    using core_cong [OF core waiting_same_slots [OF st, of ?st]] by (simp add: w1_def core_inv_def)
  let ?w2 = "woken fd READ False w1"
  have st2: "fmlookup (io_fd_states ?w2) fd = Some (set_slot READ None ?st)" by (simp add: woken_fd [OF st1])
  have core2: "core_inv b x M ?w2" using core_woken [OF core1 st1] by simp
  have "cancel os fd w = (Inr (), erase_fd fd (woken fd WRITE False ?w2))"
    using st ok k complete_woken [OF core1 st1, of READ False] complete_woken [OF core2 st2, of WRITE False]
    by (simp add: cancel_def fd_ok_def ebind_def modify_fd_some w1_def)
  also have "erase_fd fd (woken fd WRITE False ?w2) = w\<lparr>lp_kernel := k, lp_channels := fmdrop fd (lp_channels w),
    io_fd_states := fmdrop fd (io_fd_states w), io_frames := set_all_ready False (waiters st) (io_frames w),
    io_ready := io_ready w @ waiters st\<rparr>"
    unfolding woken_both [OF st1]
    by (auto simp: w1_def waiters_def fmdrop_fmupd_same intro!: io_world.equality)
  finally show ?thesis by blast
qed

text \<open>
  Cancelling an fd. If nothing waits on it nothing happens. Otherwise the waiting reader, then
  the waiting writer are queued with the result \<open>false\<close>, the descriptor is forgotten and taken
  off the event loop, and no other wait, frame, timer or queue entry changes; it never throws.
\<close>

theorem cancel_completes_waiters:
  assumes "inv_but 0 None x M w"
  shows "case fmlookup (io_fd_states w) fd of
      None \<Rightarrow> cancel os fd w = (Inr (), w)
    | Some st \<Rightarrow> \<exists>k. cancel os fd w = (Inr (), w\<lparr>lp_kernel := k, lp_channels := fmdrop fd (lp_channels w),
        io_fd_states := fmdrop fd (io_fd_states w), io_frames := set_all_ready False (waiters st) (io_frames w),
        io_ready := io_ready w @ waiters st\<rparr>)"
  using cancel_eq [OF assms] by (auto simp: cancel_def split: option.split)

theorem cancel_completes_waiters_witness:
  "io_ready (snd (cancel demo_os 5 (demo_run [] demo_waiting))) = [1]"
proof -
  let ?w = "demo_run [] demo_waiting"
  have inv: "program_inv ?w" by (rule demo_run_inv [OF demo_waiting_runs]) simp
  have "map_option waiters (fmlookup (io_fd_states ?w) 5) = Some [1]" "io_ready ?w = []" by code_simp+
  then show ?thesis using cancel_completes_waiters [OF inv, where fd = 5 and os = demo_os] by auto
qed

section \<open>Timers\<close>

text \<open>
  The specification of \<open>expire_timers\<close>: the waits are a map from descriptor and direction to the
  waiting coroutine and its token; an expired entry completes the wait that still has its token.
  Any event other than \<open>READ\<close> stands for the writer's side.
\<close>

definition side :: "event \<Rightarrow> event" where
  "side ev = (if ev = READ then READ else WRITE)"

fun expire_spec :: "timer_entry list \<Rightarrow> (int \<times> event \<Rightarrow> wait_slot option) \<Rightarrow>
    handle list \<times> (int \<times> event \<Rightarrow> wait_slot option)" where
  "expire_spec [] W = ([], W)"
| "expire_spec (t # ts) W =
     (case W (te_fd t, side (te_event t)) of
        Some ws \<Rightarrow>
          if ws_token ws = te_token t
          then (case expire_spec ts (W((te_fd t, side (te_event t)) := None)) of (hs, W') \<Rightarrow> (ws_continuation ws # hs, W'))
          else expire_spec ts W
      | None \<Rightarrow> expire_spec ts W)"

definition waits_of :: "(int, fd_state) fmap \<Rightarrow> int \<times> event \<Rightarrow> wait_slot option" where
  "waits_of S = (\<lambda>(fd, ev). if direction ev then waiting S fd ev else None)"

abbreviation waits :: "('k, 'v, 'm) io_world_scheme \<Rightarrow> int \<times> event \<Rightarrow> wait_slot option" where
  "waits w \<equiv> waits_of (io_fd_states w)"

lemma waiting_side: "waiting S fd (side ev) = waiting S fd ev"
  by (auto simp: waiting_def side_def slot_def split: option.split)

lemma side_side [simp]: "side (side ev) = side ev"
  by (simp add: side_def)

lemma timer_active_waiting:
  "timer_active t w \<longleftrightarrow>
     (case waiting (io_fd_states w) (te_fd t) (te_event t) of None \<Rightarrow> False | Some ws \<Rightarrow> ws_token ws = te_token t)"
  by (simp add: timer_active_def waiting_def split: option.split)

lemma side_direction [simp]: "direction (side ev)"
  by (simp add: side_def)

lemma waiting_modify:
  assumes "\<And>st. fs_reader (g st) = fs_reader st" and "\<And>st. fs_writer (g st) = fs_writer st"
  shows "waiting (io_fd_states (modify_fd fd g w)) = waiting (io_fd_states w)"
  using waiting_same_slots [of "io_fd_states w" fd _ "g st" for st] assms
  by (simp add: modify_fd_def split: option.split)

lemma refresh_keeps_waits: "preserves (\<lambda>w. waiting (io_fd_states w)) (refresh_interest os fd)"
proof (rule preserves_applied)
  fix w
  let ?f = "\<lambda>w. waiting (io_fd_states w)"
  have reg: "?f (modify_fd fd (fs_registered_update (\<lambda>_. b)) w) = ?f w" for b w by (rule waiting_modify) simp_all
  have int: "?f (modify_fd fd (set_interest i) w) = ?f w" for i w by (rule waiting_modify) (simp_all add: set_interest_def)
  have del: "preserves ?f (ebind (remove_channel os p ch)
      (\<lambda>_. emodify (modify_fd fd (fs_registered_update (\<lambda>_. False)))))" for p and ch :: "(int \<times> event) channel"
    by (intro preserve_rules preserves_remove_channel) (simp_all add: reg)
  have add: "preserves ?f (ebind (add_channel os p ch)
      (\<lambda>_. emodify (modify_fd fd (fs_registered_update (\<lambda>_. True)))))" for p and ch :: "(int \<times> event) channel"
    by (intro preserve_rules preserves_add_channel) (simp_all add: reg)
  have upd: "preserves ?f (update_channel os p ch)" for p and ch :: "(int \<times> event) channel"
    by (intro preserves_update_channel) simp
  show "?f (snd (refresh_interest os fd w)) = ?f w"
    unfolding refresh_interest_def Let_def
    by (simp add: preservesD [OF del] preservesD [OF add] preservesD [OF upd] int split: option.split)
qed

lemma erase_keeps_waits: "preserves (\<lambda>w. waiting (io_fd_states w)) (erase_if_empty fd)"
  by (rule preserves_applied)
     (auto simp: erase_if_empty_def both_empty_def erase_fd_def waiting_drop_empty split: option.split)

lemma refresh_erase_keeps:
  assumes "ebind (refresh_interest os fd) (\<lambda>_. erase_if_empty fd) w = (r, w')"
  shows "waiting (io_fd_states w') = waiting (io_fd_states w)" and "io_ready w' = io_ready w"
    and "io_frames w' = io_frames w"
proof -
  show "waiting (io_fd_states w') = waiting (io_fd_states w)"
    by (rule preserves_result [OF preserves_ebind assms]) (rule refresh_keeps_waits erase_keeps_waits)+
  show "io_ready w' = io_ready w"
    by (rule preserves_result [OF preserves_ebind [OF preserves_refresh_interest] assms])
       (simp_all add: erase_if_empty_def preserves_def erase_fd_def)
  show "io_frames w' = io_frames w"
    by (rule preserves_result [OF preserves_ebind [OF preserves_refresh_interest] assms])
       (simp_all add: erase_if_empty_def preserves_def erase_fd_def)
qed

text \<open>One due entry: it completes the wait with its token, if there is one, with the result \<open>false\<close>.\<close>

lemma expire_one_spec:
  assumes inv: "inv_but 0 None x M w" and "expire_one os t w = (Inr (), w')"
  shows "case expire_spec [t] (waits w) of (hs, W) \<Rightarrow>
    waits w' = W \<and> io_ready w' = io_ready w @ hs \<and> io_frames w' = set_all_ready False hs (io_frames w)"
proof (cases "timer_active t w")
  case False
  then have "expire_spec [t] (waits w) = ([], waits w)"
    by (auto simp: timer_active_waiting waits_of_def waiting_side split: option.splits)
  with False assms(2) show ?thesis by (simp add: expire_one_def)
next
  case True
  let ?fd = "te_fd t" and ?ev = "side (te_event t)"
  from True obtain st ws where st: "fmlookup (io_fd_states w) ?fd = Some st" and ws: "slot st (te_event t) = Some ws"
      "ws_token ws = te_token t"
    by (auto simp: timer_active_def split: option.splits)
  have core: "core_inv 0 x M w" using inv by (simp add: inv_but_def)
  have norm: "complete ?fd (te_event t) False = (complete ?fd ?ev False :: (('a, 'b, 'c) io_world_scheme, unit) eff)"
    by (cases "te_event t = READ") (simp_all add: side_def complete_norm [of "te_event t"])
  let ?w = "woken ?fd ?ev False w"
  have wt: "waiting (io_fd_states w) ?fd ?ev = Some ws"
    using st ws by (simp add: waiting_side) (simp add: waiting_def)
  have "ebind (refresh_interest os ?fd) (\<lambda>_. erase_if_empty ?fd) ?w = (Inr (), w')"
    using assms(2) True complete_woken [OF core st side_direction, of "te_event t" False] by (simp add: expire_one_def norm ebind_def)
  note keep = refresh_erase_keeps [OF this]
  have "waits w' = waits ?w" by (simp only: waits_of_def keep(1))
  also have "\<dots> = (waits w)((?fd, ?ev) := None)"
    by (auto simp: waits_of_def woken_fd [OF st] fun_eq_iff waiting_upd [OF _ _ st])
  finally have "waits w' = (waits w)((?fd, ?ev) := None)" .
  moreover have "io_ready ?w = io_ready w @ [ws_continuation ws]"
      "io_frames ?w = set_ready (ws_continuation ws) False (io_frames w)"
    using st by (simp_all add: woken_def wt modify_fd_some)
  moreover have "expire_spec [t] (waits w) = ([ws_continuation ws], (waits w)((?fd, ?ev) := None))"
    using wt ws by (simp add: waits_of_def)
  ultimately show ?thesis using keep(2,3) by simp
qed

lemma expire_spec_cons:
  "expire_spec (t # ts) W =
     (case expire_spec [t] W of (hs, W') \<Rightarrow> (case expire_spec ts W' of (hs', W'') \<Rightarrow> (hs @ hs', W'')))"
  by (auto split: option.split prod.split)

lemma expire_loop_spec:
  assumes "inv_but 0 None x M w" and "expire_loop os now w = (Inr (), w')"
  shows "case expire_spec (takeWhile (\<lambda>t. te_deadline t \<le> now) (io_timers w)) (waits w) of (hs, W) \<Rightarrow>
    waits w' = W \<and> io_ready w' = io_ready w @ hs \<and> io_frames w' = set_all_ready False hs (io_frames w) \<and>
    io_timers w' = dropWhile (\<lambda>t. te_deadline t \<le> now) (io_timers w) \<and> inv_but 0 None x M w'"
  using assms
proof (induction os now w rule: expire_loop.induct)
  case (1 os now w)
  show ?case
  proof (cases "\<exists>t ts. io_timers w = t # ts \<and> te_deadline t \<le> now")
    case False
    with "1.prems" show ?thesis by (cases "io_timers w") (auto simp: expire_loop.simps [of os now w])
  next
    case True
    then obtain t ts where t: "io_timers w = t # ts" "te_deadline t \<le> now" by blast
    let ?w = "w\<lparr>io_timers := ts\<rparr>"
    obtain r w1 where e: "expire_one os t ?w = (r, w1)" by force
    from "1.prems"(2) t e obtain u where r: "r = Inr ()" and rest: "expire_loop os now w1 = (Inr (), w')"
      by (cases r) (simp_all add: expire_loop.simps [of os now w])
    have inv: "inv_but 0 None x M ?w" using "1.prems"(1) by simp
    have inv1: "inv_but 0 None x M w1" using wp_expire_one [OF inv, of os t] e r by (simp add: wp_def)
    have ts: "io_timers w1 = ts"
      using preserves_result [OF preserves_expire_one [of io_timers] e] by (simp add: preserves_set_result)
    obtain hs W where one: "expire_spec [t] (waits w) = (hs, W)" by force
    have w1: "waits w1 = W" "io_ready w1 = io_ready w @ hs" "io_frames w1 = set_all_ready False hs (io_frames w)"
      using expire_one_spec [OF inv, of os t w1] e r one by (simp_all del: expire_spec.simps)
    obtain hs' W' where more: "expire_spec (takeWhile (\<lambda>t. te_deadline t \<le> now) ts) W = (hs', W')" by force
    have IH: "waits w' = W'" "io_ready w' = io_ready w1 @ hs'" "io_frames w' = set_all_ready False hs' (io_frames w1)"
        "io_timers w' = dropWhile (\<lambda>t. te_deadline t \<le> now) ts" "inv_but 0 None x M w'"
      using "1.IH" [OF t(1) t(2) refl, of "()"] inv1 rest ts more w1(1) e r by auto
    show ?thesis
      using t IH w1 one more expire_spec_cons [of t "takeWhile (\<lambda>t. te_deadline t \<le> now) ts" "waits w"]
      by (simp del: expire_spec.simps)
  qed
qed



section \<open>Readiness\<close>

text \<open>
  The specification of a poll: the kernel's reports name descriptors and directions, where an
  error or a hang-up stands for both; each of them wakes the coroutine that waits there, if any.
\<close>

definition reported :: "u32 \<times> int \<Rightarrow> (int \<times> event) list" where
  "reported = (\<lambda>(events, fd).
     let terminal = events AND (EPOLLERR OR EPOLLHUP OR EPOLLRDHUP) \<noteq> 0 in
     (if events AND EPOLLIN \<noteq> 0 \<or> terminal then [(fd, READ)] else []) @
     (if events AND EPOLLOUT \<noteq> 0 \<or> terminal then [(fd, WRITE)] else []))"

fun wake_spec :: "(int \<times> event) list \<Rightarrow> (int \<times> event \<Rightarrow> wait_slot option) \<Rightarrow>
    handle list \<times> (int \<times> event \<Rightarrow> wait_slot option)" where
  "wake_spec [] W = ([], W)"
| "wake_spec (k # ks) W =
     (case W k of
        None \<Rightarrow> wake_spec ks W
      | Some ws \<Rightarrow> (case wake_spec ks (W(k := None)) of (hs, W') \<Rightarrow> (ws_continuation ws # hs, W')))"

definition woke :: "(int \<times> event) list \<Rightarrow> ('k, 'v, 'm) io_world_scheme \<Rightarrow> ('k, 'v, 'm) io_world_scheme \<Rightarrow> bool" where
  "woke ks w w' \<longleftrightarrow>
     (case wake_spec ks (waits w) of (hs, W) \<Rightarrow>
        waits w' = W \<and> io_ready w' = io_ready w @ hs \<and> io_frames w' = set_all_ready True hs (io_frames w))"

lemma wake_spec_append:
  "wake_spec (ks @ ks') W =
     (case wake_spec ks W of (hs, W') \<Rightarrow> (case wake_spec ks' W' of (hs', W'') \<Rightarrow> (hs @ hs', W'')))"
  by (induction ks arbitrary: W) (auto split: option.split prod.split)

lemma woke_trans: "woke ks w w1 \<Longrightarrow> woke ks' w1 w2 \<Longrightarrow> woke (ks @ ks') w w2"
  by (auto simp: woke_def wake_spec_append split: prod.splits)

lemma woke_nil [simp]: "woke [] w w"
  by (simp add: woke_def)

lemma woke_no_waiter: "waits w k = None \<Longrightarrow> woke [k] w w"
  by (simp add: woke_def)

lemma on_ready_woke:
  assumes inv: "inv_but b None x M w" and ev: "direction ev" and run: "on_ready os fd ev w = (Inr (), w')"
  shows "woke [(fd, ev)] w w'"
proof (cases "fmlookup (io_fd_states w) fd")
  case None
  with run show ?thesis by (auto simp: on_ready_def waits_of_def waiting_def intro: woke_no_waiter)
next
  case (Some st)
  have core: "core_inv b x M w" using inv by (simp add: inv_but_def)
  let ?w = "woken fd ev True w"
  have "ebind (refresh_interest os fd) (\<lambda>_. erase_if_empty fd) ?w = (Inr (), w')"
    using run Some complete_woken [OF core Some ev, of True] by (simp add: on_ready_def ebind_def)
  note keep = refresh_erase_keeps [OF this]
  have "waits w' = waits ?w" by (simp only: waits_of_def keep(1))
  also have "\<dots> = (waits w)((fd, ev) := None)"
    using ev by (auto simp: waits_of_def woken_fd [OF Some] fun_eq_iff waiting_upd [OF _ _ Some])
  finally have "waits w' = (waits w)((fd, ev) := None)" .
  moreover have "waits w (fd, ev) = waiting (io_fd_states w) fd ev" using ev by (simp add: waits_of_def)
  ultimately show ?thesis
    using keep(2,3) Some
    by (cases "waiting (io_fd_states w) fd ev") (auto simp: woke_def woken_def modify_fd_some)
qed

lemma refresh_keeps_addr: "preserves (\<lambda>w. map_option fs_addr (fmlookup (io_fd_states w) fd)) (refresh_interest os fd')"
proof (rule preserves_applied)
  fix w
  let ?f = "\<lambda>w. map_option fs_addr (fmlookup (io_fd_states w) fd)"
  have mod: "?f (modify_fd fd' g w) = ?f w" if "\<And>st. fs_addr (g st) = fs_addr st" for g w
    using that by (auto simp: modify_fd_def split: option.split)
  have reg: "?f (modify_fd fd' (fs_registered_update (\<lambda>_. b)) w) = ?f w" for b w by (rule mod) simp
  have int: "?f (modify_fd fd' (set_interest i) w) = ?f w" for i w by (rule mod) (simp add: set_interest_def)
  have del: "preserves ?f (ebind (remove_channel os p ch)
      (\<lambda>_. emodify (modify_fd fd' (fs_registered_update (\<lambda>_. False)))))" for p and ch :: "(int \<times> event) channel"
    by (intro preserve_rules preserves_remove_channel) (simp_all add: reg)
  have add: "preserves ?f (ebind (add_channel os p ch)
      (\<lambda>_. emodify (modify_fd fd' (fs_registered_update (\<lambda>_. True)))))" for p and ch :: "(int \<times> event) channel"
    by (intro preserve_rules preserves_add_channel) (simp_all add: reg)
  have upd: "preserves ?f (update_channel os p ch)" for p and ch :: "(int \<times> event) channel"
    by (intro preserves_update_channel) simp
  show "?f (snd (refresh_interest os fd' w)) = ?f w"
    unfolding refresh_interest_def Let_def
    by (simp add: preservesD [OF del] preservesD [OF add] preservesD [OF upd] int split: option.split)
qed

lemma on_ready_addr:
  assumes "inv_but b None x M w" and "direction ev" and "on_ready os fd ev w = (Inr (), w')"
    and "fmlookup (io_fd_states w') fd = Some st'"
  shows "map_option fs_addr (fmlookup (io_fd_states w) fd) = Some (fs_addr st')"
proof (cases "fmlookup (io_fd_states w) fd")
  case None
  with assms(3,4) show ?thesis by (simp add: on_ready_def)
next
  case (Some st)
  have core: "core_inv b x M w" using assms(1) by (simp add: inv_but_def)
  let ?w = "woken fd ev True w"
  obtain w1 where w1: "refresh_interest os fd ?w = (Inr (), w1)" and w': "erase_if_empty fd w1 = (Inr (), w')"
    using assms(3) Some complete_woken [OF core Some assms(2), of True] by (auto simp: on_ready_def ebind_eq_Inr)
  have "fmlookup (io_fd_states w1) fd = Some st'"
    using w' assms(4) by (auto simp: erase_if_empty_def erase_fd_def split: if_splits)
  with preserves_result [OF refresh_keeps_addr w1, of fd] Some show ?thesis
    by (simp add: woken_fd [OF Some assms(2)] set_slot_def)
qed

text \<open>A descriptor that is not registered with the event loop has no waiters.\<close>

lemma unregistered_no_waits:
  assumes "inv_but b None x M w" and "fmlookup (lp_channels w) fd = None"
  shows "waits w (fd, ev) = None"
proof -
  have reg: "reg_inv None (io_fd_states w) (lp_channels w) (io_next_addr w)" using assms(1) by (simp add: inv_but_def)
  have "fmlookup (lp_channels w) fd \<noteq> None" if "fmlookup (io_fd_states w) fd = Some st" for st
    using reg_invD(1) [OF reg that] by (simp add: fd_ok_def)
  with assms(2) have "fmlookup (io_fd_states w) fd = None" by (cases "fmlookup (io_fd_states w) fd") simp_all
  then show ?thesis by (simp add: waits_of_def waiting_def)
qed

lemma registered_channel:
  assumes "inv_but b None x M w" and "fmlookup (lp_channels w) fd = Some p"
  obtains ch st where "io_chan_at w p = Some ch" and "ch_on_read ch = Some (fd, READ)" and "ch_on_write ch = Some (fd, WRITE)"
    and "fmlookup (io_fd_states w) fd = Some st" and "fs_addr st = p"
proof -
  have reg: "reg_inv None (io_fd_states w) (lp_channels w) (io_next_addr w)" using assms(1) by (simp add: inv_but_def)
  obtain st where st: "fmlookup (io_fd_states w) fd = Some st" using reg_invD(2) [OF reg assms(2)] by blast
  then have ok: "fd_ok (lp_channels w) (io_next_addr w) fd st" using reg_invD(1) [OF reg st] by simp
  then have p: "fs_addr st = p" using assms(2) by (simp add: fd_ok_def)
  have cb: "ch_on_read (fs_channel st) = Some (fd, READ)" "ch_on_write (fs_channel st) = Some (fd, WRITE)"
    using ok unfolding fd_ok_def by blast+
  show ?thesis by (rule that [OF _ cb st p]) (use p io_chan_at_some [OF reg st] in simp)
qed

lemma call_if_woke:
  assumes "inv_but b None x M w" and "direction ev"
    and "call_if c (Some (fd, ev)) (\<lambda>(fd, ev). on_ready os fd ev) w = (Inr (), w')"
  shows "woke (if c then [(fd, ev)] else []) w w' \<and> inv_but b None x M w'"
proof (cases c)
  case True
  with assms(3) have run: "on_ready os fd ev w = (Inr (), w')" by (simp add: call_if_def)
  with on_ready_woke [OF assms(1,2) run] wp_on_ready [OF assms(1,2), of os fd] True show ?thesis by (simp add: wp_def)
qed (use assms in \<open>simp add: call_if_def\<close>)

lemma dispatch_event_woke:
  assumes inv: "inv_but b None x M w"
    and run: "dispatch_event io_chan_at (\<lambda>(fd, ev). on_ready os fd ev) events fd w = (Inr (), w')"
  shows "woke (reported (events, fd)) w w' \<and> inv_but b None x M w'"
proof (cases "fmlookup (lp_channels w) fd")
  case None
  then have "waits w (fd, READ) = None" "waits w (fd, WRITE) = None" using unregistered_no_waits [OF inv] by simp_all
  then have "woke (reported (events, fd)) w w" by (auto simp: reported_def woke_def Let_def)
  with None run inv show ?thesis by (simp add: dispatch_event_def)
next
  case (Some p)
  define terminal where "terminal \<longleftrightarrow> events AND (EPOLLERR OR EPOLLHUP OR EPOLLRDHUP) \<noteq> 0"
  let ?in = "events AND EPOLLIN \<noteq> 0 \<or> terminal" and ?out = "events AND EPOLLOUT \<noteq> 0 \<or> terminal"
  let ?call = "\<lambda>c cb. call_if c cb (\<lambda>(fd, ev). on_ready os fd ev) :: (('a, 'b, 'c) io_world_scheme, unit) eff"
  from registered_channel [OF inv Some] obtain ch st where ch: "io_chan_at w p = Some ch" "ch_on_read ch = Some (fd, READ)"
    and st: "fmlookup (io_fd_states w) fd = Some st" "fs_addr st = p" by metis
  from run have "ebind (?call ?in (Some (fd, READ))) (\<lambda>_ w1.
      if fmlookup (lp_channels w1) fd \<noteq> Some p then (Inr (), w1)
      else (case io_chan_at w1 p of None \<Rightarrow> (Inl Undefined_behaviour, w1)
            | Some ch1 \<Rightarrow> ?call ?out (ch_on_write ch1) w1)) w = (Inr (), w')"
    unfolding dispatch_event_def Let_def terminal_def [symmetric] Some ch option.case .
  then obtain w1 where w1: "?call ?in (Some (fd, READ)) w = (Inr (), w1)"
    and second: "(if fmlookup (lp_channels w1) fd \<noteq> Some p then (Inr (), w1)
      else (case io_chan_at w1 p of None \<Rightarrow> (Inl Undefined_behaviour, w1)
            | Some ch1 \<Rightarrow> ?call ?out (ch_on_write ch1) w1)) = (Inr (), w')"
    unfolding ebind_eq_Inr by auto
  have first: "woke (if ?in then [(fd, READ)] else []) w w1" "inv_but b None x M w1"
    using call_if_woke [OF inv _ w1] by simp_all
  have "woke (if ?out then [(fd, WRITE)] else []) w1 w' \<and> inv_but b None x M w'"
  proof (cases "fmlookup (lp_channels w1) fd")
    case None
    with second unregistered_no_waits [OF first(2) None] first(2) show ?thesis by (auto intro: woke_no_waiter)
  next
    case (Some p')
    from registered_channel [OF first(2) Some] obtain ch1 st1 where ch1: "io_chan_at w1 p' = Some ch1"
      "ch_on_write ch1 = Some (fd, WRITE)" and st1: "fmlookup (io_fd_states w1) fd = Some st1" "fs_addr st1 = p'" by metis
    have "p' = p"
      using on_ready_addr [OF inv _ _ st1(1), of READ os] w1 st st1 by (auto simp: call_if_def split: if_splits)
    with second Some ch1 have "?call ?out (Some (fd, WRITE)) w1 = (Inr (), w')" by simp
    from call_if_woke [OF first(2) _ this] show ?thesis by simp
  qed
  with woke_trans [OF first(1)] show ?thesis by (simp add: reported_def Let_def terminal_def)
qed

lemma dispatch_all_woke:
  "inv_but b None x M w \<Longrightarrow> dispatch_all io_chan_at (\<lambda>(fd, ev). on_ready os fd ev) evs w = (Inr (), w') \<Longrightarrow>
     woke (concat (map reported evs)) w w'"
proof (induction evs arbitrary: w)
  case (Cons e evs)
  obtain events fd where e: "e = (events, fd)" by force
  with Cons.prems(2) obtain w1 where w1: "dispatch_event io_chan_at (\<lambda>(fd, ev). on_ready os fd ev) events fd w = (Inr (), w1)"
    "dispatch_all io_chan_at (\<lambda>(fd, ev). on_ready os fd ev) evs w1 = (Inr (), w')" by (auto simp: ebind_eq_Inr)
  from dispatch_event_woke [OF Cons.prems(1) w1(1)] Cons.IH [OF _ w1(2)] e show ?case by (auto intro: woke_trans)
qed simp

text \<open>
  C9: a poll wakes whom the kernel reports. When the poll of the executor returns after the kernel
  has reported readiness, the coroutines that waited for a reported descriptor and direction, an
  error or hang-up being both, have been queued in the order of the reports, each once, with
  the result \<open>true\<close>; their waits are gone and every other wait and frame is as before.
\<close>

theorem poll_wakes_reported:
  assumes "inv_but b None x M w" and "os_epoll_wait os (lp_poller w) kMaxEvents t (lp_kernel w) = (Inr evs, k)"
    and "poll os io_chan_at (\<lambda>(fd, ev). on_ready os fd ev) t w = (Inr (), w')"
  shows "woke (concat (map reported evs)) w w'"
proof -
  let ?w = "w\<lparr>lp_kernel := k\<rparr>"
  have "dispatch_all io_chan_at (\<lambda>(fd, ev). on_ready os fd ev) evs ?w = (Inr (), w')"
    using assms(2,3) by (auto simp: poll_def dispatch_events_def ebind_eq_Inr split: if_splits)
  moreover have "inv_but b None x M ?w" using assms(1) by simp
  ultimately have "woke (concat (map reported evs)) ?w w'" by (rule dispatch_all_woke [rotated])
  then show ?thesis by (simp add: woke_def)
qed

theorem poll_wakes_reported_witness:
  "\<exists>w'. poll demo_os io_chan_at (\<lambda>(fd, ev). on_ready demo_os fd ev) 0 (demo_run [[(EPOLLHUP, 5)]] demo_waiting) = (Inr (), w') \<and>
     io_ready w' = [1]"
proof -
  let ?w = "demo_run [[(EPOLLHUP, 5)]] demo_waiting"
  let ?poll = "poll demo_os io_chan_at (\<lambda>(fd, ev). on_ready demo_os fd ev) 0 ?w"
  have inv: "program_inv ?w" by (rule demo_run_inv [OF demo_waiting_runs]) simp
  have "fst (os_epoll_wait demo_os (lp_poller ?w) kMaxEvents 0 (lp_kernel ?w)) = Inr [(EPOLLHUP, 5)]"
    "fst ?poll = Inr ()" by code_simp+
  then obtain k w' where w: "os_epoll_wait demo_os (lp_poller ?w) kMaxEvents 0 (lp_kernel ?w) = (Inr [(EPOLLHUP, 5)], k)"
      "?poll = (Inr (), w')" by (metis prod.collapse)
  have "fst (wake_spec (concat (map reported [(EPOLLHUP, 5)])) (waits ?w)) = [1]" "io_ready ?w = []" by code_simp+
  with poll_wakes_reported [OF inv w] w(2) show ?thesis by (auto simp: woke_def split: prod.splits)
qed

section \<open>Arming a wait\<close>

lemma arm_wait_refuses:
  assumes "h \<noteq> 0" and "fmlookup (io_frames w) h = Some fr" and "fr_point fr = At_wait aw"
    and "fd < 0 \<or> waiting (io_fd_states w) fd ev \<noteq> None"
  shows "\<exists>e. arm_wait os fd ev timeout h h w = (Inl e, w)"
proof (cases "fd < 0")
  case True
  then show ?thesis by (simp add: arm_wait_def)
next
  case False
  with assms(4) obtain st where st: "fmlookup (io_fd_states w) fd = Some st" "slot st ev \<noteq> None"
    by (auto simp: waiting_def split: option.splits)
  with False assms(1-3) show ?thesis
    by (auto simp: arm_wait_def is_done_def coroutine_done_def fd_state_of_def ebind_def)
qed


text \<open>A single root that is about to wait for descriptor 5.\<close>

definition demo_arming :: "(demo_kernel, nat) run_world" where
  "demo_arming = (demo_start [])\<lparr>
     io_frames := fmupd 1 ((frame_new True [])\<lparr>
         fr_point := At_wait \<lparr>aw_fd = 5, aw_event = READ, aw_timeout = 10, aw_ready = False\<rparr>, fr_completion := True\<rparr>)
       fmempty,
     io_next_addr := 2, io_roots := {|1|}\<rparr>"


section \<open>The timeout of a poll\<close>

text \<open>
  C31: the timeout of a poll in milliseconds. A deadline that is due gives 0; otherwise the timeout
  is the time that is left, rounded up, so that the poll does not return before the deadline and
  at most a millisecond after it, unless that exceeds \<open>INT_MAX\<close>, which then bounds it.
\<close>

theorem poll_timeout_bounds:
  "poll_timeout deadline now =
     (if deadline \<le> now then 0
      else min INT_MAX (- ((now - deadline) div ns_per_ms))) \<and>
   0 \<le> poll_timeout deadline now \<and> poll_timeout deadline now \<le> INT_MAX \<and>
   (now < deadline \<longrightarrow> 0 < poll_timeout deadline now) \<and>
   (now < deadline \<and> poll_timeout deadline now < INT_MAX \<longrightarrow>
      deadline \<le> now + poll_timeout deadline now * ns_per_ms \<and>
      now + poll_timeout deadline now * ns_per_ms < deadline + ns_per_ms)"
proof (cases "deadline \<le> now")
  case True
  then show ?thesis by (simp add: poll_timeout_def INT_MAX_def)
next
  case False
  define r where "r = deadline - now"
  define q where "q = r div ns_per_ms"
  have r: "0 < r" "deadline = now + r" using False by (simp_all add: r_def)
  have ns: "ns_per_ms = 1000000" by (simp add: ns_per_ms_def)
  have q: "q * 1000000 \<le> r" "r < q * 1000000 + 1000000" "0 \<le> q" using r(1) by (auto simp: q_def ns)
  define m where "m = (if q * 1000000 < r then q + 1 else q)"
  have m: "r \<le> m * 1000000" "m * 1000000 < r + 1000000" using q by (auto simp: m_def)
  then have m0: "0 < m" using r(1) by linarith
  have up: "- ((- r) div 1000000) = m" using m by linarith
  have "poll_timeout deadline now = min INT_MAX m"
    using False by (simp add: poll_timeout_def Let_def m_def q_def r_def ns min_def)
  moreover have "0 < INT_MAX" by (simp add: INT_MAX_def)
  ultimately show ?thesis using False m m0 up r by (auto simp: ns)
qed

theorem poll_timeout_bounds_witness:
  "poll_timeout 1500000 0 = 2 \<and> 1500000 \<le> 0 + poll_timeout 1500000 0 * ns_per_ms"
proof -
  have "(0 :: int) < 1500000 \<and> poll_timeout 1500000 0 < INT_MAX" and two: "poll_timeout 1500000 0 = 2"
    by (simp_all add: poll_timeout_def ns_per_ms_def INT_MAX_def Let_def)
  with poll_timeout_bounds [of 1500000 0] have "1500000 \<le> 0 + poll_timeout 1500000 0 * ns_per_ms" by blast
  with two show ?thesis by blast
qed

end
