(* ===== verification/Executor.thy ===== *)
theory Executor
  imports Io_Spec
begin

text \<open>
  The properties of the executor that hold for every program: safety, the end of a run, the order of
  turns, results of awaited tasks, destruction and termination.
\<close>

section \<open>Safety\<close>

text \<open>
  C1: no program makes the executor misbehave. For every program and every kernel whose \<open>epoll_wait\<close>
  returns at most as many events as asked for, no operation of the program and no run is undefined:
  no frame is resumed or destroyed that does not exist, is done or is running, no dangling channel is
  called and no empty queue is read. Afterwards the invariant of the executor holds.
\<close>

theorem executor_safe:
  assumes "wait_bounded os" and "IoContext_new os k = (Inr (), w0)" and "execute os program w0 = Some (rs, w)"
  shows "Inl Undefined_behaviour \<notin> set rs \<and> program_inv w"
  using execute_inv [OF assms(1) IoContext_new_inv [OF assms(2)] assms(3)] by simp

theorem executor_safe_witness:
  "\<exists>rs w. execute demo_os demo_waiting (demo_start []) = Some (rs, w) \<and> Inl Undefined_behaviour \<notin> set rs \<and> program_inv w"
proof -
  obtain rs w where run: "execute demo_os demo_waiting (demo_start []) = Some (rs, w)"
    using demo_waiting_runs [of "[]"] by auto
  from executor_safe [OF demo_bounded demo_new run] run show ?thesis by blast
qed

section \<open>The end of a run\<close>

lemma run_step_clean:
  assumes "program_inv w" and "wait_bounded os" and "main_step os (M_run script) w = Some (Inr (), w')"
    and "\<not> io_stop_requested w'"
  shows "io_roots w' = {||} \<and> fmdom (io_frames w') = fset_of_list (rw_main w') \<and> io_ready w' = [] \<and>
    io_fd_states w' = fmempty \<and> lp_channels w' = fmempty"
proof -
  let ?w = "w\<lparr>rw_script := script\<rparr>"
  have r: "run os (resume os) ?w = Some (Inr (), w')" using assms(3) by simp
  have "io_inv 0 (rw_main w) ?w" using assms(1) by simp
  with client.run_inv [OF r _ assms(2)] assms(4) have "io_roots w' = {||}" by blast
  moreover have "program_inv w'" using main_step_inv [OF assms(1-3)] by simp
  ultimately show ?thesis using no_roots_clean by blast
qed

text \<open>
  C11: a run that ends leaves nothing behind. When \<open>run\<close> returns and no stop has been requested, all
  spawned tasks have ended and been destroyed with everything they awaited: the only frames left
  are the tasks that code outside of coroutines holds, nothing is queued, and no descriptor is
  watched.
\<close>

theorem run_leaves_nothing:
  assumes "wait_bounded os" and "IoContext_new os k = (Inr (), w0)" and "execute os program w0 = Some (rs, w)"
    and "main_step os (M_run script) w = Some (Inr (), w')" and "\<not> io_stop_requested w'"
  shows "io_roots w' = {||} \<and> fmdom (io_frames w') = fset_of_list (rw_main w') \<and> io_ready w' = [] \<and>
    io_fd_states w' = fmempty \<and> lp_channels w' = fmempty"
  using run_step_clean [OF _ assms(1,4,5)] execute_inv [OF assms(1) IoContext_new_inv [OF assms(2)] assms(3)] by blast

text \<open>One root that awaits a child, waits and yields; a second task stays with the program.\<close>

abbreviation demo_spawned :: "nat main_action list" where
  "demo_spawned \<equiv> [M_do (A_call True []), M_do (A_call True []), M_do (A_spawn 1)]"

abbreviation demo_script :: "nat action list" where
  "demo_script \<equiv> [A_call False [5], A_await 3, A_wait 5 READ 10, A_return (Some 7), A_yield, A_return None]"

theorem run_leaves_nothing_witness:
  "\<exists>w'. main_step demo_os (M_run demo_script) (demo_run [] demo_spawned) = Some (Inr (), w') \<and>
     fmdom (io_frames w') = fset_of_list [2]"
proof -
  let ?step = "main_step demo_os (M_run demo_script) (demo_run [] demo_spawned)"
  have "execute demo_os demo_spawned (demo_start []) \<noteq> None" by code_simp
  then obtain rs where run: "execute demo_os demo_spawned (demo_start []) = Some (rs, demo_run [] demo_spawned)"
    by (auto simp: demo_run_def)
  have "map_option fst ?step = Some (Inr ())" by code_simp
  then obtain w' where w': "?step = Some (Inr (), w')" by auto
  have "map_option (io_stop_requested \<circ> snd) ?step = Some False" "map_option (rw_main \<circ> snd) ?step = Some [2]" by code_simp+
  with run_leaves_nothing [OF demo_bounded demo_new run w'] w' show ?thesis by simp
qed

section \<open>Progress\<close>



text \<open>
  The scheduler is fair. A batch of \<open>run_ready\<close> that is not stopped gives every coroutine of the
  ready queue exactly one turn, in the order of the queue; coroutines that become ready during
  the batch wait for the next one.
\<close>

theorem run_ready_fair:
  fixes w w' :: "('k, 'v) run_world"
  assumes "wait_bounded os" and "IoContext_new os k = (Inr (), w0)" and "execute os program w0 = Some (rs, w)"
    and "run_ready os (resume os) w = (Inr (), w')" and "\<not> io_stop_requested w'"
  shows "turns w' = turns w @ io_ready w"
proof -
  have "program_inv w" using execute_inv [OF assms(1) IoContext_new_inv [OF assms(2)] assms(3)] by blast
  from run_batch_turns [OF this order_refl, of os "()" w'] assms(4,5) show ?thesis by (simp add: run_ready_def)
qed

theorem run_ready_fair_witness:
  "\<exists>w'. run_ready demo_os (resume demo_os) (demo_run [] (demo_spawned @ [M_do (A_spawn 2)])) = (Inr (), w') \<and> turns w' = [1, 2]"
proof -
  let ?p = "demo_spawned @ [M_do (A_spawn 2)]"
  let ?w = "demo_run [] ?p"
  have "execute demo_os ?p (demo_start []) \<noteq> None" by code_simp
  then obtain rs where run: "execute demo_os ?p (demo_start []) = Some (rs, ?w)" by (auto simp: demo_run_def)
  have "fst (run_ready demo_os (resume demo_os) ?w) = Inr ()"
    "\<not> io_stop_requested (snd (run_ready demo_os (resume demo_os) ?w))" "turns ?w = []" "io_ready ?w = [1, 2]" by code_simp+
  with run_ready_fair [OF demo_bounded demo_new run, of "snd (run_ready demo_os (resume demo_os) ?w)"] show ?thesis
    by (metis append_Nil prod.collapse)
qed



section \<open>Results\<close>

interpretation noted: executor_order "\<lambda>w w' :: ('k, 'v, 'm) run_world_scheme. rw_log w' = rw_log w"
  by unfold_locales simp_all

interpretation live: executor_order "\<lambda>w w' :: ('k, 'v, 'm) run_world_scheme. fmdom (io_frames w') |\<subseteq>| fmdom (io_frames w)"
  by unfold_locales (auto dest: set_result_dom set_frame_dom)

text \<open>Control goes to \<open>p\<close>, which receives \<open>r\<close>, and the frame \<open>x\<close> is gone.\<close>

definition delivered ::
  "handle \<Rightarrow> handle \<Rightarrow> 'v response \<Rightarrow> handle list \<Rightarrow> ('k, 'v, 'm) run_world_scheme \<Rightarrow>
   control result \<times> ('k, 'v, 'm) run_world_scheme \<Rightarrow> bool" where
  "delivered x p r M w = (\<lambda>(res, w').
     res = Inr (Go_on p) \<and> rw_log w' = rw_log w @ [(p, r)] \<and> fmlookup (io_frames w') x = None \<and> io_inv p M w')"

lemma child_delivers:
  assumes inv: "io_inv x M w" and child: "x |\<notin>| io_roots w" "x \<noteq> 0" and f: "stores f"
    and fx: "fmlookup (io_frames w) x = Some fx" "fr_tasks fx = []"
    and r: "r = (case fr_exception (f fx) of Some e \<Rightarrow> R_exn e | None \<Rightarrow>
        if fr_void (f fx) then R_value None
        else case fr_value (f fx) of
          None \<Rightarrow> R_exn (Logic_error ''Task completed without a value'') | Some v \<Rightarrow> R_value (Some v))"
  shows "delivered x (fr_continuation fx) r M w (ebind (on_heap (set_frame x f)) (\<lambda>_. finish os x) w)"
proof (rule end_child [OF assms(1-6) refl r, of os])
  fix fp
  let ?p = "fr_continuation fx"
  let ?w = "w\<lparr>io_frames := fmupd ?p (fp\<lparr>fr_point := Executing\<rparr>) (fmdrop x (io_frames w)), rw_log := rw_log w @ [(?p, r)]\<rparr>"
  assume p: "?p \<noteq> x" and inv': "io_inv ?p M ?w"
    and eq: "ebind (on_heap (set_frame x f)) (\<lambda>_. finish os x) w = ebind (cancel_all os (fr_fds fx)) (\<lambda>_. eret (Go_on ?p)) ?w"
  obtain w' where w': "cancel_all os (fr_fds fx) ?w = (Inr (), w')" "io_inv ?p M w'"
    using wp_cancel_all [OF inv', of os "fr_fds fx"] by (auto simp: wp_def split: prod.splits sum.splits)
  have "rw_log w' = rw_log ?w" by (rule withinD [OF noted.w_cancel_all w'(1)])
  moreover have "fmdom (io_frames w') |\<subseteq>| fmdom (io_frames ?w)" by (rule withinD [OF live.w_cancel_all w'(1)])
  then have "fmlookup (io_frames w') x = None" using p by (auto simp: fmdom_notD)
  ultimately show ?thesis using eq w' by (simp add: ebind_def delivered_def)
qed

text \<open>
  C13: \<open>co_await\<close> delivers. When an awaited task returns or throws, control goes to the coroutine
  that awaits it, which receives exactly the value returned or the exception thrown; the frame of
  the task is destroyed, and the executor is in a consistent state.
\<close>

theorem await_delivers:
  assumes "io_inv x M w" and "x |\<notin>| io_roots w" and "fmlookup (io_frames w) x = Some fx" and "fr_tasks fx = []" and "0 < x"
  shows "((v = None \<longleftrightarrow> fr_void fx) \<longrightarrow> delivered x (fr_continuation fx) (R_value v) M w (co_return os x v w)) \<and>
    (e \<noteq> Undefined_behaviour \<longrightarrow> delivered x (fr_continuation fx) (R_exn e) M w (co_raise os x e w))"
proof -
  have "heap_inv x M (io_frames w) (io_roots w) (io_next_addr w)" using assms(1) by (simp add: inv_but_def core_inv_def)
  from heap_invD(2) [OF this assms(3)] have exn: "fr_exception fx = None" by (simp add: frame_ok_def)
  have x: "x \<noteq> 0" using assms(5) by simp
  note child = child_delivers [OF assms(1,2) x _ assms(3,4)]
  have "delivered x (fr_continuation fx) (R_value v) M w (co_return os x v w)" if "v = None \<longleftrightarrow> fr_void fx"
    unfolding co_return_def return_value_def
    by (rule child) (use exn that in \<open>auto simp: stores_def split: option.split\<close>)
  moreover have "delivered x (fr_continuation fx) (R_exn e) M w (co_raise os x e w)" if "e \<noteq> Undefined_behaviour"
    unfolding co_raise_def unhandled_exception_def
    by (rule child) (use that in \<open>auto simp: stores_def\<close>)
  ultimately show ?thesis by blast
qed

text \<open>A root that awaits a running child.\<close>

definition demo_child :: "(demo_kernel, nat) run_world" where
  "demo_child = (demo_start [])\<lparr>
     io_frames := fmap_of_list
       [(1, (frame_new True [])\<lparr>fr_point := At_await 2, fr_completion := True\<rparr>),
        (2, (frame_new False [])\<lparr>fr_point := Executing, fr_continuation := 1\<rparr>)],
     io_next_addr := 3, io_roots := {|1|}\<rparr>"

theorem await_delivers_witness:
  "rw_log (snd (co_return demo_os 2 (Some 7) demo_child)) = [(1, R_value (Some 7))]"
proof -
  have inv: "io_inv 2 [] demo_child"
    by (auto simp: demo_child_def demo_start_def IoContext_new_def init_poller_def demo_os_def frame_new_def inv_but_def
        core_inv_def heap_inv_def wait_inv_def reg_inv_def frame_ok_def tasks_of_def child_of_def has_owner_def child_ok_def
        waiting_def split: if_splits)
  have fr: "fmlookup (io_frames demo_child) 2 = Some ((frame_new False [])\<lparr>fr_point := Executing, fr_continuation := 1\<rparr>)"
    by (simp add: demo_child_def)
  have "2 |\<notin>| io_roots demo_child" "rw_log demo_child = []"
    by (simp_all add: demo_child_def demo_start_def IoContext_new_def init_poller_def demo_os_def)
  with await_delivers [OF inv _ fr, of "Some 7" demo_os "User_exn 0"] show ?thesis
    by (auto simp: delivered_def frame_new_def split: prod.splits)
qed

section \<open>Destruction\<close>



end
