(* ===== verification/Ring.thy ===== *)
theory Ring
  imports Prelude
begin

text \<open>
  Rings of a power-of-two capacity, on which both queues of \<open>include/tinycoro/queue.h\<close> are built,
  and the contract of a bounded queue that both of them fulfil.
\<close>

section \<open>Capacities\<close>

text \<open>The condition of the \<open>static_assert\<close> on the template argument.\<close>

definition capacity_ok :: "size_t \<Rightarrow> bool" where
  "capacity_ok cap \<longleftrightarrow> 2 \<le> cap \<and> cap AND (cap - 1) = 0"

lemma and_pred_power:
  "0 < n \<Longrightarrow> n AND (n - 1) = (0 :: nat) \<Longrightarrow> \<exists>c. n = 2 ^ c"
proof (induction n rule: less_induct)
  case (less n)
  show ?case
  proof (cases "even n")
    case True
    then obtain m where m: "n = 2 * m" by blast
    with less.prems(1) have m0: "0 < m" by simp
    then have "(n - 1) div 2 = m - 1" "odd (n - 1)" using m by (auto simp: even_diff_nat)
    then have "2 * (m AND (m - 1)) = 0"
      using less.prems(2) m by (subst (asm) and_rec) simp
    then obtain c where "m = 2 ^ c" using less.IH [of m] m m0 by auto
    with m have "n = 2 ^ Suc c" by simp
    then show ?thesis by blast
  next
    case False
    then obtain b where b: "n = 2 * b + 1" by (rule oddE)
    then have "n AND (n - 1) = n - 1" by (subst and_rec) simp
    with less.prems have "n = 2 ^ 0" by simp
    then show ?thesis by blast
  qed
qed

lemma capacity_power:
  assumes "capacity_ok cap"
  obtains c where "0 < c" and "c < 64" and "cap = 2 ^ c" and "unat cap = 2 ^ c"
proof -
  have two: "2 \<le> unat cap" using assms by (simp add: capacity_ok_def word_le_nat_alt)
  then have "unat (cap - 1) = unat cap - 1" by (simp add: unat_sub_64)
  moreover have "unat (cap AND (cap - 1)) = 0" using assms by (simp add: capacity_ok_def)
  ultimately have "unat cap AND (unat cap - 1) = 0" by (simp add: unsigned_and_eq)
  then obtain c where c: "unat cap = 2 ^ c" using and_pred_power [of "unat cap"] two by auto
  have "0 < c" using c two by (cases c) simp_all
  moreover have "(2 :: nat) ^ c < 2 ^ 64" using unat_lt_64 [of cap] c by simp
  then have c64: "c < 64" by (rule power_less_imp_less_exp [rotated]) simp
  moreover have "cap = word_of_nat (unat cap)" by simp
  then have "cap = 2 ^ c" unfolding c by simp
  ultimately show ?thesis using that c by blast
qed

text \<open>Masking with \<open>Capacity - 1\<close> is the remainder.\<close>

lemma unat_ring:
  assumes "capacity_ok cap"
  shows "unat (x AND (cap - 1)) = unat x mod unat cap"
proof (rule capacity_power [OF assms])
  fix c :: nat
  assume "c < 64" "cap = 2 ^ c" "unat cap = 2 ^ c"
  then show ?thesis using unat_mask_64 [of c x] by simp
qed

lemma capacity_bounds:
  assumes "capacity_ok cap"
  shows "2 \<le> unat cap" and "unat cap \<le> 2 ^ 63" and "unat cap dvd 2 ^ 64"
proof -
  obtain c where c: "0 < c" "c < 64" "unat cap = 2 ^ c" using capacity_power [OF assms] by metis
  show "2 \<le> unat cap" using c by (cases c) simp_all
  show "unat cap \<le> 2 ^ 63" unfolding c(3) by (rule power_increasing) (use c(2) in simp_all)
  show "unat cap dvd 2 ^ 64" unfolding c(3) by (rule le_imp_power_dvd) (use c(2) in simp)
qed

lemma unat_ring_succ:
  assumes "capacity_ok cap"
  shows "unat ((x + 1) AND (cap - 1)) = (unat x + 1) mod unat cap"
proof -
  have "unat (x + 1) = (unat x + 1) mod 2 ^ 64" by (simp add: unat_word_ariths)
  then show ?thesis
    using capacity_bounds(3) [OF assms] by (simp only: unat_ring [OF assms] mod_mod_cancel)
qed

section \<open>The contract of a bounded queue\<close>

text \<open>
  A queue has room for \<open>bound\<close> elements. \<open>push\<close> says whether there was room, \<open>pop\<close> whether there was
  an element. \<open>inv k\<close>: the queue is well formed and can take \<open>k\<close> more calls of \<open>push\<close>.
\<close>

locale bounded_queue =
  fixes inv :: "nat \<Rightarrow> 'q \<Rightarrow> bool" and contents :: "'q \<Rightarrow> 'a list" and bound :: nat
    and push :: "'a \<Rightarrow> 'q \<Rightarrow> (bool \<times> 'q) result" and pop :: "'q \<Rightarrow> ('a option \<times> 'q) result"
  assumes push_ok: "inv (Suc k) q \<Longrightarrow> \<exists>q'. push x q = Inr (length (contents q) < bound, q') \<and> inv k q' \<and>
      contents q' = (if length (contents q) < bound then contents q @ [x] else contents q)"
    and pop_ok: "inv k q \<Longrightarrow> \<exists>q'. inv k q' \<and>
      (case contents q of
         [] \<Rightarrow> pop q = Inr (None, q') \<and> contents q' = []
       | x # xs \<Rightarrow> pop q = Inr (Some x, q') \<and> contents q' = xs)"
begin

text \<open>Filling and draining.\<close>

fun push_all :: "'a list \<Rightarrow> 'q \<Rightarrow> 'q result" where
  "push_all [] q = Inr q"
| "push_all (x # xs) q = rbind (push x q) (\<lambda>(ok, q1). push_all xs q1)"

fun drain :: "nat \<Rightarrow> 'q \<Rightarrow> ('a list \<times> 'q) result" where
  "drain 0 q = Inr ([], q)"
| "drain (Suc n) q =
     rbind (pop q) (\<lambda>(x, q1). case x of None \<Rightarrow> Inr ([], q1) | Some v \<Rightarrow> rbind (drain n q1) (\<lambda>(vs, q2). Inr (v # vs, q2)))"

lemma push_all_fills:
  "inv (k + length xs) q \<Longrightarrow> \<exists>q'. push_all xs q = Inr q' \<and> inv k q' \<and>
     contents q' = contents q @ take (bound - length (contents q)) xs"
proof (induction xs arbitrary: q)
  case (Cons x xs)
  then have "inv (Suc (k + length xs)) q" by simp
  from push_ok [OF this, of x] obtain q1 where q1: "push x q = Inr (length (contents q) < bound, q1)" "inv (k + length xs) q1"
      "contents q1 = (if length (contents q) < bound then contents q @ [x] else contents q)" by blast
  from Cons.IH [OF q1(2)] obtain q2 where "push_all xs q1 = Inr q2" "inv k q2"
      "contents q2 = contents q1 @ take (bound - length (contents q1)) xs" by blast
  with q1 show ?case by (cases "length (contents q) < bound") (auto simp: take_Cons' Suc_diff_le)
qed simp

lemma drain_empties:
  "inv k q \<Longrightarrow> \<exists>q'. drain n q = Inr (take n (contents q), q') \<and> inv k q' \<and> contents q' = drop n (contents q)"
proof (induction n arbitrary: q)
  case (Suc n)
  show ?case
  proof (cases "contents q")
    case Nil
    with pop_ok [OF Suc.prems] show ?thesis by auto
  next
    case (Cons x xs)
    with pop_ok [OF Suc.prems] obtain q1 where q1: "pop q = Inr (Some x, q1)" "inv k q1" "contents q1 = xs"
      by auto
    with Suc.IH [OF q1(2)] Cons show ?thesis by auto
  qed
qed simp

text \<open>What goes in comes out, in order, as far as there is room.\<close>

lemma fill_and_drain:
  assumes "inv (length xs) q" and "contents q = []" and "bound \<le> n"
  shows "\<exists>q'. rbind (push_all xs q) (drain n) = Inr (take bound xs, q') \<and> contents q' = []"
proof -
  obtain q1 where q1: "push_all xs q = Inr q1" "inv 0 q1" "contents q1 = take bound xs"
    using push_all_fills [of 0 xs q] assms(1,2) by auto
  with drain_empties [OF q1(2), of n] assms(3) show ?thesis by auto
qed

end

end
