(* ===== verification/Spsc_Queue.thy ===== *)
theory Spsc_Queue
  imports Ring
begin

text \<open>
  \<open>SPSCQueue\<close> of \<open>include/tinycoro/queue.h\<close>: the operations as one thread sees them, and the steps of
  one producer and one consumer that run at the same time. Each atomic access and each access to a
  slot is a step of its own; steps of different threads interleave in any order.
\<close>

section \<open>The queue\<close>

text \<open>
  \<open>moved\<close> is the state that moving from a value leaves in it; it belongs to the element type.
  An access outside of the array of slots is undefined.
\<close>

record 'a spsc =
  sq_head :: size_t
  sq_tail :: size_t
  sq_buffer :: "'a list"

definition spsc_new :: "size_t \<Rightarrow> 'a \<Rightarrow> 'a spsc" where
  "spsc_new cap initial = \<lparr>sq_head = 0, sq_tail = 0, sq_buffer = replicate (unat cap) initial\<rparr>"

definition ring_mask :: "size_t \<Rightarrow> size_t" where
  "ring_mask cap = cap - 1"

definition spsc_push :: "size_t \<Rightarrow> 'a \<Rightarrow> 'a spsc \<Rightarrow> (bool \<times> 'a spsc) result" where
  "spsc_push cap val q =
     (let tail = sq_tail q; next = (tail + 1) AND ring_mask cap in
      if next = sq_head q then Inr (False, q)
      else if unat tail < length (sq_buffer q)
      then Inr (True, q\<lparr>sq_buffer := (sq_buffer q)[unat tail := val], sq_tail := next\<rparr>)
      else Inl Undefined_behaviour)"

text \<open>The overload that takes an rvalue also returns what is left in the argument.\<close>

definition spsc_push_move :: "size_t \<Rightarrow> ('a \<Rightarrow> 'a) \<Rightarrow> 'a \<Rightarrow> 'a spsc \<Rightarrow> (bool \<times> 'a \<times> 'a spsc) result" where
  "spsc_push_move cap moved val q =
     (let tail = sq_tail q; next = (tail + 1) AND ring_mask cap in
      if next = sq_head q then Inr (False, val, q)
      else if unat tail < length (sq_buffer q)
      then Inr (True, moved val, q\<lparr>sq_buffer := (sq_buffer q)[unat tail := val], sq_tail := next\<rparr>)
      else Inl Undefined_behaviour)"

definition spsc_pop :: "size_t \<Rightarrow> ('a \<Rightarrow> 'a) \<Rightarrow> 'a spsc \<Rightarrow> ('a option \<times> 'a spsc) result" where
  "spsc_pop cap moved q =
     (let head = sq_head q in
      if head = sq_tail q then Inr (None, q)
      else if unat head < length (sq_buffer q)
      then let val = sq_buffer q ! unat head in
        Inr (Some val, q\<lparr>sq_buffer := (sq_buffer q)[unat head := moved val],
                         sq_head := (head + 1) AND ring_mask cap\<rparr>)
      else Inl Undefined_behaviour)"

definition spsc_empty :: "'a spsc \<Rightarrow> bool" where
  "spsc_empty q \<longleftrightarrow> sq_head q = sq_tail q"

definition spsc_size :: "size_t \<Rightarrow> 'a spsc \<Rightarrow> size_t" where
  "spsc_size cap q = (sq_tail q - sq_head q + cap) AND ring_mask cap"

section \<open>The queue as a list\<close>

definition spsc_count :: "size_t \<Rightarrow> 'a spsc \<Rightarrow> nat" where
  "spsc_count cap q = (unat (sq_tail q) + unat cap - unat (sq_head q)) mod unat cap"

definition spsc_contents :: "size_t \<Rightarrow> 'a spsc \<Rightarrow> 'a list" where
  "spsc_contents cap q =
     map (\<lambda>k. sq_buffer q ! ((unat (sq_head q) + k) mod unat cap)) [0..<spsc_count cap q]"

definition spsc_inv :: "size_t \<Rightarrow> 'a spsc \<Rightarrow> bool" where
  "spsc_inv cap q \<longleftrightarrow>
     capacity_ok cap \<and> length (sq_buffer q) = unat cap \<and>
     unat (sq_head q) < unat cap \<and> unat (sq_tail q) < unat cap"

lemma length_spsc_contents [simp]: "length (spsc_contents cap q) = spsc_count cap q"
  by (simp add: spsc_contents_def)

lemma contents_nth:
  "k < spsc_count cap q \<Longrightarrow> spsc_contents cap q ! k = sq_buffer q ! ((unat (sq_head q) + k) mod unat cap)"
  by (simp add: spsc_contents_def)

lemma spsc_count_less: "spsc_inv cap q \<Longrightarrow> spsc_count cap q < unat cap"
  by (simp add: spsc_inv_def spsc_count_def)

text \<open>Sums on the ring, by cases.\<close>

lemma ring_sum: "a < 2 * n \<Longrightarrow> a mod n = (if a < n then a else a - n)" for a n :: nat
  by (auto simp: le_mod_geq)

lemma spsc_count_cases:
  assumes "spsc_inv cap q"
  shows "spsc_count cap q =
    (if unat (sq_head q) \<le> unat (sq_tail q) then unat (sq_tail q) - unat (sq_head q)
     else unat (sq_tail q) + unat cap - unat (sq_head q))"
  using assms ring_sum [of "unat (sq_tail q) + unat cap - unat (sq_head q)" "unat cap"]
  by (auto simp: spsc_count_def spsc_inv_def)

lemma spsc_full_iff:
  assumes "spsc_inv cap q"
  shows "(sq_tail q + 1) AND ring_mask cap = sq_head q \<longleftrightarrow> spsc_count cap q = unat cap - 1"
proof -
  have cap: "capacity_ok cap" using assms by (simp add: spsc_inv_def)
  have "(sq_tail q + 1) AND ring_mask cap = sq_head q \<longleftrightarrow> (unat (sq_tail q) + 1) mod unat cap = unat (sq_head q)"
    using unat_ring_succ [OF cap, of "sq_tail q"] by (metis ring_mask_def word_unat_eq_iff)
  also have "\<dots> \<longleftrightarrow> spsc_count cap q = unat cap - 1"
    using assms capacity_bounds(1) [OF cap] ring_sum [of "unat (sq_tail q) + 1" "unat cap"]
    by (auto simp: spsc_count_cases [OF assms] spsc_inv_def)
  finally show ?thesis .
qed

lemma spsc_empty_iff:
  assumes "spsc_inv cap q"
  shows "sq_head q = sq_tail q \<longleftrightarrow> spsc_count cap q = 0"
  using assms by (auto simp: spsc_count_cases [OF assms] spsc_inv_def word_unat_eq_iff split: if_splits)

lemma spsc_size_count:
  assumes "spsc_inv cap q"
  shows "unat (spsc_size cap q) = spsc_count cap q"
proof -
  have cap: "capacity_ok cap" using assms by (simp add: spsc_inv_def)
  let ?h = "unat (sq_head q)" and ?t = "unat (sq_tail q)" and ?n = "unat cap"
  have le: "?h \<le> ?t + ?n" using assms by (simp add: spsc_inv_def)
  have small: "?t + ?n < 2 ^ 64" using assms capacity_bounds(2) [OF cap] by (simp add: spsc_inv_def)
  have "unat (sq_tail q + cap - sq_head q) = ?t + ?n - ?h"
    using le small by (simp add: unat_sub_64 unat_add_64)
  then have "unat (sq_tail q - sq_head q + cap) = ?t + ?n - ?h" by (simp only: diff_add_eq)
  then show ?thesis by (simp add: spsc_size_def ring_mask_def unat_ring [OF cap] spsc_count_def)
qed

section \<open>Storing and taking\<close>

text \<open>Storing at the tail appends, as long as the ring is not full; taking at the head removes the first.\<close>

lemma spsc_store:
  assumes inv: "spsc_inv cap q" and room: "spsc_count cap q < unat cap - 1" and len': "length b = unat cap"
    and same: "\<And>i. i \<noteq> unat (sq_tail q) \<Longrightarrow> b ! i = sq_buffer q ! i"
  defines "q' \<equiv> q\<lparr>sq_buffer := b, sq_tail := (sq_tail q + 1) AND ring_mask cap\<rparr>"
  shows "spsc_inv cap q'" and "spsc_contents cap q' = spsc_contents cap q @ [b ! unat (sq_tail q)]"
proof -
  let ?h = "unat (sq_head q)" and ?t = "unat (sq_tail q)" and ?n = "unat cap" and ?c = "spsc_count cap q"
  have cap: "capacity_ok cap" and ht: "?h < ?n" "?t < ?n"
    using inv by (simp_all add: spsc_inv_def)
  have t': "unat (sq_tail q') = (if ?t + 1 < ?n then ?t + 1 else 0)"
    using unat_ring_succ [OF cap, of "sq_tail q"] ring_sum [of "?t + 1" ?n] ht
    by (auto simp: q'_def ring_mask_def)
  then show inv': "spsc_inv cap q'" using inv ht len' by (auto simp: q'_def spsc_inv_def)
  have h': "sq_head q' = sq_head q" by (simp add: q'_def)
  have c': "spsc_count cap q' = Suc ?c"
    using t' h' ht room by (auto simp: spsc_count_cases [OF inv] spsc_count_cases [OF inv'] split: if_splits)
  have at: "(?h + k) mod ?n = (if ?h + k < ?n then ?h + k else ?h + k - ?n)" if "k \<le> ?c" for k
    using ring_sum [of "?h + k" ?n] ht spsc_count_less [OF inv] that by simp
  have tail: "(?h + ?c) mod ?n = ?t" using at [of ?c] ht by (auto simp: spsc_count_cases [OF inv] split: if_splits)
  have before: "(?h + k) mod ?n \<noteq> ?t" if "k < ?c" for k
    using at [of k] that ht by (auto simp: spsc_count_cases [OF inv] split: if_splits)
  note same = same [OF before]
  show "spsc_contents cap q' = spsc_contents cap q @ [b ! ?t]"
  proof (rule nth_equalityI)
    fix k
    assume "k < length (spsc_contents cap q')"
    then have k: "k \<le> ?c" by (simp add: c')
    show "spsc_contents cap q' ! k = (spsc_contents cap q @ [b ! ?t]) ! k"
      using k same [of k] tail c'
      by (cases "k = ?c") (auto simp: spsc_contents_def q'_def nth_append)
  qed (simp add: c')
qed

lemma spsc_take:
  assumes inv: "spsc_inv cap q" and some: "0 < spsc_count cap q" and len': "length b = unat cap"
    and same: "\<And>i. i \<noteq> unat (sq_head q) \<Longrightarrow> b ! i = sq_buffer q ! i"
  defines "q' \<equiv> q\<lparr>sq_buffer := b, sq_head := (sq_head q + 1) AND ring_mask cap\<rparr>"
  shows "spsc_inv cap q'" and "spsc_contents cap q = sq_buffer q ! unat (sq_head q) # spsc_contents cap q'"
proof -
  let ?h = "unat (sq_head q)" and ?t = "unat (sq_tail q)" and ?n = "unat cap" and ?c = "spsc_count cap q"
  have cap: "capacity_ok cap" and ht: "?h < ?n" "?t < ?n" using inv by (simp_all add: spsc_inv_def)
  have h': "unat (sq_head q') = (if ?h + 1 < ?n then ?h + 1 else 0)"
    using unat_ring_succ [OF cap, of "sq_head q"] ring_sum [of "?h + 1" ?n] ht
    by (auto simp: q'_def ring_mask_def)
  then show inv': "spsc_inv cap q'" using inv ht len' by (auto simp: q'_def spsc_inv_def)
  have t': "sq_tail q' = sq_tail q" by (simp add: q'_def)
  have c': "?c = Suc (spsc_count cap q')"
    using h' t' ht some by (auto simp: spsc_count_cases [OF inv] spsc_count_cases [OF inv'] split: if_splits)
  have at: "(?h + k) mod ?n = (if ?h + k < ?n then ?h + k else ?h + k - ?n)" if "k < ?c" for k
    using ring_sum [of "?h + k" ?n] ht spsc_count_less [OF inv] that by simp
  have at': "(unat (sq_head q') + k) mod ?n = (?h + Suc k) mod ?n" if "Suc k < ?c" for k
    using h' at [OF that] ring_sum [of "unat (sq_head q') + k" ?n] ht spsc_count_less [OF inv] that by auto
  have "(?h + Suc k) mod ?n \<noteq> ?h" if "Suc k < ?c" for k
    using at [OF that] ht spsc_count_less [OF inv] that by auto
  note other = same [OF this]
  show "spsc_contents cap q = sq_buffer q ! ?h # spsc_contents cap q'"
  proof (rule nth_equalityI)
    fix k
    assume k: "k < length (spsc_contents cap q)"
    show "spsc_contents cap q ! k = (sq_buffer q ! ?h # spsc_contents cap q') ! k"
    proof (cases k)
      case 0
      then show ?thesis using k ht by (simp add: spsc_contents_def)
    next
      case (Suc j)
      with k c' have j: "Suc j < ?c" "j < spsc_count cap q'" by simp_all
      have "sq_buffer q' = b" by (simp add: q'_def)
      with at' [OF j(1)] other [OF j(1)] j Suc show ?thesis by (simp add: contents_nth)
    qed
  qed (simp add: c')
qed

text \<open>The slot at the tail does not belong to the contents, the slot at the head is their first.\<close>

lemma spsc_write_tail:
  fixes v :: 'a
  assumes "spsc_inv cap q"
  defines "q' \<equiv> q\<lparr>sq_buffer := (sq_buffer q)[unat (sq_tail q) := v]\<rparr>"
  shows "spsc_inv cap q'" and "spsc_count cap q' = spsc_count cap q" and "spsc_contents cap q' = spsc_contents cap q"
proof -
  let ?h = "unat (sq_head q)" and ?t = "unat (sq_tail q)" and ?n = "unat cap" and ?c = "spsc_count cap q"
  have ht: "?h < ?n" "?t < ?n" using assms by (simp_all add: spsc_inv_def)
  show "spsc_inv cap q'" and c': "spsc_count cap q' = ?c"
    using assms by (simp_all add: spsc_inv_def q'_def spsc_count_def)
  have "(?h + k) mod ?n \<noteq> ?t" if "k < ?c" for k
    using ring_sum [of "?h + k" ?n] that ht spsc_count_less [OF assms(1)]
    by (auto simp: spsc_count_cases [OF assms(1)] split: if_splits)
  then have "sq_buffer q' ! ((?h + k) mod ?n) = sq_buffer q ! ((?h + k) mod ?n)" if "k < ?c" for k
    using that by (metis nth_list_update_neq q'_def spsc.select_convs(3) spsc.update_convs(3) spsc.surjective)
  then show "spsc_contents cap q' = spsc_contents cap q"
    using c' by (simp add: spsc_contents_def q'_def)
qed

lemma spsc_write_head:
  fixes v :: 'a
  assumes "spsc_inv cap q" and "0 < spsc_count cap q"
  defines "q' \<equiv> q\<lparr>sq_buffer := (sq_buffer q)[unat (sq_head q) := v]\<rparr>"
  shows "spsc_inv cap q'" and "spsc_count cap q' = spsc_count cap q"
    and "spsc_contents cap q' = v # tl (spsc_contents cap q)"
proof -
  let ?h = "unat (sq_head q)" and ?n = "unat cap" and ?c = "spsc_count cap q"
  have ht: "?h < ?n" and len: "length (sq_buffer q) = ?n" using assms by (simp_all add: spsc_inv_def)
  show "spsc_inv cap q'" and c': "spsc_count cap q' = ?c"
    using assms by (simp_all add: spsc_inv_def q'_def spsc_count_def)
  have other: "(?h + k) mod ?n \<noteq> ?h" if "k < ?c" "0 < k" for k
    using ring_sum [of "?h + k" ?n] that ht spsc_count_less [OF assms(1)] by (auto split: if_splits)
  show "spsc_contents cap q' = v # tl (spsc_contents cap q)"
  proof (rule nth_equalityI)
    fix k
    assume k: "k < length (spsc_contents cap q')"
    then show "spsc_contents cap q' ! k = (v # tl (spsc_contents cap q)) ! k"
      using other [of k] ht len by (cases k) (simp_all add: c' contents_nth nth_tl, simp_all add: q'_def)
  qed (use assms(2) c' in simp)
qed

section \<open>One thread\<close>

lemma spsc_push_spec:
  assumes inv: "spsc_inv cap q"
  shows "\<exists>q'. spsc_push cap v q = Inr (spsc_count cap q < unat cap - 1, q') \<and> spsc_inv cap q' \<and>
    spsc_contents cap q' = (if spsc_count cap q < unat cap - 1 then spsc_contents cap q @ [v] else spsc_contents cap q)"
proof (cases "spsc_count cap q < unat cap - 1")
  case True
  let ?b = "(sq_buffer q)[unat (sq_tail q) := v]"
  have t: "unat (sq_tail q) < length (sq_buffer q)" and len: "length ?b = unat cap" using inv by (simp_all add: spsc_inv_def)
  have "(sq_tail q + 1) AND ring_mask cap \<noteq> sq_head q" using spsc_full_iff [OF inv] True by simp
  with spsc_store [OF inv True len] t True show ?thesis by (simp add: spsc_push_def Let_def)
next
  case False
  then have "(sq_tail q + 1) AND ring_mask cap = sq_head q"
    using spsc_full_iff [OF inv] spsc_count_less [OF inv] by simp
  with False inv show ?thesis by (simp add: spsc_push_def Let_def)
qed

lemma spsc_pop_spec:
  assumes inv: "spsc_inv cap q"
  shows "\<exists>q'. spsc_inv cap q' \<and>
    (case spsc_contents cap q of
       [] \<Rightarrow> spsc_pop cap moved q = Inr (None, q') \<and> spsc_contents cap q' = []
     | x # xs \<Rightarrow> spsc_pop cap moved q = Inr (Some x, q') \<and> spsc_contents cap q' = xs)"
proof (cases "spsc_count cap q = 0")
  case True
  then have "sq_head q = sq_tail q" "spsc_contents cap q = []" using spsc_empty_iff [OF inv] by (simp_all add: spsc_contents_def)
  with inv show ?thesis by (simp add: spsc_pop_def)
next
  case False
  let ?v = "sq_buffer q ! unat (sq_head q)"
  let ?b = "(sq_buffer q)[unat (sq_head q) := moved ?v]"
  have h: "unat (sq_head q) < length (sq_buffer q)" and len: "length ?b = unat cap" using inv by (simp_all add: spsc_inv_def)
  have "sq_head q \<noteq> sq_tail q" using spsc_empty_iff [OF inv] False by simp
  with spsc_take [OF inv _ len] h False show ?thesis by (simp add: spsc_pop_def Let_def)
qed

interpretation spsc: bounded_queue "\<lambda>_. spsc_inv cap" "spsc_contents cap" "unat cap - 1" "spsc_push cap" "spsc_pop cap moved"
  for cap moved
  by unfold_locales (simp_all only: length_spsc_contents spsc_push_spec spsc_pop_spec)

lemma spsc_new_inv: "capacity_ok cap \<Longrightarrow> spsc_inv cap (spsc_new cap initial) \<and> spsc_contents cap (spsc_new cap initial) = []"
  using capacity_bounds(1) [of cap] by (simp add: spsc_inv_def spsc_new_def spsc_contents_def spsc_count_def)

text \<open>
  C32: \<open>SPSCQueue\<close> is a bounded FIFO queue with room for \<open>Capacity - 1\<close> elements. As long as one thread
  uses it, \<open>push\<close> appends or refuses exactly when there is no room, \<open>pop\<close> removes the oldest element or
  finds none, \<open>empty\<close> and \<open>size\<close> are exact although \<open>size\<close> computes with wrapping differences, and a
  refused \<open>push\<close> of an rvalue leaves the argument intact.
\<close>

theorem spsc_refines_fifo:
  assumes "spsc_inv cap q"
  shows "(\<exists>q'. spsc_push cap v q = Inr (length (spsc_contents cap q) < unat cap - 1, q') \<and> spsc_inv cap q' \<and>
      spsc_contents cap q' = take (unat cap - 1) (spsc_contents cap q @ [v])) \<and>
    (\<exists>q'. spsc_pop cap moved q = Inr (case spsc_contents cap q of [] \<Rightarrow> None | x # _ \<Rightarrow> Some x, q') \<and> spsc_inv cap q' \<and>
      spsc_contents cap q' = tl (spsc_contents cap q)) \<and>
    (case spsc_push_move cap moved v q of
       Inr (ok, rest, q') \<Rightarrow> spsc_push cap v q = Inr (ok, q') \<and> rest = (if ok then moved v else v)
     | Inl e \<Rightarrow> False) \<and>
    (spsc_empty q \<longleftrightarrow> spsc_contents cap q = []) \<and>
    unat (spsc_size cap q) = length (spsc_contents cap q)"
proof (intro conjI)
  have len: "length (spsc_contents cap q) \<le> unat cap - 1" using spsc_count_less [OF assms] by simp
  show "\<exists>q'. spsc_push cap v q = Inr (length (spsc_contents cap q) < unat cap - 1, q') \<and> spsc_inv cap q' \<and>
      spsc_contents cap q' = take (unat cap - 1) (spsc_contents cap q @ [v])"
    using spsc_push_spec [OF assms, of v] len by (auto simp: take_Cons')
  show "\<exists>q'. spsc_pop cap moved q = Inr (case spsc_contents cap q of [] \<Rightarrow> None | x # _ \<Rightarrow> Some x, q') \<and> spsc_inv cap q' \<and>
      spsc_contents cap q' = tl (spsc_contents cap q)"
    using spsc_pop_spec [OF assms, of moved] by (auto split: list.splits)
  show "case spsc_push_move cap moved v q of
      Inr (ok, rest, q') \<Rightarrow> spsc_push cap v q = Inr (ok, q') \<and> rest = (if ok then moved v else v) | Inl e \<Rightarrow> False"
    using assms by (simp add: spsc_push_def spsc_push_move_def spsc_inv_def Let_def)
  show "spsc_empty q \<longleftrightarrow> spsc_contents cap q = []"
    using spsc_empty_iff [OF assms] by (simp add: spsc_empty_def flip: length_0_conv)
  show "unat (spsc_size cap q) = length (spsc_contents cap q)" using spsc_size_count [OF assms] by simp
qed

theorem spsc_refines_fifo_witness:
  "\<exists>q'. spsc_push 4 (7 :: nat) (spsc_new 4 0) = Inr (True, q') \<and> spsc_contents 4 q' = [7]"
proof -
  let ?q = "spsc_new 4 (0 :: nat)"
  have "capacity_ok 4" by (simp add: capacity_ok_def)
  from spsc_new_inv [OF this, of "0 :: nat"] have inv: "spsc_inv 4 ?q" and empty: "spsc_contents 4 ?q = []" by simp_all
  have count: "spsc_count 4 ?q = 0" by (metis empty length_spsc_contents list.size(3))
  show ?thesis using spsc_refines_fifo [OF inv, of 7 id, THEN conjunct1] by (simp add: empty count) blast
qed

section \<open>Two threads\<close>

text \<open>
  The steps of \<open>push\<close> after the load of the tail, and those of \<open>pop\<close> after the load of the head: the
  load of the other index, the access to the slot and the store of the own index. \<open>sr_pushed\<close> and
  \<open>sr_popped\<close> record the elements in the order in which the stores take effect.
\<close>

datatype 'a producer =
    P_idle
  | P_check 'a size_t
  | P_write 'a size_t size_t
  | P_publish 'a size_t

datatype 'a consumer =
    C_idle
  | C_check size_t
  | C_read size_t
  | C_publish size_t 'a

datatype 'a spsc_event = Silent | Pushed 'a bool | Popped "'a option"

record 'a spsc_run =
  sr_queue :: "'a spsc"
  sr_producer :: "'a producer"
  sr_consumer :: "'a consumer"
  sr_pushed :: "'a list"
  sr_popped :: "'a list"

fun producer_step :: "size_t \<Rightarrow> 'a producer \<Rightarrow> 'a spsc_run \<Rightarrow> ('a spsc_event \<times> 'a spsc_run) result" where
  "producer_step cap P_idle r = Inr (Silent, r)"
| "producer_step cap (P_check v tail) r =
     (let next = (tail + 1) AND ring_mask cap in
      if next = sq_head (sr_queue r) then Inr (Pushed v False, r\<lparr>sr_producer := P_idle\<rparr>)
      else Inr (Silent, r\<lparr>sr_producer := P_write v tail next\<rparr>))"
| "producer_step cap (P_write v tail next) r =
     (let q = sr_queue r in
      if unat tail < length (sq_buffer q)
      then Inr (Silent, r\<lparr>sr_queue := q\<lparr>sq_buffer := (sq_buffer q)[unat tail := v]\<rparr>, sr_producer := P_publish v next\<rparr>)
      else Inl Undefined_behaviour)"
| "producer_step cap (P_publish v next) r =
     Inr (Pushed v True, r\<lparr>sr_queue := (sr_queue r)\<lparr>sq_tail := next\<rparr>, sr_producer := P_idle, sr_pushed := sr_pushed r @ [v]\<rparr>)"

fun consumer_step :: "size_t \<Rightarrow> ('a \<Rightarrow> 'a) \<Rightarrow> 'a consumer \<Rightarrow> 'a spsc_run \<Rightarrow> ('a spsc_event \<times> 'a spsc_run) result" where
  "consumer_step cap moved C_idle r = Inr (Silent, r)"
| "consumer_step cap moved (C_check head) r =
     (if head = sq_tail (sr_queue r) then Inr (Popped None, r\<lparr>sr_consumer := C_idle\<rparr>)
      else Inr (Silent, r\<lparr>sr_consumer := C_read head\<rparr>))"
| "consumer_step cap moved (C_read head) r =
     (let q = sr_queue r in
      if unat head < length (sq_buffer q)
      then let v = sq_buffer q ! unat head in
        Inr (Silent, r\<lparr>sr_queue := q\<lparr>sq_buffer := (sq_buffer q)[unat head := moved v]\<rparr>, sr_consumer := C_publish head v\<rparr>)
      else Inl Undefined_behaviour)"
| "consumer_step cap moved (C_publish head v) r =
     Inr (Popped (Some v), r\<lparr>sr_queue := (sr_queue r)\<lparr>sq_head := (head + 1) AND ring_mask cap\<rparr>, sr_consumer := C_idle,
       sr_popped := sr_popped r @ [v]\<rparr>)"

text \<open>A step of either thread, or the call of an operation by a thread that is not in one.\<close>

inductive spsc_step :: "size_t \<Rightarrow> ('a \<Rightarrow> 'a) \<Rightarrow> 'a spsc_run \<Rightarrow> 'a spsc_event \<Rightarrow> 'a spsc_run \<Rightarrow> bool" for cap moved where
  call_push: "sr_producer r = P_idle \<Longrightarrow>
    spsc_step cap moved r Silent (r\<lparr>sr_producer := P_check v (sq_tail (sr_queue r))\<rparr>)"
| call_pop: "sr_consumer r = C_idle \<Longrightarrow>
    spsc_step cap moved r Silent (r\<lparr>sr_consumer := C_check (sq_head (sr_queue r))\<rparr>)"
| producer: "producer_step cap (sr_producer r) r = Inr (e, r') \<Longrightarrow> spsc_step cap moved r e r'"
| consumer: "consumer_step cap moved (sr_consumer r) r = Inr (e, r') \<Longrightarrow> spsc_step cap moved r e r'"

definition spsc_start :: "size_t \<Rightarrow> 'a \<Rightarrow> 'a spsc_run" where
  "spsc_start cap initial =
     \<lparr>sr_queue = spsc_new cap initial, sr_producer = P_idle, sr_consumer = C_idle, sr_pushed = [], sr_popped = []\<rparr>"

inductive spsc_reachable :: "size_t \<Rightarrow> ('a \<Rightarrow> 'a) \<Rightarrow> 'a \<Rightarrow> 'a spsc_run \<Rightarrow> bool" for cap moved initial where
  start: "spsc_reachable cap moved initial (spsc_start cap initial)"
| step: "spsc_reachable cap moved initial r \<Longrightarrow> spsc_step cap moved r e r' \<Longrightarrow> spsc_reachable cap moved initial r'"

text \<open>The elements that are pushed and not yet popped; one may be on its way out of its slot.\<close>

definition spsc_pending :: "size_t \<Rightarrow> 'a spsc_run \<Rightarrow> 'a list" where
  "spsc_pending cap r =
     (case sr_consumer r of
        C_publish _ v \<Rightarrow> v # tl (spsc_contents cap (sr_queue r))
      | _ \<Rightarrow> spsc_contents cap (sr_queue r))"

fun producer_ok :: "size_t \<Rightarrow> 'a spsc \<Rightarrow> 'a producer \<Rightarrow> bool" where
  "producer_ok cap q P_idle = True"
| "producer_ok cap q (P_check v tail) = (tail = sq_tail q)"
| "producer_ok cap q (P_write v tail next) =
     (tail = sq_tail q \<and> next = (sq_tail q + 1) AND ring_mask cap \<and> spsc_count cap q < unat cap - 1)"
| "producer_ok cap q (P_publish v next) =
     (sq_buffer q ! unat (sq_tail q) = v \<and> next = (sq_tail q + 1) AND ring_mask cap \<and> spsc_count cap q < unat cap - 1)"

fun consumer_ok :: "size_t \<Rightarrow> 'a spsc \<Rightarrow> 'a consumer \<Rightarrow> bool" where
  "consumer_ok cap q C_idle = True"
| "consumer_ok cap q (C_check head) = (head = sq_head q)"
| "consumer_ok cap q (C_read head) = (head = sq_head q \<and> 0 < spsc_count cap q)"
| "consumer_ok cap q (C_publish head v) = (head = sq_head q \<and> 0 < spsc_count cap q)"

definition spsc_run_inv :: "size_t \<Rightarrow> 'a spsc_run \<Rightarrow> bool" where
  "spsc_run_inv cap r \<longleftrightarrow>
     spsc_inv cap (sr_queue r) \<and> sr_pushed r = sr_popped r @ spsc_pending cap r \<and>
     producer_ok cap (sr_queue r) (sr_producer r) \<and> consumer_ok cap (sr_queue r) (sr_consumer r)"

lemma pending_length: "spsc_run_inv cap r \<Longrightarrow> length (spsc_pending cap r) = spsc_count cap (sr_queue r)"
  by (cases "sr_consumer r") (auto simp: spsc_run_inv_def spsc_pending_def)

lemma producer_inv:
  assumes inv: "spsc_run_inv cap r"
  shows "\<exists>e r'. producer_step cap (sr_producer r) r = Inr (e, r') \<and> spsc_run_inv cap r'"
proof (cases "sr_producer r")
  case P_idle
  with inv show ?thesis by simp
next
  case (P_check v tail)
  have q: "spsc_inv cap (sr_queue r)" and tail: "tail = sq_tail (sr_queue r)"
    using inv P_check by (simp_all add: spsc_run_inv_def)
  with spsc_full_iff [OF q] spsc_count_less [OF q] inv P_check show ?thesis
    by (auto simp: spsc_run_inv_def spsc_pending_def Let_def split: consumer.split)
next
  case (P_write v tail nx)
  have q: "spsc_inv cap (sr_queue r)" and tail: "tail = sq_tail (sr_queue r)"
    using inv P_write by (simp_all add: spsc_run_inv_def)
  have t: "unat tail < length (sq_buffer (sr_queue r))" using q tail by (simp add: spsc_inv_def)
  note w = spsc_write_tail [OF q, of v, folded tail]
  have "consumer_ok cap ((sr_queue r)\<lparr>sq_buffer := (sq_buffer (sr_queue r))[unat tail := v]\<rparr>) (sr_consumer r)"
    using inv w(2) by (cases "sr_consumer r") (auto simp: spsc_run_inv_def)
  with w t tail inv P_write show ?thesis
    by (auto simp: spsc_run_inv_def spsc_pending_def Let_def split: consumer.split)
next
  case (P_publish v nx)
  have q: "spsc_inv cap (sr_queue r)" and room: "spsc_count cap (sr_queue r) < unat cap - 1"
    and v: "sq_buffer (sr_queue r) ! unat (sq_tail (sr_queue r)) = v" and nx: "nx = (sq_tail (sr_queue r) + 1) AND ring_mask cap"
    using inv P_publish by (simp_all add: spsc_run_inv_def)
  let ?q = "(sr_queue r)\<lparr>sq_tail := nx\<rparr>"
  have "spsc_inv cap ?q \<and> spsc_contents cap ?q = spsc_contents cap (sr_queue r) @ [v]"
    using spsc_store [OF q room, of "sq_buffer (sr_queue r)"] q v nx by (simp add: spsc_inv_def)
  moreover from this have "spsc_count cap ?q = Suc (spsc_count cap (sr_queue r))"
    by (metis length_append_singleton length_spsc_contents)
  moreover have "consumer_ok cap ?q (sr_consumer r)"
    using inv calculation(2) by (cases "sr_consumer r") (auto simp: spsc_run_inv_def)
  moreover have "spsc_contents cap (sr_queue r) \<noteq> []" if "sr_consumer r = C_publish h x" for h x
    using inv that by (auto simp: spsc_run_inv_def simp flip: length_greater_0_conv)
  ultimately show ?thesis
    using inv P_publish by (auto simp: spsc_run_inv_def spsc_pending_def split: consumer.splits)
qed

lemma consumer_inv:
  assumes inv: "spsc_run_inv cap r"
  shows "\<exists>e r'. consumer_step cap moved (sr_consumer r) r = Inr (e, r') \<and> spsc_run_inv cap r'"
proof (cases "sr_consumer r")
  case C_idle
  with inv show ?thesis by simp
next
  case (C_check head)
  have q: "spsc_inv cap (sr_queue r)" and head: "head = sq_head (sr_queue r)"
    using inv C_check by (simp_all add: spsc_run_inv_def)
  with spsc_empty_iff [OF q] inv C_check show ?thesis
    by (auto simp: spsc_run_inv_def spsc_pending_def)
next
  case (C_read head)
  let ?q = "sr_queue r"
  have q: "spsc_inv cap ?q" and head: "head = sq_head ?q" and some: "0 < spsc_count cap ?q"
    using inv C_read by (simp_all add: spsc_run_inv_def)
  have h: "unat head < length (sq_buffer ?q)" using q head by (simp add: spsc_inv_def)
  let ?v = "sq_buffer ?q ! unat head"
  note w = spsc_write_head [OF q some, of "moved ?v", folded head]
  have "sq_tail ?q \<noteq> head" using spsc_empty_iff [OF q] some head by auto
  then have tail: "unat head \<noteq> unat (sq_tail ?q)" by (metis word_unat_eq_iff)
  have "producer_ok cap (?q\<lparr>sq_buffer := (sq_buffer ?q)[unat head := moved ?v]\<rparr>) (sr_producer r)"
    using inv w(2) tail by (cases "sr_producer r") (auto simp: spsc_run_inv_def)
  moreover have "spsc_contents cap ?q = ?v # tl (spsc_contents cap ?q)"
    using spsc_take(2) [OF q some, of "sq_buffer ?q"] q head by (simp add: spsc_inv_def)
  ultimately show ?thesis
    using w h head some inv C_read by (auto simp: spsc_run_inv_def spsc_pending_def Let_def)
next
  case (C_publish head v)
  let ?q = "sr_queue r"
  have q: "spsc_inv cap ?q" and head: "head = sq_head ?q" and some: "0 < spsc_count cap ?q"
    using inv C_publish by (simp_all add: spsc_run_inv_def)
  let ?q' = "?q\<lparr>sq_head := (head + 1) AND ring_mask cap\<rparr>"
  have take: "spsc_inv cap ?q'" "spsc_contents cap ?q = sq_buffer ?q ! unat head # spsc_contents cap ?q'"
    using spsc_take [OF q some, of "sq_buffer ?q"] q head by (simp_all add: spsc_inv_def)
  then have "spsc_count cap ?q = Suc (spsc_count cap ?q')" by (metis length_Cons length_spsc_contents)
  then have "producer_ok cap ?q' (sr_producer r)"
    using inv by (cases "sr_producer r") (auto simp: spsc_run_inv_def)
  with take inv C_publish show ?thesis by (auto simp: spsc_run_inv_def spsc_pending_def)
qed

lemma spsc_reachable_inv:
  assumes "capacity_ok cap"
  shows "spsc_reachable cap moved initial r \<Longrightarrow> spsc_run_inv cap r"
proof (induction rule: spsc_reachable.induct)
  case start
  show ?case using spsc_new_inv [OF assms, of initial] by (simp add: spsc_run_inv_def spsc_start_def spsc_pending_def)
next
  case (step r e r')
  from step.hyps(2) step.IH show ?case
  proof (induction rule: spsc_step.induct)
    case (producer r e r')
    then show ?case using producer_inv [of cap r] by auto
  next
    case (consumer r e r')
    then show ?case using consumer_inv [of cap r moved] by auto
  qed (auto simp: spsc_run_inv_def spsc_pending_def split: consumer.split)
qed

text \<open>
  C14: one producer and one consumer never interfere, in every interleaving of their steps. What has
  been popped is a prefix of what has been pushed, at most \<open>Capacity - 1\<close> elements are in between,
  the two threads never access the same slot at the same time, and no access is outside of the
  array.
\<close>

theorem spsc_concurrent_fifo:
  assumes "capacity_ok cap" and "spsc_reachable cap moved initial r"
  shows "(\<exists>pending. sr_pushed r = sr_popped r @ pending \<and> length pending \<le> unat cap - 1) \<and>
    (case (sr_producer r, sr_consumer r) of (P_write _ tail _, C_read head) \<Rightarrow> tail \<noteq> head | _ \<Rightarrow> True) \<and>
    producer_step cap (sr_producer r) r \<noteq> Inl Undefined_behaviour \<and>
    consumer_step cap moved (sr_consumer r) r \<noteq> Inl Undefined_behaviour"
proof (intro conjI)
  have inv: "spsc_run_inv cap r" by (rule spsc_reachable_inv [OF assms])
  then have q: "spsc_inv cap (sr_queue r)" by (simp add: spsc_run_inv_def)
  show "\<exists>pending. sr_pushed r = sr_popped r @ pending \<and> length pending \<le> unat cap - 1"
    using inv pending_length [OF inv] spsc_count_less [OF q] by (auto simp: spsc_run_inv_def)
  show "case (sr_producer r, sr_consumer r) of (P_write _ tail _, C_read head) \<Rightarrow> tail \<noteq> head | _ \<Rightarrow> True"
    using inv spsc_empty_iff [OF q] by (auto simp: spsc_run_inv_def split: producer.split consumer.split)
  show "producer_step cap (sr_producer r) r \<noteq> Inl Undefined_behaviour" using producer_inv [OF inv] by auto
  show "consumer_step cap moved (sr_consumer r) r \<noteq> Inl Undefined_behaviour" using consumer_inv [OF inv, of moved] by auto
qed

text \<open>A run with a capacity of 2 in which the producer has pushed 7 and the consumer is about to read it.\<close>

lemma demo_spsc:
  "\<exists>r. spsc_reachable 2 id (0 :: nat) r \<and> sr_pushed r = [7] \<and> sr_consumer r = C_read 0 \<and> sr_producer r = P_idle \<and>
     sq_head (sr_queue r) = 0"
proof -
  let ?q = "\<lparr>sq_head = 0, sq_tail = 0, sq_buffer = [0, 0]\<rparr>" and ?q' = "\<lparr>sq_head = 0, sq_tail = 0, sq_buffer = [7, 0]\<rparr>"
    and ?q2 = "\<lparr>sq_head = 0, sq_tail = 1, sq_buffer = [7, 0]\<rparr>"
  note go = spsc_reachable.step [where cap = 2 and moved = id and initial = "0 :: nat"]
  have "unat (2 :: size_t) = Suc (Suc 0)" by simp
  then have "spsc_reachable 2 id (0 :: nat) \<lparr>sr_queue = ?q, sr_producer = P_idle, sr_consumer = C_idle, sr_pushed = [], sr_popped = []\<rparr>"
    using spsc_reachable.start [of 2 id "0 :: nat"] by (simp only: spsc_start_def spsc_new_def replicate.simps)
  then have "spsc_reachable 2 id (0 :: nat) \<lparr>sr_queue = ?q, sr_producer = P_check 7 0, sr_consumer = C_idle, sr_pushed = [], sr_popped = []\<rparr>"
    by (rule go) (use spsc_step.call_push [of "\<lparr>sr_queue = ?q, sr_producer = P_idle, sr_consumer = C_idle, sr_pushed = [], sr_popped = []\<rparr>" 2 id 7] in simp)
  then have "spsc_reachable 2 id (0 :: nat) \<lparr>sr_queue = ?q, sr_producer = P_write 7 0 1, sr_consumer = C_idle, sr_pushed = [], sr_popped = []\<rparr>"
    by (rule go) (rule spsc_step.producer [where e = Silent], simp add: Let_def ring_mask_def)
  then have "spsc_reachable 2 id (0 :: nat) \<lparr>sr_queue = ?q', sr_producer = P_publish 7 1, sr_consumer = C_idle, sr_pushed = [], sr_popped = []\<rparr>"
    by (rule go) (rule spsc_step.producer [where e = Silent], simp add: Let_def)
  then have "spsc_reachable 2 id (0 :: nat) \<lparr>sr_queue = ?q2, sr_producer = P_idle, sr_consumer = C_idle, sr_pushed = [7], sr_popped = []\<rparr>"
    by (rule go) (rule spsc_step.producer [where e = "Pushed 7 True"], simp)
  then have "spsc_reachable 2 id (0 :: nat) \<lparr>sr_queue = ?q2, sr_producer = P_idle, sr_consumer = C_check 0, sr_pushed = [7], sr_popped = []\<rparr>"
    by (rule go) (use spsc_step.call_pop [of "\<lparr>sr_queue = ?q2, sr_producer = P_idle, sr_consumer = C_idle, sr_pushed = [7], sr_popped = []\<rparr>" 2 id] in simp)
  then have "spsc_reachable 2 id (0 :: nat) \<lparr>sr_queue = ?q2, sr_producer = P_idle, sr_consumer = C_read 0, sr_pushed = [7], sr_popped = []\<rparr>"
    by (rule go) (rule spsc_step.consumer [where e = Silent], simp)
  then show ?thesis by (intro exI conjI, assumption) simp_all
qed

theorem spsc_concurrent_fifo_witness:
  "\<exists>r. spsc_reachable 2 id (0 :: nat) r \<and> sr_pushed r = [7] \<and>
     consumer_step 2 id (sr_consumer r) r \<noteq> Inl Undefined_behaviour"
proof -
  obtain r where r: "spsc_reachable 2 id (0 :: nat) r" "sr_pushed r = [7]" using demo_spsc by blast
  moreover have "capacity_ok 2" by (simp add: capacity_ok_def)
  ultimately show ?thesis using spsc_concurrent_fifo [of 2 id 0 r] by blast
qed

text \<open>
  The answers are right at the moment they are decided. A \<open>push\<close> is refused only while
  \<open>Capacity - 1\<close> elements are in the queue, \<open>pop\<close> finds nothing only while everything pushed has been
  popped, and otherwise returns the oldest element not yet popped.
\<close>

theorem spsc_answers:
  assumes "capacity_ok cap" and "spsc_reachable cap moved initial r" and "spsc_step cap moved r e r'"
  shows "case e of
      Pushed v False \<Rightarrow> length (sr_pushed r) = length (sr_popped r) + (unat cap - 1)
    | Popped None \<Rightarrow> sr_pushed r = sr_popped r
    | Popped (Some v) \<Rightarrow> length (sr_popped r) < length (sr_pushed r) \<and> v = sr_pushed r ! length (sr_popped r)
    | _ \<Rightarrow> True"
proof -
  have inv: "spsc_run_inv cap r" by (rule spsc_reachable_inv [OF assms(1,2)])
  then have q: "spsc_inv cap (sr_queue r)" and hist: "sr_pushed r = sr_popped r @ spsc_pending cap r"
    by (simp_all add: spsc_run_inv_def)
  note len = pending_length [OF inv]
  from assms(3) show ?thesis
  proof cases
    case producer
    then show ?thesis
      using inv len hist spsc_full_iff [OF q]
      by (cases "sr_producer r") (auto simp: spsc_run_inv_def Let_def split: if_splits)
  next
    case consumer
    have pop: "spsc_pending cap r = v # tl (spsc_contents cap (sr_queue r))" if "sr_consumer r = C_publish h v" for h v
      using that by (simp add: spsc_pending_def)
    show ?thesis
      using consumer inv len hist spsc_empty_iff [OF q] pop
      by (cases "sr_consumer r") (auto simp: spsc_run_inv_def Let_def nth_append split: if_splits)
  qed simp_all
qed

theorem spsc_answers_witness:
  "\<exists>r r'. spsc_reachable 2 id (0 :: nat) r \<and> spsc_step 2 id r (Pushed 8 False) r' \<and>
     length (sr_pushed r) = length (sr_popped r) + (unat (2 :: size_t) - 1)"
proof -
  obtain r where r: "spsc_reachable 2 id (0 :: nat) r" "sr_pushed r = [7]" "sr_consumer r = C_read 0" "sr_producer r = P_idle"
      "sq_head (sr_queue r) = 0"
    using demo_spsc by blast
  have cap: "capacity_ok 2" by (simp add: capacity_ok_def)
  let ?r = "r\<lparr>sr_producer := P_check 8 (sq_tail (sr_queue r))\<rparr>"
  have r1: "spsc_reachable 2 id 0 ?r" by (rule spsc_reachable.step [OF r(1) spsc_step.call_push [OF r(4)]])
  have inv: "spsc_run_inv 2 r" by (rule spsc_reachable_inv [OF cap r(1)])
  then have q: "spsc_inv 2 (sr_queue r)" by (simp add: spsc_run_inv_def)
  have "spsc_count 2 (sr_queue r) = unat (2 :: size_t) - 1"
    using inv r(3) spsc_count_less [OF q] by (auto simp: spsc_run_inv_def)
  then have "(sq_tail (sr_queue r) + 1) AND ring_mask 2 = sq_head (sr_queue r)" using spsc_full_iff [OF q] by blast
  then have "producer_step 2 (sr_producer ?r) ?r = Inr (Pushed 8 False, ?r\<lparr>sr_producer := P_idle\<rparr>)" by (simp add: Let_def)
  note s = spsc_step.producer [OF this, where moved = id]
  from spsc_answers [OF cap r1 s] r1 s show ?thesis by auto
qed

text \<open>A thread that runs on its own until its operation returns.\<close>

fun producer_alone :: "size_t \<Rightarrow> nat \<Rightarrow> 'a spsc_run \<Rightarrow> ('a spsc_event \<times> 'a spsc_run) result" where
  "producer_alone cap 0 r = Inr (Silent, r)"
| "producer_alone cap (Suc n) r =
     rbind (producer_step cap (sr_producer r) r)
       (\<lambda>(e, r'). case e of Silent \<Rightarrow> producer_alone cap n r' | _ \<Rightarrow> Inr (e, r'))"

fun consumer_alone :: "size_t \<Rightarrow> ('a \<Rightarrow> 'a) \<Rightarrow> nat \<Rightarrow> 'a spsc_run \<Rightarrow> ('a spsc_event \<times> 'a spsc_run) result" where
  "consumer_alone cap moved 0 r = Inr (Silent, r)"
| "consumer_alone cap moved (Suc n) r =
     rbind (consumer_step cap moved (sr_consumer r) r)
       (\<lambda>(e, r'). case e of Silent \<Rightarrow> consumer_alone cap moved n r' | _ \<Rightarrow> Inr (e, r'))"

text \<open>
  The steps add up to the operations. Without interference from the other thread, the steps of
  \<open>push\<close> and \<open>pop\<close> compute, in at most three steps, exactly the result and queue of the operations
  as one thread sees them.
\<close>

theorem spsc_steps_are_calls:
  "rbind (producer_alone cap 3 (r\<lparr>sr_producer := P_check v (sq_tail (sr_queue r))\<rparr>))
     (\<lambda>(e, r'). case e of Pushed _ ok \<Rightarrow> Inr (ok, sr_queue r') | _ \<Rightarrow> Inl Undefined_behaviour) = spsc_push cap v (sr_queue r) \<and>
   rbind (consumer_alone cap moved 3 (r\<lparr>sr_consumer := C_check (sq_head (sr_queue r))\<rparr>))
     (\<lambda>(e, r'). case e of Popped x \<Rightarrow> Inr (x, sr_queue r') | _ \<Rightarrow> Inl Undefined_behaviour) = spsc_pop cap moved (sr_queue r)"
  by (simp add: numeral_3_eq_3 spsc_push_def spsc_pop_def Let_def)

end
