(* ===== verification/Mpmc_Queue.thy ===== *)
theory Mpmc_Queue
  imports Ring
begin

text \<open>
  \<open>MPMCQueue\<close> of \<open>include/tinycoro/queue.h\<close>: the steps of \<open>push\<close> and \<open>pop\<close>, one for each access to an
  atomic variable or to the data of a slot, and any number of threads that take them in any order.
\<close>

section \<open>The queue\<close>

record 'a mpmc_slot =
  sl_sequence :: size_t
  sl_data :: 'a

record 'a mpmc =
  mq_enqueue_pos :: size_t
  mq_dequeue_pos :: size_t
  mq_slots :: "'a mpmc_slot list"

definition mpmc_new :: "size_t \<Rightarrow> 'a \<Rightarrow> 'a mpmc" where
  "mpmc_new cap initial =
     \<lparr>mq_enqueue_pos = 0, mq_dequeue_pos = 0,
      mq_slots = map (\<lambda>i. \<lparr>sl_sequence = word_of_nat i, sl_data = initial\<rparr>) [0..<unat cap]\<rparr>"

text \<open>
  The difference of two positions as \<open>ptrdiff_t\<close>: the conversions wrap around, an overflow of the
  subtraction is undefined.
\<close>

definition pos_diff :: "size_t \<Rightarrow> size_t \<Rightarrow> int result" where
  "pos_diff a b =
     (let d = sint a - sint b in
      if - (2 ^ 63) \<le> d \<and> d < 2 ^ 63 then Inr d else Inl Undefined_behaviour)"

definition slot_index :: "size_t \<Rightarrow> size_t \<Rightarrow> nat" where
  "slot_index cap pos = unat (pos AND (cap - 1))"

definition slot_at :: "nat \<Rightarrow> 'a mpmc \<Rightarrow> 'a mpmc_slot result" where
  "slot_at i q = (if i < length (mq_slots q) then Inr (mq_slots q ! i) else Inl Undefined_behaviour)"

definition set_slot_at :: "nat \<Rightarrow> ('a mpmc_slot \<Rightarrow> 'a mpmc_slot) \<Rightarrow> 'a mpmc \<Rightarrow> 'a mpmc result" where
  "set_slot_at i f q =
     (if i < length (mq_slots q) then Inr (q\<lparr>mq_slots := (mq_slots q)[i := f (mq_slots q ! i)]\<rparr>)
      else Inl Undefined_behaviour)"

section \<open>Steps\<close>

text \<open>
  A step of a call of \<open>push\<close>: \<open>Inl\<close> is the state of the call after it, \<open>Inr\<close> what it returns.
  \<open>spurious\<close>: \<open>compare_exchange_weak\<close> fails without a reason.
\<close>

datatype push_state =
    Push_load
  | Push_seq size_t
  | Push_cas size_t
  | Push_write size_t
  | Push_publish size_t

fun push_step :: "size_t \<Rightarrow> 'a \<Rightarrow> bool \<Rightarrow> push_state \<Rightarrow> 'a mpmc \<Rightarrow> ((push_state + bool) \<times> 'a mpmc) result" where
  "push_step cap val spurious Push_load q = Inr (Inl (Push_seq (mq_enqueue_pos q)), q)"
| "push_step cap val spurious (Push_seq pos) q =
     rbind (slot_at (slot_index cap pos) q) (\<lambda>slot.
     rbind (pos_diff (sl_sequence slot) pos) (\<lambda>diff.
       if diff = 0 then Inr (Inl (Push_cas pos), q)
       else if diff < 0 then Inr (Inr False, q)
       else Inr (Inl Push_load, q)))"
| "push_step cap val spurious (Push_cas pos) q =
     (if mq_enqueue_pos q = pos \<and> \<not> spurious
      then Inr (Inl (Push_write pos), q\<lparr>mq_enqueue_pos := pos + 1\<rparr>)
      else Inr (Inl (Push_seq (mq_enqueue_pos q)), q))"
| "push_step cap val spurious (Push_write pos) q =
     rbind (set_slot_at (slot_index cap pos) (sl_data_update (\<lambda>_. val)) q) (\<lambda>q.
       Inr (Inl (Push_publish pos), q))"
| "push_step cap val spurious (Push_publish pos) q =
     rbind (set_slot_at (slot_index cap pos) (sl_sequence_update (\<lambda>_. pos + 1)) q) (\<lambda>q.
       Inr (Inr True, q))"

text \<open>A step of \<open>pop\<close>, which returns \<open>None\<close> for \<open>false\<close>; \<open>moved\<close> is what moving leaves in a value.\<close>

datatype 'a pop_state =
    Pop_load
  | Pop_seq size_t
  | Pop_cas size_t
  | Pop_read size_t
  | Pop_publish size_t 'a

fun pop_step :: "size_t \<Rightarrow> ('a \<Rightarrow> 'a) \<Rightarrow> bool \<Rightarrow> 'a pop_state \<Rightarrow> 'a mpmc \<Rightarrow> (('a pop_state + 'a option) \<times> 'a mpmc) result" where
  "pop_step cap moved spurious Pop_load q = Inr (Inl (Pop_seq (mq_dequeue_pos q)), q)"
| "pop_step cap moved spurious (Pop_seq pos) q =
     rbind (slot_at (slot_index cap pos) q) (\<lambda>slot.
     rbind (pos_diff (sl_sequence slot) (pos + 1)) (\<lambda>diff.
       if diff = 0 then Inr (Inl (Pop_cas pos), q)
       else if diff < 0 then Inr (Inr None, q)
       else Inr (Inl Pop_load, q)))"
| "pop_step cap moved spurious (Pop_cas pos) q =
     (if mq_dequeue_pos q = pos \<and> \<not> spurious
      then Inr (Inl (Pop_read pos), q\<lparr>mq_dequeue_pos := pos + 1\<rparr>)
      else Inr (Inl (Pop_seq (mq_dequeue_pos q)), q))"
| "pop_step cap moved spurious (Pop_read pos) q =
     rbind (slot_at (slot_index cap pos) q) (\<lambda>slot.
     rbind (set_slot_at (slot_index cap pos) (sl_data_update moved) q) (\<lambda>q.
       Inr (Inl (Pop_publish pos (sl_data slot)), q)))"
| "pop_step cap moved spurious (Pop_publish pos val) q =
     rbind (set_slot_at (slot_index cap pos) (sl_sequence_update (\<lambda>_. pos + cap)) q) (\<lambda>q.
       Inr (Inr (Some val), q))"

definition mpmc_empty :: "'a mpmc \<Rightarrow> bool" where
  "mpmc_empty q \<longleftrightarrow> mq_enqueue_pos q = mq_dequeue_pos q"

section \<open>Threads\<close>

text \<open>
  \<open>mr_claimed\<close> records the values in the order in which \<open>push\<close> claims positions for them, \<open>mr_popped\<close>
  the positions and values that \<open>pop\<close> returns.
\<close>

datatype 'a thread = T_idle | T_push 'a push_state | T_pop "'a pop_state"

record 'a mpmc_run =
  mr_queue :: "'a mpmc"
  mr_threads :: "nat \<Rightarrow> 'a thread"
  mr_claimed :: "'a list"
  mr_popped :: "(nat \<times> 'a) list"

definition after_push :: "nat \<Rightarrow> 'a \<Rightarrow> push_state + bool \<Rightarrow> 'a mpmc \<Rightarrow> 'a mpmc_run \<Rightarrow> 'a mpmc_run" where
  "after_push t v out q r = r\<lparr>mr_queue := q,
     mr_threads := (mr_threads r)(t := case out of Inl s \<Rightarrow> T_push v s | Inr _ \<Rightarrow> T_idle),
     mr_claimed := (case out of Inl (Push_write _) \<Rightarrow> mr_claimed r @ [v] | _ \<Rightarrow> mr_claimed r)\<rparr>"

definition after_pop :: "nat \<Rightarrow> 'a pop_state \<Rightarrow> 'a pop_state + 'a option \<Rightarrow> 'a mpmc \<Rightarrow> 'a mpmc_run \<Rightarrow> 'a mpmc_run" where
  "after_pop t s out q r = r\<lparr>mr_queue := q,
     mr_threads := (mr_threads r)(t := case out of Inl s \<Rightarrow> T_pop s | Inr _ \<Rightarrow> T_idle),
     mr_popped := (case (s, out) of (Pop_publish pos v, Inr _) \<Rightarrow> mr_popped r @ [(unat pos, v)] | _ \<Rightarrow> mr_popped r)\<rparr>"

datatype 'a mpmc_event = Tau | Push_returns nat bool | Pop_returns nat "'a option"

inductive mpmc_step :: "size_t \<Rightarrow> ('a \<Rightarrow> 'a) \<Rightarrow> 'a mpmc_run \<Rightarrow> 'a mpmc_event \<Rightarrow> 'a mpmc_run \<Rightarrow> bool" for cap moved where
  call_push: "mr_threads r t = T_idle \<Longrightarrow>
    mpmc_step cap moved r Tau (r\<lparr>mr_threads := (mr_threads r)(t := T_push v Push_load)\<rparr>)"
| call_pop: "mr_threads r t = T_idle \<Longrightarrow>
    mpmc_step cap moved r Tau (r\<lparr>mr_threads := (mr_threads r)(t := T_pop Pop_load)\<rparr>)"
| push: "mr_threads r t = T_push v s \<Longrightarrow> push_step cap v spurious s (mr_queue r) = Inr (out, q) \<Longrightarrow>
    mpmc_step cap moved r (case out of Inl _ \<Rightarrow> Tau | Inr ok \<Rightarrow> Push_returns t ok) (after_push t v out q r)"
| pop: "mr_threads r t = T_pop s \<Longrightarrow> pop_step cap moved spurious s (mr_queue r) = Inr (out, q) \<Longrightarrow>
    mpmc_step cap moved r (case out of Inl _ \<Rightarrow> Tau | Inr x \<Rightarrow> Pop_returns t x) (after_pop t s out q r)"

definition mpmc_start :: "size_t \<Rightarrow> 'a \<Rightarrow> 'a mpmc_run" where
  "mpmc_start cap initial =
     \<lparr>mr_queue = mpmc_new cap initial, mr_threads = (\<lambda>_. T_idle), mr_claimed = [], mr_popped = []\<rparr>"

inductive mpmc_reachable :: "size_t \<Rightarrow> ('a \<Rightarrow> 'a) \<Rightarrow> 'a \<Rightarrow> 'a mpmc_run \<Rightarrow> bool" for cap moved initial where
  start: "mpmc_reachable cap moved initial (mpmc_start cap initial)"
| step: "mpmc_reachable cap moved initial r \<Longrightarrow> mpmc_step cap moved r e r' \<Longrightarrow> mpmc_reachable cap moved initial r'"

section \<open>The invariant\<close>

text \<open>
  Positions are read as numbers: \<open>E\<close> have been claimed by \<open>push\<close>, \<open>D\<close> by \<open>pop\<close>, of a ring of \<open>n\<close> slots. A
  slot is free for a position \<open>p\<close>, or full with the element of position \<open>p\<close>; what has been claimed
  and not yet released is held by a thread.
\<close>

fun pushing :: "'a thread \<Rightarrow> nat \<Rightarrow> bool" where
  "pushing (T_push v (Push_write pos)) p = (unat pos = p)"
| "pushing (T_push v (Push_publish pos)) p = (unat pos = p)"
| "pushing _ p = False"

fun popping :: "'a thread \<Rightarrow> nat \<Rightarrow> bool" where
  "popping (T_pop (Pop_read pos)) p = (unat pos = p)"
| "popping (T_pop (Pop_publish pos v)) p = (unat pos = p)"
| "popping _ p = False"

abbreviation seq_no :: "'a mpmc \<Rightarrow> nat \<Rightarrow> nat" where
  "seq_no q i \<equiv> unat (sl_sequence (mq_slots q ! i))"

abbreviation data_of :: "'a mpmc \<Rightarrow> nat \<Rightarrow> 'a" where
  "data_of q i \<equiv> sl_data (mq_slots q ! i)"

definition slot_free :: "nat \<Rightarrow> nat \<Rightarrow> nat \<Rightarrow> (nat \<Rightarrow> 'a thread) \<Rightarrow> nat \<Rightarrow> bool" where
  "slot_free n E D T p \<longleftrightarrow> D \<le> p \<and> p < D + n \<and> E \<le> p + n \<and> (p < E \<longrightarrow> (\<exists>t. pushing (T t) p))"

definition slot_full :: "nat \<Rightarrow> nat \<Rightarrow> nat \<Rightarrow> (nat \<Rightarrow> 'a thread) \<Rightarrow> nat \<Rightarrow> bool" where
  "slot_full n E D T p \<longleftrightarrow>
     p < E \<and> p < D + n \<and> E \<le> p + n \<and> D \<le> p + n \<and> (p < D \<longrightarrow> (\<exists>t. popping (T t) p))"

definition slot_ok :: "nat \<Rightarrow> nat \<Rightarrow> (nat \<Rightarrow> 'a thread) \<Rightarrow> 'a list \<Rightarrow> 'a mpmc \<Rightarrow> nat \<Rightarrow> bool" where
  "slot_ok n D T C q i \<longleftrightarrow>
     (\<exists>p. p mod n = i \<and>
        (seq_no q i = p \<and> slot_free n (length C) D T p \<or>
         seq_no q i = p + 1 \<and> slot_full n (length C) D T p \<and> (D \<le> p \<longrightarrow> data_of q i = C ! p)))"

fun thread_ok :: "nat \<Rightarrow> nat \<Rightarrow> 'a list \<Rightarrow> 'a mpmc \<Rightarrow> 'a thread \<Rightarrow> bool" where
  "thread_ok n D C q (T_push v (Push_seq pos)) = (unat pos \<le> length C)"
| "thread_ok n D C q (T_push v (Push_cas pos)) =
     (unat pos \<le> length C \<and> unat pos \<le> seq_no q (unat pos mod n))"
| "thread_ok n D C q (T_push v (Push_write pos)) =
     (unat pos < length C \<and> C ! unat pos = v \<and> seq_no q (unat pos mod n) = unat pos)"
| "thread_ok n D C q (T_push v (Push_publish pos)) =
     (unat pos < length C \<and> C ! unat pos = v \<and> seq_no q (unat pos mod n) = unat pos \<and> data_of q (unat pos mod n) = v)"
| "thread_ok n D C q (T_pop (Pop_seq pos)) = (unat pos \<le> D)"
| "thread_ok n D C q (T_pop (Pop_cas pos)) = (unat pos \<le> D \<and> unat pos < seq_no q (unat pos mod n))"
| "thread_ok n D C q (T_pop (Pop_read pos)) =
     (unat pos < D \<and> seq_no q (unat pos mod n) = unat pos + 1 \<and> data_of q (unat pos mod n) = C ! unat pos)"
| "thread_ok n D C q (T_pop (Pop_publish pos v)) =
     (unat pos < D \<and> seq_no q (unat pos mod n) = unat pos + 1 \<and> v = C ! unat pos)"
| "thread_ok n D C q _ = True"

definition threads_ok :: "nat \<Rightarrow> nat \<Rightarrow> 'a list \<Rightarrow> 'a mpmc \<Rightarrow> (nat \<Rightarrow> 'a thread) \<Rightarrow> bool" where
  "threads_ok n D C q T \<longleftrightarrow>
     (\<forall>t. thread_ok n D C q (T t)) \<and>
     (\<forall>t t' p. pushing (T t) p \<and> pushing (T t') p \<longrightarrow> t = t') \<and>
     (\<forall>t t' p. popping (T t) p \<and> popping (T t') p \<longrightarrow> t = t')"

text \<open>Every position below \<open>D\<close> has been delivered once, or a thread is about to deliver it.\<close>

definition delivery_ok :: "nat \<Rightarrow> (nat \<Rightarrow> 'a thread) \<Rightarrow> 'a list \<Rightarrow> (nat \<times> 'a) list \<Rightarrow> bool" where
  "delivery_ok D T C L \<longleftrightarrow>
     distinct (map fst L) \<and>
     (\<forall>p v. (p, v) \<in> set L \<longrightarrow> p < D \<and> v = C ! p \<and> (\<forall>t. \<not> popping (T t) p)) \<and>
     (\<forall>p < D. p \<in> fst ` set L \<or> (\<exists>t. popping (T t) p))"

definition mpmc_inv :: "size_t \<Rightarrow> 'a mpmc_run \<Rightarrow> bool" where
  "mpmc_inv cap r \<longleftrightarrow>
     (let q = mr_queue r; n = unat cap; T = mr_threads r; C = mr_claimed r; D = unat (mq_dequeue_pos q) in
      capacity_ok cap \<and> length (mq_slots q) = n \<and> unat (mq_enqueue_pos q) = length C \<and> D \<le> length C \<and>
      (\<forall>i < n. slot_ok n D T C q i) \<and> threads_ok n D C q T \<and> delivery_ok D T C (mr_popped r))"

text \<open>The positions stay within the range in which their differences do not overflow.\<close>

definition pos_bound :: "size_t \<Rightarrow> 'a mpmc_run \<Rightarrow> bool" where
  "pos_bound cap r \<longleftrightarrow> length (mr_claimed r) + unat cap < 2 ^ 63"

lemma mpmc_invD:
  assumes "mpmc_inv cap r"
  shows "capacity_ok cap" and "length (mq_slots (mr_queue r)) = unat cap"
    and "unat (mq_enqueue_pos (mr_queue r)) = length (mr_claimed r)"
    and "unat (mq_dequeue_pos (mr_queue r)) \<le> length (mr_claimed r)"
    and "i < unat cap \<Longrightarrow> slot_ok (unat cap) (unat (mq_dequeue_pos (mr_queue r))) (mr_threads r) (mr_claimed r) (mr_queue r) i"
    and "threads_ok (unat cap) (unat (mq_dequeue_pos (mr_queue r))) (mr_claimed r) (mr_queue r) (mr_threads r)"
    and "delivery_ok (unat (mq_dequeue_pos (mr_queue r))) (mr_threads r) (mr_claimed r) (mr_popped r)"
  using assms by (simp_all add: mpmc_inv_def Let_def)

lemma threads_okD:
  assumes "threads_ok n D C q T"
  shows "thread_ok n D C q (T t)" and "pushing (T t) p \<Longrightarrow> pushing (T t') p \<Longrightarrow> t = t'"
    and "popping (T t) p \<Longrightarrow> popping (T t') p \<Longrightarrow> t = t'"
  using assms unfolding threads_ok_def by blast+

section \<open>Positions as numbers\<close>

lemma int_small: "unat (w :: 64 word) < 2 ^ 63 \<Longrightarrow> int (unat w) < 2 ^ 63"
  by (metis of_nat_less_iff of_nat_numeral of_nat_power)

lemma sint_small:
  assumes "unat (w :: 64 word) < 2 ^ 63"
  shows "sint w = int (unat w)"
proof -
  have u: "int (unat w) = uint w" by simp
  have "sint w = signed_take_bit 63 (uint w)" by (simp add: sint_uint)
  also have "\<dots> = uint w"
  proof (rule signed_take_bit_int_eq_self)
    show "- (2 ^ 63) \<le> uint w" by (rule order_trans [OF _ uint_ge_0]) simp
    show "uint w < 2 ^ 63" using int_small [OF assms] by (simp only: u)
  qed
  finally show ?thesis using u by simp
qed

lemma pos_diff_small:
  assumes "unat a < 2 ^ 63" and "unat b < 2 ^ 63"
  shows "pos_diff a b = Inr (int (unat a) - int (unat b))"
proof -
  have "int (unat a) < 2 ^ 63" "int (unat b) < 2 ^ 63" using assms by (simp_all only: int_small)
  then have "- (2 ^ 63) \<le> int (unat a) - int (unat b) \<and> int (unat a) - int (unat b) < 2 ^ 63" by linarith
  then show ?thesis unfolding pos_diff_def Let_def sint_small [OF assms(1)] sint_small [OF assms(2)] by (rule if_P)
qed

lemma slot_index_mod: "capacity_ok cap \<Longrightarrow> slot_index cap pos = unat pos mod unat cap"
  by (simp add: slot_index_def unat_ring)

lemma unat_succ: "unat (w :: 64 word) < 2 ^ 63 \<Longrightarrow> unat (w + 1) = unat w + 1"
  by (subst unat_add_64) simp_all

text \<open>Congruent positions that are less than a round apart are equal.\<close>

lemma mod_window:
  fixes p p' n :: nat
  assumes "p mod n = p' mod n" and "p \<le> p'" and "p' < p + n"
  shows "p = p'"
proof -
  obtain k where "p' = p + n * k" using assms(1,2) by (metis mod_eq_nat2E)
  with assms(3) show ?thesis by (cases k) auto
qed

lemma mod_succ_neq: "2 \<le> n \<Longrightarrow> (p + 1) mod n \<noteq> p mod n" for p n :: nat
  by (auto simp: mod_Suc)

section \<open>Slots and threads\<close>

lemma slot_cases:
  assumes "slot_ok n D T C q i"
  obtains (free) p where "p mod n = i" and "seq_no q i = p" and "slot_free n (length C) D T p"
  | (full) p where "p mod n = i" and "seq_no q i = p + 1" and "slot_full n (length C) D T p"
      and "D \<le> p \<Longrightarrow> data_of q i = C ! p"
proof -
  from assms obtain p where p: "p mod n = i"
    and "seq_no q i = p \<and> slot_free n (length C) D T p \<or>
      seq_no q i = p + 1 \<and> slot_full n (length C) D T p \<and> (D \<le> p \<longrightarrow> data_of q i = C ! p)"
    unfolding slot_ok_def by blast
  then show ?thesis using free [OF p] full [OF p] by blast
qed

lemma seq_bound: "slot_ok n D T C q i \<Longrightarrow> seq_no q i \<le> D + n"
  by (rule slot_cases) (auto simp: slot_free_def slot_full_def)

text \<open>A thread holds one position, and whoever holds a position holds its slot alone.\<close>

lemma one_position: "pushing th p \<or> popping th p \<Longrightarrow> pushing th p' \<or> popping th p' \<Longrightarrow> p = p'"
proof (cases th)
  case (T_push v s)
  then show "pushing th p \<or> popping th p \<Longrightarrow> pushing th p' \<or> popping th p' \<Longrightarrow> p = p'" by (cases s) auto
next
  case (T_pop s)
  then show "pushing th p \<or> popping th p \<Longrightarrow> pushing th p' \<or> popping th p' \<Longrightarrow> p = p'" by (cases s) auto
qed simp

lemma holder_seq:
  "thread_ok n D C q th \<Longrightarrow> pushing th p \<Longrightarrow> p < length C \<and> seq_no q (p mod n) = p"
  "thread_ok n D C q th \<Longrightarrow> popping th p \<Longrightarrow> p < D \<and> seq_no q (p mod n) = p + 1"
  by (cases "(n, D, C, q, th)" rule: thread_ok.cases; simp; fail)+

lemma exclusive:
  assumes T: "threads_ok n D C q T" and n: "2 \<le> n" and h: "pushing (T t) p \<or> popping (T t) p"
    and h': "pushing (T t') p' \<or> popping (T t') p'" and same: "p mod n = p' mod n"
  shows "t = t'"
proof -
  note ok = threads_okD(1) [OF T]
  have neq: "p \<noteq> p' + 1" "p' \<noteq> p + 1" using mod_succ_neq [OF n] same by metis+
  note seq = holder_seq [OF ok, of t p] holder_seq [OF ok, of t' p']
  from h h' show ?thesis
  proof (elim disjE)
    assume "pushing (T t) p" "pushing (T t') p'"
    with seq same have "p = p'" by (metis add_right_cancel)
    with \<open>pushing (T t) p\<close> \<open>pushing (T t') p'\<close> show ?thesis using threads_okD(2) [OF T] by blast
  next
    assume "popping (T t) p" "popping (T t') p'"
    with seq same have "p = p'" by (metis add_right_cancel)
    with \<open>popping (T t) p\<close> \<open>popping (T t') p'\<close> show ?thesis using threads_okD(3) [OF T] by blast
  qed (use seq same neq in metis)+
qed

text \<open>A slot held by one thread can change without the others noticing.\<close>

lemma other_thread_ok:
  assumes "thread_ok n D C q th" and "\<And>p. pushing th p \<or> popping th p \<Longrightarrow> p mod n \<noteq> i"
    and "\<And>j. j \<noteq> i \<Longrightarrow> mq_slots q' ! j = mq_slots q ! j" and "seq_no q i \<le> seq_no q' i"
  shows "thread_ok n D C q' th"
proof -
  have mono: "seq_no q j \<le> seq_no q' j" for j using assms(3) [of j] assms(4) by (cases "j = i") simp_all
  note at = mono [of "unat pos mod n" for pos]
  show ?thesis
  proof (cases th)
    case (T_push v s)
    then show ?thesis using assms(1-3) at by (cases s) (auto intro: order_trans)
  next
    case (T_pop s)
    then show ?thesis using assms(1-3) at by (cases s) (auto intro: less_le_trans)
  qed simp
qed

section \<open>Steps keep the invariant\<close>

text \<open>Which positions threads hold is all that slots and deliveries depend on.\<close>

definition same_holds :: "(nat \<Rightarrow> 'a thread) \<Rightarrow> (nat \<Rightarrow> 'a thread) \<Rightarrow> bool" where
  "same_holds T T' \<longleftrightarrow> (\<forall>t. pushing (T' t) = pushing (T t) \<and> popping (T' t) = popping (T t))"

lemma same_holds_upd:
  "pushing th = pushing (T t) \<Longrightarrow> popping th = popping (T t) \<Longrightarrow> same_holds T (T(t := th))"
  by (simp add: same_holds_def)

lemma slot_same_holds:
  "same_holds T T' \<Longrightarrow> slot_free n E D T' p = slot_free n E D T p"
  "same_holds T T' \<Longrightarrow> slot_full n E D T' p = slot_full n E D T p"
  "same_holds T T' \<Longrightarrow> slot_ok n D T' C q i = slot_ok n D T C q i"
  "same_holds T T' \<Longrightarrow> delivery_ok D T' C L = delivery_ok D T C L"
  by (simp_all add: same_holds_def slot_free_def slot_full_def slot_ok_def delivery_ok_def)

lemma inv_thread:
  assumes inv: "mpmc_inv cap r" and hold: "pushing th = pushing (mr_threads r t)" "popping th = popping (mr_threads r t)"
    and ok: "thread_ok (unat cap) (unat (mq_dequeue_pos (mr_queue r))) (mr_claimed r) (mr_queue r) th"
  shows "mpmc_inv cap (r\<lparr>mr_threads := (mr_threads r)(t := th)\<rparr>)"
proof -
  have same: "same_holds (mr_threads r) ((mr_threads r)(t := th))" using hold by (rule same_holds_upd)
  have "threads_ok (unat cap) (unat (mq_dequeue_pos (mr_queue r))) (mr_claimed r) (mr_queue r) ((mr_threads r)(t := th))"
    using mpmc_invD(6) [OF inv] ok same unfolding threads_ok_def same_holds_def by simp
  with inv show ?thesis by (simp add: mpmc_inv_def Let_def slot_same_holds [OF same])
qed

text \<open>Other threads keep their positions.\<close>

lemma free_keep:
  assumes "slot_free n E D T p" and "\<not> pushing (T t) p"
  shows "slot_free n E D (T(t := th)) p"
proof -
  have "\<exists>t'. pushing ((T(t := th)) t') p" if "pushing (T t') p" for t'
    using assms(2) that by (intro exI [of _ t']) auto
  with assms(1) show ?thesis unfolding slot_free_def by blast
qed

lemma full_keep:
  assumes "slot_full n E D T p" and "\<not> popping (T t) p"
  shows "slot_full n E D (T(t := th)) p"
proof -
  have "\<exists>t'. popping ((T(t := th)) t') p" if "popping (T t') p" for t'
    using assms(2) that by (intro exI [of _ t']) auto
  with assms(1) show ?thesis unfolding slot_full_def by blast
qed

lemma slot_keep:
  assumes ok: "slot_ok n D T C q i" and t: "\<And>p. pushing (T t) p \<or> popping (T t) p \<Longrightarrow> p mod n \<noteq> i"
    and same: "mq_slots q' ! i = mq_slots q ! i"
  shows "slot_ok n D (T(t := th)) C q' i"
  using ok
proof (cases rule: slot_cases)
  case (free p)
  then have "\<not> pushing (T t) p" using t by blast
  with free same show ?thesis unfolding slot_ok_def by (metis free_keep)
next
  case (full p)
  then have "\<not> popping (T t) p" using t by blast
  with full same show ?thesis unfolding slot_ok_def by (metis full_keep)
qed

lemma delivery_keep:
  assumes "delivery_ok D T C L" and "popping th = popping (T t)"
  shows "delivery_ok D (T(t := th)) C L"
proof -
  have "(\<exists>t'. popping ((T(t := th)) t') p) = (\<exists>t'. popping (T t') p)" for p
    using assms(2) by (metis fun_upd_apply)
  with assms(1) show ?thesis unfolding delivery_ok_def by blast
qed

lemma delivery_claim: "delivery_ok D T C L \<Longrightarrow> D \<le> length C \<Longrightarrow> delivery_ok D T (C @ [v]) L"
  by (fastforce simp: delivery_ok_def nth_append)

lemma delivery_take:
  assumes "delivery_ok D T C L" and "popping th = (\<lambda>p. D = p)" and "popping (T t) = (\<lambda>_. False)"
  shows "delivery_ok (D + 1) (T(t := th)) C L"
proof -
  have del: "distinct (map fst L)" "\<And>p v. (p, v) \<in> set L \<Longrightarrow> p < D \<and> v = C ! p \<and> (\<forall>t. \<not> popping (T t) p)"
      "\<And>p. p < D \<Longrightarrow> p \<in> fst ` set L \<or> (\<exists>t. popping (T t) p)"
    using assms(1) unfolding delivery_ok_def by blast+
  have "\<not> popping ((T(t := th)) t') p" if "(p, w) \<in> set L" for p w t' using del(2) [OF that] assms(2) by auto
  moreover have "p \<in> fst ` set L \<or> (\<exists>t'. popping ((T(t := th)) t') p)" if "p < D + 1" for p
  proof (cases "p = D")
    case True
    then have "popping ((T(t := th)) t) p" using assms(2) by simp
    then show ?thesis by blast
  next
    case False
    with that del(3) [of p] assms(3) show ?thesis by (metis fun_upd_other less_SucE Suc_eq_plus1)
  qed
  ultimately show ?thesis unfolding delivery_ok_def using del(1,2) by (auto simp: less_SucI)
qed

lemma delivery_release:
  assumes "delivery_ok D T C L" and "popping (T t) P" and "P < D" and "v = C ! P"
    and "\<And>t'. popping (T t') P \<Longrightarrow> t' = t" and "\<And>p. popping (T t) p \<Longrightarrow> p = P"
  shows "delivery_ok D (T(t := T_idle)) C (L @ [(P, v)])"
proof -
  let ?T = "T(t := T_idle)"
  have del: "distinct (map fst L)" "\<And>p v. (p, v) \<in> set L \<Longrightarrow> p < D \<and> v = C ! p \<and> (\<forall>t. \<not> popping (T t) p)"
      "\<And>p. p < D \<Longrightarrow> p \<in> fst ` set L \<or> (\<exists>t. popping (T t) p)"
    using assms(1) unfolding delivery_ok_def by blast+
  have "\<not> popping (?T t') p" if "(p, w) \<in> set L" for p w t' using del(2) [OF that] by auto
  moreover have "\<not> popping (?T t') P" for t' using assms(5) by auto
  moreover have "P \<notin> fst ` set L" using del(2) assms(2) by force
  moreover have "p = P \<or> p \<in> fst ` set L \<or> (\<exists>t'. popping (?T t') p)" if "p < D" for p
    using del(3) [OF that] assms(6) by (metis fun_upd_other)
  ultimately show ?thesis unfolding delivery_ok_def using del(1,2) assms(3,4) by auto
qed

text \<open>A step of the thread that holds position \<open>P\<close>: it may change the slot of \<open>P\<close> and give it up.\<close>

lemma inv_holder:
  fixes sl :: "'a mpmc_slot" and th :: "'a thread"
  assumes inv: "mpmc_inv cap r" and hold: "pushing (mr_threads r t) P \<or> popping (mr_threads r t) P"
  defines "n \<equiv> unat cap" and "D \<equiv> unat (mq_dequeue_pos (mr_queue r))"
    and "q' \<equiv> (mr_queue r)\<lparr>mq_slots := (mq_slots (mr_queue r))[P mod unat cap := sl]\<rparr>"
    and "T' \<equiv> (mr_threads r)(t := th)"
  assumes seq: "seq_no (mr_queue r) (P mod n) \<le> unat (sl_sequence sl)"
    and th: "thread_ok n D (mr_claimed r) q' th"
    and sub: "\<And>p. pushing th p \<Longrightarrow> pushing (mr_threads r t) p" "\<And>p. popping th p \<Longrightarrow> popping (mr_threads r t) p"
    and slot: "slot_ok n D T' (mr_claimed r) q' (P mod n)"
    and del: "delivery_ok D T' (mr_claimed r) L"
  shows "mpmc_inv cap (r\<lparr>mr_queue := q', mr_threads := T', mr_popped := L\<rparr>)"
proof -
  let ?T = "mr_threads r" and ?C = "mr_claimed r" and ?q = "mr_queue r" and ?i = "P mod n"
  note D = mpmc_invD [OF inv, folded n_def D_def]
  have n: "2 \<le> n" using capacity_bounds(1) [OF D(1)] by (simp add: n_def)
  have i: "?i < length (mq_slots ?q)" using n D(2) by simp
  have at_i: "mq_slots q' ! ?i = sl" using i by (simp add: q'_def n_def)
  have other: "mq_slots q' ! j = mq_slots ?q ! j" if "j \<noteq> ?i" for j using that by (simp add: q'_def n_def)
  have mine: "p = P" if "pushing (?T t) p \<or> popping (?T t) p" for p
    by (rule one_position [OF that hold])
  have "slot_ok n D T' ?C q' j" if "j < n" for j
  proof (cases "j = ?i")
    case False
    have "p mod n \<noteq> j" if "pushing (?T t) p \<or> popping (?T t) p" for p using mine [OF that] False by simp
    from slot_keep [OF D(5) [OF that] this other [OF False], where t = t] show ?thesis by (simp add: T'_def)
  qed (use slot in simp)
  moreover have "threads_ok n D ?C q' T'"
    unfolding threads_ok_def
  proof (intro conjI allI impI)
    fix t'
    show "thread_ok n D ?C q' (T' t')"
    proof (cases "t' = t")
      case False
      have "p mod n \<noteq> ?i" if "pushing (?T t') p \<or> popping (?T t') p" for p
        using exclusive [OF D(6) n hold that] False by metis
      with other_thread_ok [OF threads_okD(1) [OF D(6), of t'] this other] seq at_i False show ?thesis by (simp add: T'_def)
    qed (use th in \<open>simp add: T'_def\<close>)
  next
    fix t1 t2 p
    have old: "pushing (T' u) p \<Longrightarrow> pushing (?T u) p" "popping (T' u) p \<Longrightarrow> popping (?T u) p" for u
      using sub by (auto simp: T'_def split: if_splits)
    show "t1 = t2" if "pushing (T' t1) p \<and> pushing (T' t2) p" using that old threads_okD(2) [OF D(6)] by blast
    show "t1 = t2" if "popping (T' t1) p \<and> popping (T' t2) p" using that old threads_okD(3) [OF D(6)] by blast
  qed
  ultimately show ?thesis
    using inv del by (simp add: mpmc_inv_def Let_def n_def D_def q'_def T'_def)
qed

text \<open>The steps of \<open>push\<close> that hold a position.\<close>

lemma set_slot_index:
  assumes "mpmc_inv cap r"
  shows "slot_at (slot_index cap pos) (mr_queue r) = Inr (mq_slots (mr_queue r) ! (unat pos mod unat cap))"
    and "set_slot_at (slot_index cap pos) f (mr_queue r) = Inr ((mr_queue r)\<lparr>mq_slots :=
      (mq_slots (mr_queue r))[unat pos mod unat cap := f (mq_slots (mr_queue r) ! (unat pos mod unat cap))]\<rparr>)"
proof -
  have "unat pos mod unat cap < length (mq_slots (mr_queue r))"
    using mpmc_invD(1,2) [OF assms] capacity_bounds(1) [of cap] by simp
  then show "slot_at (slot_index cap pos) (mr_queue r) = Inr (mq_slots (mr_queue r) ! (unat pos mod unat cap))"
    and "set_slot_at (slot_index cap pos) f (mr_queue r) = Inr ((mr_queue r)\<lparr>mq_slots :=
      (mq_slots (mr_queue r))[unat pos mod unat cap := f (mq_slots (mr_queue r) ! (unat pos mod unat cap))]\<rparr>)"
    by (simp_all add: slot_at_def set_slot_at_def slot_index_mod [OF mpmc_invD(1) [OF assms]])
qed

text \<open>The slot of a position that is being pushed is free for it, that of one being popped is full.\<close>

lemma pushing_free:
  assumes inv: "mpmc_inv cap r" and "pushing (mr_threads r t) p"
  shows "slot_free (unat cap) (length (mr_claimed r)) (unat (mq_dequeue_pos (mr_queue r))) (mr_threads r) p"
proof -
  note D = mpmc_invD [OF inv]
  have n: "2 \<le> unat cap" by (rule capacity_bounds(1) [OF D(1)])
  have seq: "seq_no (mr_queue r) (p mod unat cap) = p" using holder_seq(1) [OF threads_okD(1) [OF D(6)] assms(2)] by simp
  have "p mod unat cap < unat cap" using n by simp
  from D(5) [OF this] show ?thesis
  proof (cases rule: slot_cases)
    case (full p')
    then show ?thesis using seq mod_succ_neq [OF n, of p'] by metis
  qed (use seq in metis)
qed

lemma popping_full:
  assumes inv: "mpmc_inv cap r" and "popping (mr_threads r t) p"
  shows "slot_full (unat cap) (length (mr_claimed r)) (unat (mq_dequeue_pos (mr_queue r))) (mr_threads r) p"
proof -
  note D = mpmc_invD [OF inv]
  have n: "2 \<le> unat cap" by (rule capacity_bounds(1) [OF D(1)])
  have seq: "seq_no (mr_queue r) (p mod unat cap) = p + 1" using holder_seq(2) [OF threads_okD(1) [OF D(6)] assms(2)] by simp
  have "p mod unat cap < unat cap" using n by simp
  from D(5) [OF this] show ?thesis
  proof (cases rule: slot_cases)
    case (free p')
    then show ?thesis using seq mod_succ_neq [OF n, of p] by metis
  qed (use seq in \<open>metis add_right_cancel\<close>)
qed

lemma inv_push_write:
  assumes inv: "mpmc_inv cap r" and t: "mr_threads r t = T_push v (Push_write pos)"
    and step: "push_step cap v spurious (Push_write pos) (mr_queue r) = Inr (out, q')"
  shows "mpmc_inv cap (after_push t v out q' r)"
proof -
  let ?n = "unat cap" and ?P = "unat pos" and ?q = "mr_queue r"
  let ?sl = "(mq_slots ?q ! (?P mod ?n))\<lparr>sl_data := v\<rparr>" and ?th = "T_push v (Push_publish pos)"
  note D = mpmc_invD [OF inv]
  have n: "?P mod ?n < length (mq_slots ?q)" using D(2) capacity_bounds(1) [OF D(1)] by simp
  have hold: "pushing (mr_threads r t) ?P" by (simp add: t)
  have out: "out = Inl (Push_publish pos)" and q': "q' = ?q\<lparr>mq_slots := (mq_slots ?q)[?P mod ?n := ?sl]\<rparr>"
    using step by (simp_all add: set_slot_index [OF inv])
  have same: "same_holds (mr_threads r) ((mr_threads r)(t := ?th))" by (rule same_holds_upd) (auto simp: t fun_eq_iff)
  have ok: "thread_ok ?n (unat (mq_dequeue_pos ?q)) (mr_claimed r) ?q (mr_threads r t)" by (rule threads_okD(1) [OF D(6)])
  have "mpmc_inv cap (r\<lparr>mr_queue := ?q\<lparr>mq_slots := (mq_slots ?q)[?P mod ?n := ?sl]\<rparr>,
      mr_threads := (mr_threads r)(t := ?th), mr_popped := mr_popped r\<rparr>)"
  proof (rule inv_holder [OF inv disjI1 [OF hold]])
    show "slot_ok ?n (unat (mq_dequeue_pos ?q)) ((mr_threads r)(t := ?th)) (mr_claimed r)
        (?q\<lparr>mq_slots := (mq_slots ?q)[?P mod ?n := ?sl]\<rparr>) (?P mod ?n)"
      unfolding slot_same_holds(3) [OF same] using pushing_free [OF inv hold] n ok t by (auto simp: slot_ok_def)
    show "delivery_ok (unat (mq_dequeue_pos ?q)) ((mr_threads r)(t := ?th)) (mr_claimed r) (mr_popped r)"
      unfolding slot_same_holds(4) [OF same] by (rule D(7))
  qed (use n ok t in auto)
  then show ?thesis by (simp add: after_push_def out q')
qed

lemma inv_push_publish:
  assumes inv: "mpmc_inv cap r" and b: "pos_bound cap r" and t: "mr_threads r t = T_push v (Push_publish pos)"
    and step: "push_step cap v spurious (Push_publish pos) (mr_queue r) = Inr (out, q')"
  shows "mpmc_inv cap (after_push t v out q' r)"
proof -
  let ?n = "unat cap" and ?P = "unat pos" and ?q = "mr_queue r" and ?T = "(mr_threads r)(t := T_idle)"
  let ?sl = "(mq_slots ?q ! (?P mod ?n))\<lparr>sl_sequence := pos + 1\<rparr>"
  note D = mpmc_invD [OF inv]
  have n: "?P mod ?n < length (mq_slots ?q)" using D(2) capacity_bounds(1) [OF D(1)] by simp
  have hold: "pushing (mr_threads r t) ?P" by (simp add: t)
  have out: "out = Inr True" and q': "q' = ?q\<lparr>mq_slots := (mq_slots ?q)[?P mod ?n := ?sl]\<rparr>"
    using step by (simp_all add: set_slot_index [OF inv])
  have ok: "?P < length (mr_claimed r)" "mr_claimed r ! ?P = v" "seq_no ?q (?P mod ?n) = ?P" "data_of ?q (?P mod ?n) = v"
    using threads_okD(1) [OF D(6), of t] by (simp_all add: t)
  have succ: "unat (pos + 1) = ?P + 1" by (rule unat_succ) (use ok(1) b in \<open>simp add: pos_bound_def\<close>)
  have "mpmc_inv cap (r\<lparr>mr_queue := ?q\<lparr>mq_slots := (mq_slots ?q)[?P mod ?n := ?sl]\<rparr>, mr_threads := ?T, mr_popped := mr_popped r\<rparr>)"
  proof (rule inv_holder [OF inv disjI1 [OF hold]])
    have "slot_full ?n (length (mr_claimed r)) (unat (mq_dequeue_pos ?q)) ?T ?P"
      using pushing_free [OF inv hold] ok(1) by (auto simp: slot_free_def slot_full_def)
    then show "slot_ok ?n (unat (mq_dequeue_pos ?q)) ?T (mr_claimed r)
        (?q\<lparr>mq_slots := (mq_slots ?q)[?P mod ?n := ?sl]\<rparr>) (?P mod ?n)"
      using n ok succ unfolding slot_ok_def by (intro exI [of _ ?P]) simp
    show "delivery_ok (unat (mq_dequeue_pos ?q)) ?T (mr_claimed r) (mr_popped r)"
      by (rule delivery_keep [OF D(7)]) (auto simp: t)
  qed (use n ok succ in auto)
  then show ?thesis by (simp add: after_push_def out q')
qed

lemma inv_pop_read:
  assumes inv: "mpmc_inv cap r" and t: "mr_threads r t = T_pop (Pop_read pos)"
    and step: "pop_step cap moved spurious (Pop_read pos) (mr_queue r) = Inr (out, q')"
  shows "mpmc_inv cap (after_pop t (Pop_read pos) out q' r)"
proof -
  let ?n = "unat cap" and ?P = "unat pos" and ?q = "mr_queue r"
  let ?v = "data_of ?q (?P mod ?n)" and ?sl = "sl_data_update moved (mq_slots ?q ! (?P mod ?n))"
  let ?th = "T_pop (Pop_publish pos ?v)"
  note D = mpmc_invD [OF inv]
  have n: "?P mod ?n < length (mq_slots ?q)" using D(2) capacity_bounds(1) [OF D(1)] by simp
  have hold: "popping (mr_threads r t) ?P" by (simp add: t)
  have out: "out = Inl (Pop_publish pos ?v)" and q': "q' = ?q\<lparr>mq_slots := (mq_slots ?q)[?P mod ?n := ?sl]\<rparr>"
    using step by (simp_all add: set_slot_index [OF inv])
  have same: "same_holds (mr_threads r) ((mr_threads r)(t := ?th))" by (rule same_holds_upd) (auto simp: t fun_eq_iff)
  have ok: "?P < unat (mq_dequeue_pos ?q)" "seq_no ?q (?P mod ?n) = ?P + 1" "?v = mr_claimed r ! ?P"
    using threads_okD(1) [OF D(6), of t] by (simp_all add: t)
  have "mpmc_inv cap (r\<lparr>mr_queue := ?q\<lparr>mq_slots := (mq_slots ?q)[?P mod ?n := ?sl]\<rparr>,
      mr_threads := (mr_threads r)(t := ?th), mr_popped := mr_popped r\<rparr>)"
  proof (rule inv_holder [OF inv disjI2 [OF hold]])
    show "slot_ok ?n (unat (mq_dequeue_pos ?q)) ((mr_threads r)(t := ?th)) (mr_claimed r)
        (?q\<lparr>mq_slots := (mq_slots ?q)[?P mod ?n := ?sl]\<rparr>) (?P mod ?n)"
      unfolding slot_same_holds(3) [OF same] using popping_full [OF inv hold] n ok
      by (simp add: slot_ok_def) (intro exI [of _ ?P], simp)
    show "delivery_ok (unat (mq_dequeue_pos ?q)) ((mr_threads r)(t := ?th)) (mr_claimed r) (mr_popped r)"
      unfolding slot_same_holds(4) [OF same] by (rule D(7))
  qed (use n ok t in auto)
  then show ?thesis by (simp add: after_pop_def out q')
qed

lemma inv_pop_publish:
  assumes inv: "mpmc_inv cap r" and b: "pos_bound cap r" and t: "mr_threads r t = T_pop (Pop_publish pos v)"
    and step: "pop_step cap moved spurious (Pop_publish pos v) (mr_queue r) = Inr (out, q')"
  shows "mpmc_inv cap (after_pop t (Pop_publish pos v) out q' r)"
proof -
  let ?n = "unat cap" and ?P = "unat pos" and ?q = "mr_queue r" and ?T = "(mr_threads r)(t := T_idle)"
  let ?sl = "(mq_slots ?q ! (?P mod ?n))\<lparr>sl_sequence := pos + cap\<rparr>" and ?L = "mr_popped r @ [(?P, v)]"
  note D = mpmc_invD [OF inv]
  have n: "?P mod ?n < length (mq_slots ?q)" using D(2) capacity_bounds(1) [OF D(1)] by simp
  have hold: "popping (mr_threads r t) ?P" by (simp add: t)
  have out: "out = Inr (Some v)" and q': "q' = ?q\<lparr>mq_slots := (mq_slots ?q)[?P mod ?n := ?sl]\<rparr>"
    using step by (simp_all add: set_slot_index [OF inv])
  have ok: "?P < unat (mq_dequeue_pos ?q)" "seq_no ?q (?P mod ?n) = ?P + 1" "v = mr_claimed r ! ?P"
    using threads_okD(1) [OF D(6), of t] by (simp_all add: t)
  have sum: "unat (pos + cap) = ?P + ?n"
    by (rule unat_add_64) (use ok(1) D(4) b in \<open>simp add: pos_bound_def\<close>)
  have full: "slot_full ?n (length (mr_claimed r)) (unat (mq_dequeue_pos ?q)) (mr_threads r) ?P" by (rule popping_full [OF inv hold])
  have "mpmc_inv cap (r\<lparr>mr_queue := ?q\<lparr>mq_slots := (mq_slots ?q)[?P mod ?n := ?sl]\<rparr>, mr_threads := ?T, mr_popped := ?L\<rparr>)"
  proof (rule inv_holder [OF inv disjI2 [OF hold]])
    have "slot_free ?n (length (mr_claimed r)) (unat (mq_dequeue_pos ?q)) ?T (?P + ?n)"
      using full ok(1) by (auto simp: slot_free_def slot_full_def)
    then show "slot_ok ?n (unat (mq_dequeue_pos ?q)) ?T (mr_claimed r)
        (?q\<lparr>mq_slots := (mq_slots ?q)[?P mod ?n := ?sl]\<rparr>) (?P mod ?n)"
      unfolding slot_ok_def using n sum by (intro exI [of _ "?P + ?n"]) simp
    show "delivery_ok (unat (mq_dequeue_pos ?q)) ?T (mr_claimed r) ?L"
      by (rule delivery_release [OF D(7) hold ok(1,3)]) (use hold threads_okD(3) [OF D(6)] one_position in blast)+
  qed (use n ok sum capacity_bounds(1) [OF D(1)] in auto)
  then show ?thesis by (simp add: after_pop_def out q')
qed

text \<open>The steps that claim a position.\<close>

lemma thread_ok_claim: "thread_ok n D C q th \<Longrightarrow> thread_ok n D (C @ [v]) q th" if "D \<le> length C"
  using that by (cases "(n, D, C, q, th)" rule: thread_ok.cases) (auto simp: nth_append)

lemma thread_ok_take: "thread_ok n D C q th \<Longrightarrow> thread_ok n (D + 1) C q th"
  by (cases "(n, D, C, q, th)" rule: thread_ok.cases) auto

lemma thread_ok_slots: "mq_slots q' = mq_slots q \<Longrightarrow> thread_ok n D C q' th = thread_ok n D C q th"
  by (cases "(n, D, C, q, th)" rule: thread_ok.cases) auto

lemma next_free:
  assumes ok: "slot_ok n D T C q (E mod n)" and E: "E = length C" and D: "D \<le> E" and n: "2 \<le> n"
    and seq: "E \<le> seq_no q (E mod n)"
  shows "seq_no q (E mod n) = E \<and> slot_free n E D T E"
  using ok
proof (cases rule: slot_cases)
  case (free p)
  then have "E = p" using mod_window [of E n p] seq D E by (simp add: slot_free_def)
  with free E show ?thesis by simp
next
  case (full p)
  then have "p + 1 = E" using seq E by (simp add: slot_full_def)
  with mod_succ_neq [OF n, of p] full(1) show ?thesis by metis
qed

lemma next_full:
  assumes ok: "slot_ok n D T C q (D mod n)" and n: "2 \<le> n" and seq: "D < seq_no q (D mod n)"
  shows "seq_no q (D mod n) = D + 1 \<and> slot_full n (length C) D T D \<and> data_of q (D mod n) = C ! D"
  using ok
proof (cases rule: slot_cases)
  case (free p)
  then have "D = p" using mod_window [OF free(1) [symmetric]] by (simp add: slot_free_def)
  with free(2) seq show ?thesis by (metis less_irrefl)
next
  case (full p)
  from full(2) seq have "D \<le> p" by linarith
  then have "D = p" using mod_window [OF full(1) [symmetric]] full(3) by (simp add: slot_full_def)
  with full show ?thesis by blast
qed

lemma inv_push_claim:
  assumes inv: "mpmc_inv cap r" and b: "pos_bound cap r" and t: "mr_threads r t = T_push v (Push_cas pos)"
    and pos: "mq_enqueue_pos (mr_queue r) = pos"
  shows "mpmc_inv cap (after_push t v (Inl (Push_write pos)) ((mr_queue r)\<lparr>mq_enqueue_pos := pos + 1\<rparr>) r)"
proof -
  let ?n = "unat cap" and ?q = "mr_queue r" and ?T = "(mr_threads r)(t := T_push v (Push_write pos))" and ?C = "mr_claimed r @ [v]"
  let ?D = "unat (mq_dequeue_pos ?q)" and ?E = "length (mr_claimed r)" and ?q' = "(mr_queue r)\<lparr>mq_enqueue_pos := pos + 1\<rparr>"
  note D = mpmc_invD [OF inv]
  have n: "2 \<le> ?n" by (rule capacity_bounds(1) [OF D(1)])
  have E: "unat pos = ?E" using D(3) pos by simp
  have succ: "unat (pos + 1) = ?E + 1" using unat_succ [of pos] E b by (simp add: pos_bound_def)
  have "?E mod ?n < ?n" using n by simp
  note ok = D(5) [OF this]
  have seq: "?E \<le> seq_no ?q (?E mod ?n)" using threads_okD(1) [OF D(6), of t] by (simp add: t E)
  from next_free [OF ok refl D(4) n seq] have free: "seq_no ?q (?E mod ?n) = ?E" "slot_free ?n ?E ?D (mr_threads r) ?E" by simp_all
  have idle: "\<not> pushing (mr_threads r t) p" "\<not> popping (mr_threads r t) p" for p by (simp_all add: t)
  have "slot_ok ?n ?D ?T ?C ?q' i" if i: "i < ?n" for i
    using D(5) [OF i]
  proof (cases rule: slot_cases)
    case (free p)
    have "?E \<noteq> p + ?n \<or> i = ?E mod ?n" using free(1) by auto
    moreover have "slot_free ?n ?E ?D ?T p" by (rule free_keep [OF free(3) idle(1)])
    moreover have "pushing (?T t) ?E" by (simp add: E)
    moreover have "p = ?E" if "i = ?E mod ?n" using that free(2) \<open>seq_no ?q (?E mod ?n) = ?E\<close> by simp
    ultimately have "slot_free ?n (?E + 1) ?D ?T p"
      using n by (cases "i = ?E mod ?n") (auto simp: slot_free_def less_Suc_eq)
    with free show ?thesis unfolding slot_ok_def by (intro exI [of _ p]) simp
  next
    case (full p)
    have "i \<noteq> ?E mod ?n"
    proof
      assume "i = ?E mod ?n"
      with full(2,3) \<open>seq_no ?q (?E mod ?n) = ?E\<close> have "p + 1 = ?E" by simp
      with mod_succ_neq [OF n, of p] full(1) \<open>i = ?E mod ?n\<close> show False by metis
    qed
    then have "?E \<noteq> p + ?n" using full(1) by auto
    then have "slot_full ?n (?E + 1) ?D ?T p"
      using full_keep [OF full(3) idle(2), of "T_push v (Push_write pos)"] by (auto simp: slot_full_def)
    moreover have "?C ! p = mr_claimed r ! p" using full(3) by (simp add: slot_full_def nth_append)
    ultimately show ?thesis using full unfolding slot_ok_def by (intro exI [of _ p]) simp
  qed
  moreover have "threads_ok ?n ?D ?C ?q' ?T"
    unfolding threads_ok_def
  proof (intro conjI allI impI)
    fix t'
    show "thread_ok ?n ?D ?C ?q' (?T t')"
      using thread_ok_claim [OF D(4) threads_okD(1) [OF D(6), of t'], of v] free(1) E
      by (simp add: thread_ok_slots [of ?q' ?q])
  next
    fix t1 t2 p
    have lt: "p < ?E" if "pushing (mr_threads r u) p" for u
      using holder_seq(1) [OF threads_okD(1) [OF D(6)] that] by simp
    show "t1 = t2" if "pushing (?T t1) p \<and> pushing (?T t2) p"
      using that threads_okD(2) [OF D(6)] lt E by (auto split: if_splits)
    show "t1 = t2" if "popping (?T t1) p \<and> popping (?T t2) p"
      using that threads_okD(3) [OF D(6)] by (auto split: if_splits)
  qed
  moreover have "delivery_ok ?D ?T ?C (mr_popped r)"
    by (rule delivery_claim [OF delivery_keep [OF D(7)] D(4)]) (simp add: t fun_eq_iff)
  ultimately show ?thesis
    using inv succ by (simp add: mpmc_inv_def Let_def after_push_def)
qed

lemma inv_pop_claim:
  assumes inv: "mpmc_inv cap r" and b: "pos_bound cap r" and t: "mr_threads r t = T_pop (Pop_cas pos)"
    and pos: "mq_dequeue_pos (mr_queue r) = pos"
  shows "mpmc_inv cap (after_pop t (Pop_cas pos) (Inl (Pop_read pos)) ((mr_queue r)\<lparr>mq_dequeue_pos := pos + 1\<rparr>) r)"
proof -
  let ?n = "unat cap" and ?q = "mr_queue r" and ?T = "(mr_threads r)(t := T_pop (Pop_read pos))" and ?C = "mr_claimed r"
  let ?D = "unat pos" and ?E = "length ?C" and ?q' = "(mr_queue r)\<lparr>mq_dequeue_pos := pos + 1\<rparr>"
  note D = mpmc_invD [OF inv, unfolded pos]
  have n: "2 \<le> ?n" by (rule capacity_bounds(1) [OF D(1)])
  have succ: "unat (pos + 1) = ?D + 1" using unat_succ [of pos] D(4) b by (simp add: pos_bound_def)
  have "?D mod ?n < ?n" using n by simp
  note ok = D(5) [OF this]
  have seq: "?D < seq_no ?q (?D mod ?n)" using threads_okD(1) [OF D(6), of t] by (simp add: t)
  note full_D = next_full [OF ok n seq]
  have idle: "\<not> pushing (mr_threads r t) p" "\<not> popping (mr_threads r t) p" for p by (simp_all add: t)
  have "slot_ok ?n (?D + 1) ?T ?C ?q' i" if i: "i < ?n" for i
    using D(5) [OF i]
  proof (cases rule: slot_cases)
    case (free p)
    have "p \<noteq> ?D" using free(1,2) full_D by auto
    then have "slot_free ?n ?E (?D + 1) ?T p"
      using free_keep [OF free(3) idle(1), of "T_pop (Pop_read pos)"] by (auto simp: slot_free_def)
    with free show ?thesis unfolding slot_ok_def by (intro exI [of _ p]) simp
  next
    case (full p)
    have "slot_full ?n ?E (?D + 1) ?T p"
    proof (cases "i = ?D mod ?n")
      case True
      then have "p = ?D" using full(2) full_D by simp
      moreover have "popping (?T t) ?D" by simp
      ultimately show ?thesis using full(3) n unfolding slot_full_def by fastforce
    next
      case False
      then have "?D \<noteq> p + ?n" "p \<noteq> ?D" using full(1) by auto
      then show ?thesis
        using full_keep [OF full(3) idle(2), of "T_pop (Pop_read pos)"] by (auto simp: slot_full_def less_Suc_eq)
    qed
    with full show ?thesis unfolding slot_ok_def by (intro exI [of _ p]) simp
  qed
  moreover have "threads_ok ?n (?D + 1) ?C ?q' ?T"
    unfolding threads_ok_def
  proof (intro conjI allI impI)
    fix t'
    show "thread_ok ?n (?D + 1) ?C ?q' (?T t')"
      using thread_ok_take [OF threads_okD(1) [OF D(6), of t']] full_D
      by (simp add: thread_ok_slots [of ?q' ?q])
  next
    fix t1 t2 p
    have lt: "p < ?D" if "popping (mr_threads r u) p" for u
      using holder_seq(2) [OF threads_okD(1) [OF D(6)] that] by simp
    show "t1 = t2" if "pushing (?T t1) p \<and> pushing (?T t2) p"
      using that threads_okD(2) [OF D(6)] by (auto split: if_splits)
    show "t1 = t2" if "popping (?T t1) p \<and> popping (?T t2) p"
      using that threads_okD(3) [OF D(6)] lt by (auto split: if_splits)
  qed
  moreover have "delivery_ok (?D + 1) ?T ?C (mr_popped r)"
    by (rule delivery_take [OF D(7)]) (simp_all add: t fun_eq_iff)
  moreover have "?D < ?E" using full_D by (simp add: slot_full_def)
  ultimately show ?thesis
    using inv succ by (simp add: mpmc_inv_def Let_def after_pop_def)
qed

section \<open>All steps\<close>

lemma seq_small:
  assumes "mpmc_inv cap r" and "pos_bound cap r"
  shows "seq_no (mr_queue r) (p mod unat cap) < 2 ^ 63"
proof -
  note D = mpmc_invD [OF assms(1)]
  have "p mod unat cap < unat cap" using capacity_bounds(1) [OF D(1)] by simp
  from seq_bound [OF D(5) [OF this]] D(4) assms(2) show ?thesis by (simp add: pos_bound_def)
qed

text \<open>The comparison of the sequence number of a slot with a position.\<close>

lemma push_seq_eq:
  assumes inv: "mpmc_inv cap r" and b: "pos_bound cap r" and pos: "unat pos \<le> length (mr_claimed r)"
  shows "push_step cap v spurious (Push_seq pos) (mr_queue r) =
    Inr (if seq_no (mr_queue r) (unat pos mod unat cap) = unat pos then Inl (Push_cas pos)
         else if seq_no (mr_queue r) (unat pos mod unat cap) < unat pos then Inr False else Inl Push_load, mr_queue r)"
proof -
  have "unat pos < 2 ^ 63" using pos b by (simp add: pos_bound_def)
  then have "pos_diff (sl_sequence (mq_slots (mr_queue r) ! (unat pos mod unat cap))) pos =
      Inr (int (seq_no (mr_queue r) (unat pos mod unat cap)) - int (unat pos))"
    by (rule pos_diff_small [OF seq_small [OF inv b]])
  then show ?thesis by (simp add: set_slot_index(1) [OF inv] del: of_nat_unat)
qed

lemma pop_seq_eq:
  assumes inv: "mpmc_inv cap r" and b: "pos_bound cap r" and pos: "unat pos \<le> unat (mq_dequeue_pos (mr_queue r))"
  shows "pop_step cap moved spurious (Pop_seq pos) (mr_queue r) =
    Inr (if seq_no (mr_queue r) (unat pos mod unat cap) = unat pos + 1 then Inl (Pop_cas pos)
         else if seq_no (mr_queue r) (unat pos mod unat cap) \<le> unat pos then Inr None else Inl Pop_load, mr_queue r)"
proof -
  have p: "unat pos + 1 < 2 ^ 63"
    using pos b mpmc_invD(4) [OF inv] capacity_bounds(1) [OF mpmc_invD(1) [OF inv]] by (simp add: pos_bound_def)
  then have succ: "unat (pos + 1) = unat pos + 1" by (intro unat_succ) simp
  then have "pos_diff (sl_sequence (mq_slots (mr_queue r) ! (unat pos mod unat cap))) (pos + 1) =
      Inr (int (seq_no (mr_queue r) (unat pos mod unat cap)) - int (unat pos + 1))"
    using pos_diff_small [OF seq_small [OF inv b], of "pos + 1"] p by simp
  then show ?thesis by (auto simp add: set_slot_index(1) [OF inv] simp del: of_nat_unat)
qed

lemma inv_push_quiet:
  assumes inv: "mpmc_inv cap r" and "\<not> (\<exists>pos. out = Inl (Push_write pos))"
    and hold: "pushing (mr_threads r t) = (\<lambda>_. False)" "popping (mr_threads r t) = (\<lambda>_. False)"
      "pushing (case out of Inl s \<Rightarrow> T_push v s | Inr _ \<Rightarrow> T_idle) = (\<lambda>_. False)"
    and ok: "thread_ok (unat cap) (unat (mq_dequeue_pos (mr_queue r))) (mr_claimed r) (mr_queue r)
      (case out of Inl s \<Rightarrow> T_push v s | Inr _ \<Rightarrow> T_idle)"
  shows "mpmc_inv cap (after_push t v out (mr_queue r) r)"
proof -
  have "popping (case out of Inl s \<Rightarrow> T_push v s | Inr _ \<Rightarrow> T_idle) = (\<lambda>_. False)" by (cases out) (auto simp: fun_eq_iff)
  with inv_thread [OF inv _ _ ok, of t] hold
  have "mpmc_inv cap (r\<lparr>mr_threads := (mr_threads r)(t := case out of Inl s \<Rightarrow> T_push v s | Inr _ \<Rightarrow> T_idle)\<rparr>)" by simp
  moreover have "(case out of Inl (Push_write _) \<Rightarrow> mr_claimed r @ [v] | _ \<Rightarrow> mr_claimed r) = mr_claimed r"
    using assms(2) by (auto split: sum.split push_state.split)
  ultimately show ?thesis by (simp add: after_push_def)
qed

lemma inv_pop_quiet:
  assumes inv: "mpmc_inv cap r" and s: "\<And>pos v. s \<noteq> Pop_publish pos v"
    and hold: "pushing (mr_threads r t) = (\<lambda>_. False)" "popping (mr_threads r t) = (\<lambda>_. False)"
      "popping (case out of Inl s \<Rightarrow> T_pop s | Inr _ \<Rightarrow> T_idle) = (\<lambda>_. False)"
    and ok: "thread_ok (unat cap) (unat (mq_dequeue_pos (mr_queue r))) (mr_claimed r) (mr_queue r)
      (case out of Inl s \<Rightarrow> T_pop s | Inr _ \<Rightarrow> T_idle)"
  shows "mpmc_inv cap (after_pop t s out (mr_queue r) r)"
proof -
  have "pushing (case out of Inl s \<Rightarrow> T_pop s | Inr _ \<Rightarrow> T_idle) = (\<lambda>_. False)" by (cases out) (auto simp: fun_eq_iff)
  with inv_thread [OF inv _ _ ok, of t] hold
  have "mpmc_inv cap (r\<lparr>mr_threads := (mr_threads r)(t := case out of Inl s \<Rightarrow> T_pop s | Inr _ \<Rightarrow> T_idle)\<rparr>)" by simp
  moreover have "(case (s, out) of (Pop_publish pos v, Inr _) \<Rightarrow> mr_popped r @ [(unat pos, v)] | _ \<Rightarrow> mr_popped r) = mr_popped r"
    using s by (simp split: pop_state.split)
  ultimately show ?thesis by (simp add: after_pop_def)
qed

lemma push_step_inv:
  assumes inv: "mpmc_inv cap r" and b: "pos_bound cap r" and t: "mr_threads r t = T_push v s"
  shows "\<exists>out q'. push_step cap v spurious s (mr_queue r) = Inr (out, q') \<and> mpmc_inv cap (after_push t v out q' r)"
proof -
  note D = mpmc_invD [OF inv]
  have ok: "thread_ok (unat cap) (unat (mq_dequeue_pos (mr_queue r))) (mr_claimed r) (mr_queue r) (T_push v s)"
    using threads_okD(1) [OF D(6), of t] by (simp add: t)
  have quiet: "mpmc_inv cap (after_push t v out (mr_queue r) r)"
    if "out = Inl Push_load \<or> (\<exists>pos. out = Inl (Push_seq pos)) \<or> (\<exists>pos. out = Inl (Push_cas pos)) \<or> (\<exists>ok. out = Inr ok)"
      "s = Push_load \<or> (\<exists>pos. s = Push_seq pos) \<or> (\<exists>pos. s = Push_cas pos)"
      "thread_ok (unat cap) (unat (mq_dequeue_pos (mr_queue r))) (mr_claimed r) (mr_queue r)
        (case out of Inl s \<Rightarrow> T_push v s | Inr _ \<Rightarrow> T_idle)" for out
    by (rule inv_push_quiet [OF inv]) (use that t in \<open>auto simp: fun_eq_iff\<close>)
  have load: "mpmc_inv cap (after_push t v (Inl (Push_seq (mq_enqueue_pos (mr_queue r)))) (mr_queue r) r)"
    if "s = Push_load \<or> (\<exists>pos. s = Push_cas pos)"
    by (rule quiet) (use that D(3) in auto)
  show ?thesis
  proof (cases s)
    case Push_load
    with load show ?thesis by simp
  next
    case (Push_seq pos)
    then have pos: "unat pos \<le> length (mr_claimed r)" using ok by simp
    show ?thesis unfolding Push_seq push_seq_eq [OF inv b pos]
      by (intro exI conjI, rule refl, rule quiet) (use Push_seq pos in auto)
  next
    case (Push_cas pos)
    with load inv_push_claim [OF inv b, of t v pos] t show ?thesis by auto
  next
    case (Push_write pos)
    with inv_push_write [OF inv, of t v pos spurious] t show ?thesis by (simp add: set_slot_index [OF inv])
  next
    case (Push_publish pos)
    with inv_push_publish [OF inv b, of t v pos spurious] t show ?thesis by (simp add: set_slot_index [OF inv])
  qed
qed

lemma pop_step_inv:
  assumes inv: "mpmc_inv cap r" and b: "pos_bound cap r" and t: "mr_threads r t = T_pop s"
  shows "\<exists>out q'. pop_step cap moved spurious s (mr_queue r) = Inr (out, q') \<and> mpmc_inv cap (after_pop t s out q' r)"
proof -
  note D = mpmc_invD [OF inv]
  have ok: "thread_ok (unat cap) (unat (mq_dequeue_pos (mr_queue r))) (mr_claimed r) (mr_queue r) (T_pop s)"
    using threads_okD(1) [OF D(6), of t] by (simp add: t)
  have quiet: "mpmc_inv cap (after_pop t s out (mr_queue r) r)"
    if "out = Inl Pop_load \<or> (\<exists>pos. out = Inl (Pop_seq pos)) \<or> (\<exists>pos. out = Inl (Pop_cas pos)) \<or> (\<exists>x. out = Inr x)"
      "s = Pop_load \<or> (\<exists>pos. s = Pop_seq pos) \<or> (\<exists>pos. s = Pop_cas pos)"
      "thread_ok (unat cap) (unat (mq_dequeue_pos (mr_queue r))) (mr_claimed r) (mr_queue r)
        (case out of Inl s \<Rightarrow> T_pop s | Inr _ \<Rightarrow> T_idle)" for out
    by (rule inv_pop_quiet [OF inv]) (use that t in \<open>auto simp: fun_eq_iff\<close>)
  have load: "mpmc_inv cap (after_pop t s (Inl (Pop_seq (mq_dequeue_pos (mr_queue r)))) (mr_queue r) r)"
    if "s = Pop_load \<or> (\<exists>pos. s = Pop_cas pos)"
    by (rule quiet) (use that in auto)
  show ?thesis
  proof (cases s)
    case Pop_load
    with load show ?thesis by simp
  next
    case (Pop_seq pos)
    then have pos: "unat pos \<le> unat (mq_dequeue_pos (mr_queue r))" using ok by simp
    show ?thesis unfolding Pop_seq pop_seq_eq [OF inv b pos]
      by (intro exI conjI, rule refl, fold Pop_seq, rule quiet) (use Pop_seq pos in auto)
  next
    case (Pop_cas pos)
    with load inv_pop_claim [OF inv b, of t pos] t show ?thesis by auto
  next
    case (Pop_read pos)
    with inv_pop_read [OF inv, of t pos moved spurious] t show ?thesis by (simp add: set_slot_index [OF inv])
  next
    case (Pop_publish pos v)
    with inv_pop_publish [OF inv b, of t pos v moved spurious] t show ?thesis by (simp add: set_slot_index [OF inv])
  qed
qed

lemma mpmc_start_inv:
  assumes "capacity_ok cap"
  shows "mpmc_inv cap (mpmc_start cap initial)"
proof -
  have small: "unat (word_of_nat i :: 64 word) = i" if "i < unat cap" for i
    using that capacity_bounds(2) [OF assms] by (intro unat_of_nat_64) simp
  have "slot_ok (unat cap) 0 (\<lambda>_. T_idle) [] (mpmc_new cap initial) i" if "i < unat cap" for i
    unfolding slot_ok_def using that small [OF that] by (intro exI [of _ i]) (simp add: mpmc_new_def slot_free_def)
  with assms show ?thesis
    by (simp add: mpmc_inv_def Let_def mpmc_start_def threads_ok_def delivery_ok_def) (simp add: mpmc_new_def)
qed

lemma mpmc_step_inv:
  assumes "mpmc_step cap moved r e r'" and "mpmc_inv cap r" and "pos_bound cap r"
  shows "mpmc_inv cap r'"
  using assms
proof cases
  case (call_push t v)
  then show ?thesis using inv_thread [OF assms(2), of "T_push v Push_load" t] by (simp add: fun_eq_iff)
next
  case (call_pop t)
  then show ?thesis using inv_thread [OF assms(2), of "T_pop Pop_load" t] by (simp add: fun_eq_iff)
next
  case (push t v s spurious out q)
  with push_step_inv [OF assms(2,3) push(3), of spurious] show ?thesis by auto
next
  case (pop t s spurious out q)
  with pop_step_inv [OF assms(2,3) pop(3), of moved spurious] show ?thesis by auto
qed

text \<open>Claims are never taken back.\<close>

lemma mpmc_step_claimed: "mpmc_step cap moved r e r' \<Longrightarrow> length (mr_claimed r) \<le> length (mr_claimed r')"
  by (induction rule: mpmc_step.induct) (auto simp: after_push_def after_pop_def split: sum.split push_state.split)

lemma mpmc_reachable_inv:
  assumes "capacity_ok cap"
  shows "mpmc_reachable cap moved initial r \<Longrightarrow> pos_bound cap r \<Longrightarrow> mpmc_inv cap r"
proof (induction rule: mpmc_reachable.induct)
  case start
  show ?case by (rule mpmc_start_inv [OF assms])
next
  case (step r e r')
  have "pos_bound cap r" using step.prems mpmc_step_claimed [OF step.hyps(2)] by (simp add: pos_bound_def)
  with step mpmc_step_inv show ?case by blast
qed

section \<open>Schedules\<close>

text \<open>An interleaving as a list of moves; \<open>None\<close>: a move that is not possible, or undefined behaviour.\<close>

datatype 'a move = Call_push nat 'a | Call_pop nat | Go nat

fun mpmc_move :: "size_t \<Rightarrow> ('a \<Rightarrow> 'a) \<Rightarrow> 'a move \<Rightarrow> 'a mpmc_run \<Rightarrow> 'a mpmc_run option" where
  "mpmc_move cap moved (Call_push t v) r =
     (case mr_threads r t of T_idle \<Rightarrow> Some (r\<lparr>mr_threads := (mr_threads r)(t := T_push v Push_load)\<rparr>) | _ \<Rightarrow> None)"
| "mpmc_move cap moved (Call_pop t) r =
     (case mr_threads r t of T_idle \<Rightarrow> Some (r\<lparr>mr_threads := (mr_threads r)(t := T_pop Pop_load)\<rparr>) | _ \<Rightarrow> None)"
| "mpmc_move cap moved (Go t) r =
     (case mr_threads r t of
        T_idle \<Rightarrow> None
      | T_push v s \<Rightarrow>
          (case push_step cap v False s (mr_queue r) of Inl e \<Rightarrow> None | Inr (out, q) \<Rightarrow> Some (after_push t v out q r))
      | T_pop s \<Rightarrow>
          (case pop_step cap moved False s (mr_queue r) of Inl e \<Rightarrow> None | Inr (out, q) \<Rightarrow> Some (after_pop t s out q r)))"

fun mpmc_exec :: "size_t \<Rightarrow> ('a \<Rightarrow> 'a) \<Rightarrow> 'a move list \<Rightarrow> 'a mpmc_run \<Rightarrow> 'a mpmc_run option" where
  "mpmc_exec cap moved [] r = Some r"
| "mpmc_exec cap moved (m # ms) r = Option.bind (mpmc_move cap moved m r) (mpmc_exec cap moved ms)"

lemma mpmc_move_step: "mpmc_move cap moved m r = Some r' \<Longrightarrow> \<exists>e. mpmc_step cap moved r e r'"
  by (cases m) (auto split: thread.splits sum.splits dest: mpmc_step.intros(1,2) mpmc_step.push mpmc_step.pop)

lemma mpmc_exec_reachable:
  "mpmc_exec cap moved ms r = Some r' \<Longrightarrow> mpmc_reachable cap moved initial r \<Longrightarrow> mpmc_reachable cap moved initial r'"
proof (induction ms arbitrary: r)
  case (Cons m ms)
  from Cons.prems(1) obtain r1 where r1: "mpmc_move cap moved m r = Some r1" "mpmc_exec cap moved ms r1 = Some r'"
    by (auto simp: bind_eq_Some_conv)
  with mpmc_move_step mpmc_reachable.step [OF Cons.prems(2)] have "mpmc_reachable cap moved initial r1" by blast
  with Cons.IH r1(2) show ?case by blast
qed simp

text \<open>
  Thread 0 pushes 7 and thread 1 pushes 8, which overtakes: it has finished while thread 0 has only
  claimed its position. Thread 2 then pops twice.
\<close>

definition demo_moves :: "nat move list" where
  "demo_moves =
     [Call_push 0 7, Call_push 1 8, Go 0, Go 0, Go 0, Go 1, Go 1, Go 1, Go 1, Go 1]"

definition demo_rest :: "nat move list" where
  "demo_rest = [Go 0, Go 0, Call_pop 2, Go 2, Go 2, Go 2, Go 2, Go 2, Call_pop 2, Go 2, Go 2, Go 2, Go 2, Go 2]"

definition demo_mpmc :: "nat move list \<Rightarrow> nat mpmc_run" where
  "demo_mpmc ms = the (mpmc_exec 2 id ms (mpmc_start 2 0))"

lemma demo_reachable: "mpmc_exec 2 id ms (mpmc_start 2 (0 :: nat)) \<noteq> None \<Longrightarrow> mpmc_reachable 2 id 0 (demo_mpmc ms)"
  using mpmc_exec_reachable [OF _ mpmc_reachable.start] by (auto simp: demo_mpmc_def)

lemma demo_runs:
  "mpmc_exec 2 id demo_moves (mpmc_start 2 (0 :: nat)) \<noteq> None"
  "mpmc_exec 2 id (demo_moves @ demo_rest) (mpmc_start 2 (0 :: nat)) \<noteq> None"
  by code_simp+

lemma demo_facts:
  "mr_claimed (demo_mpmc demo_moves) = [7, 8]"
  "mr_threads (demo_mpmc demo_moves) 0 = T_push 7 (Push_write 0)"
  "mr_claimed (demo_mpmc (demo_moves @ demo_rest)) = [7, 8]"
  "mr_popped (demo_mpmc (demo_moves @ demo_rest)) = [(0, 7), (1, 8)]"
  by code_simp+

lemma demo_bound: "mr_claimed r = [7, 8 :: nat] \<Longrightarrow> pos_bound 2 r"
  by (simp add: pos_bound_def)

section \<open>What the threads can rely on\<close>

text \<open>
  C3: every element is delivered exactly once. In every interleaving of any number of threads, as
  long as fewer than \<open>2^63 - Capacity\<close> elements have been pushed, positions are handed out in the
  order of the claims; each element that \<open>pop\<close> returns is the one pushed at its position, no position
  is returned twice, and when no \<open>pop\<close> is in progress every position taken has been returned.
\<close>

theorem mpmc_exactly_once:
  assumes "capacity_ok cap" and "mpmc_reachable cap moved initial r" and "pos_bound cap r"
  shows "distinct (map fst (mr_popped r)) \<and>
    (\<forall>(p, v) \<in> set (mr_popped r). p < unat (mq_dequeue_pos (mr_queue r)) \<and> v = mr_claimed r ! p) \<and>
    unat (mq_dequeue_pos (mr_queue r)) \<le> length (mr_claimed r) \<and>
    ((\<forall>t p. \<not> popping (mr_threads r t) p) \<longrightarrow> fst ` set (mr_popped r) = {..<unat (mq_dequeue_pos (mr_queue r))})"
proof -
  have inv: "mpmc_inv cap r" by (rule mpmc_reachable_inv [OF assms])
  note D = mpmc_invD(4,7) [OF inv]
  have del: "\<And>p v. (p, v) \<in> set (mr_popped r) \<Longrightarrow> p < unat (mq_dequeue_pos (mr_queue r)) \<and> v = mr_claimed r ! p"
      "\<And>p. p < unat (mq_dequeue_pos (mr_queue r)) \<Longrightarrow> p \<in> fst ` set (mr_popped r) \<or> (\<exists>t. popping (mr_threads r t) p)"
    using D(2) unfolding delivery_ok_def by blast+
  have "fst ` set (mr_popped r) = {..<unat (mq_dequeue_pos (mr_queue r))}" if "\<forall>t p. \<not> popping (mr_threads r t) p"
    using del that by (auto simp: image_iff)
  with D del(1) show ?thesis by (auto simp: delivery_ok_def)
qed

theorem mpmc_exactly_once_witness:
  "mr_popped (demo_mpmc (demo_moves @ demo_rest)) = [(0, 7), (1, 8)] \<and>
   distinct (map fst (mr_popped (demo_mpmc (demo_moves @ demo_rest))))"
  using mpmc_exactly_once [OF _ demo_reachable [OF demo_runs(2)] demo_bound [OF demo_facts(3)]] demo_facts(4)
  by (simp add: capacity_ok_def)

text \<open>The slot whose data a thread is about to access.\<close>

definition data_access :: "size_t \<Rightarrow> 'a thread \<Rightarrow> nat option" where
  "data_access cap th =
     (case th of
        T_push _ (Push_write pos) \<Rightarrow> Some (slot_index cap pos)
      | T_pop (Pop_read pos) \<Rightarrow> Some (slot_index cap pos)
      | _ \<Rightarrow> None)"

lemma data_access_holds:
  assumes "capacity_ok cap" and "data_access cap th = Some i"
  shows "\<exists>p. (pushing th p \<or> popping th p) \<and> p mod unat cap = i"
  using assms(2) slot_index_mod [OF assms(1)]
  by (auto simp: data_access_def split: thread.splits push_state.splits pop_state.splits)

text \<open>
  C15: no data race. Two threads are never about to access the data of the same slot, and no
  access of a thread is outside of the array or computes an overflowing difference.
\<close>

theorem mpmc_race_free:
  assumes "capacity_ok cap" and "mpmc_reachable cap moved initial r" and "pos_bound cap r"
  shows "(data_access cap (mr_threads r t) = Some i \<and> data_access cap (mr_threads r t') = Some i \<longrightarrow> t = t') \<and>
    (case mr_threads r t of
       T_idle \<Rightarrow> True
     | T_push v s \<Rightarrow> \<exists>y. push_step cap v spurious s (mr_queue r) = Inr y
     | T_pop s \<Rightarrow> \<exists>y. pop_step cap moved spurious s (mr_queue r) = Inr y)"
proof (rule conjI)
  have inv: "mpmc_inv cap r" by (rule mpmc_reachable_inv [OF assms])
  show "data_access cap (mr_threads r t) = Some i \<and> data_access cap (mr_threads r t') = Some i \<longrightarrow> t = t'"
    using exclusive [OF mpmc_invD(6) [OF inv] capacity_bounds(1) [OF assms(1)]] data_access_holds [OF assms(1)] by metis
  show "case mr_threads r t of
       T_idle \<Rightarrow> True
     | T_push v s \<Rightarrow> \<exists>y. push_step cap v spurious s (mr_queue r) = Inr y
     | T_pop s \<Rightarrow> \<exists>y. pop_step cap moved spurious s (mr_queue r) = Inr y"
    using push_step_inv [OF inv assms(3), of t _ _ spurious] pop_step_inv [OF inv assms(3), of t _ moved spurious]
    by (auto split: thread.split)
qed

theorem mpmc_race_free_witness:
  "data_access 2 (mr_threads (demo_mpmc demo_moves) 0) = Some 0 \<and>
   (\<exists>y. push_step 2 7 False (Push_write 0) (mr_queue (demo_mpmc demo_moves)) = Inr y)"
  using mpmc_race_free [OF _ demo_reachable [OF demo_runs(1)] demo_bound [OF demo_facts(1)], of 0 _ 0 False] demo_facts(2)
  by (simp add: capacity_ok_def data_access_def slot_index_def)

text \<open>When an operation is refused.\<close>

lemma push_refused:
  assumes inv: "mpmc_inv cap r" and P: "P \<le> length (mr_claimed r)" and seq: "seq_no (mr_queue r) (P mod unat cap) < P"
  shows "unat (mq_dequeue_pos (mr_queue r)) + unat cap \<le> length (mr_claimed r) \<or> (\<exists>t p. popping (mr_threads r t) p)"
proof -
  note D = mpmc_invD [OF inv]
  have "P mod unat cap < unat cap" using capacity_bounds(1) [OF D(1)] by simp
  from D(5) [OF this] show ?thesis
  proof (cases rule: slot_cases)
    case (free p)
    have "\<not> P < p + unat cap" using mod_window [OF free(1)] free(2) seq by linarith
    with free(3) P show ?thesis by (auto simp: slot_free_def)
  next
    case (full p)
    have "\<not> P < p + unat cap" using mod_window [OF full(1)] full(2) seq by linarith
    with full(3) P show ?thesis by (cases "unat (mq_dequeue_pos (mr_queue r)) \<le> p") (auto simp: slot_full_def)
  qed
qed

lemma pop_refused:
  assumes inv: "mpmc_inv cap r" and P: "P \<le> unat (mq_dequeue_pos (mr_queue r))" and seq: "seq_no (mr_queue r) (P mod unat cap) \<le> P"
  shows "length (mr_claimed r) = unat (mq_dequeue_pos (mr_queue r)) \<or> (\<exists>t. pushing (mr_threads r t) (unat (mq_dequeue_pos (mr_queue r))))"
proof -
  note D = mpmc_invD [OF inv]
  have "P mod unat cap < unat cap" using capacity_bounds(1) [OF D(1)] by simp
  from D(5) [OF this] show ?thesis
  proof (cases rule: slot_cases)
    case (free p)
    then have "p = unat (mq_dequeue_pos (mr_queue r))" using P seq by (simp add: slot_free_def)
    with free(3) D(4) show ?thesis by (auto simp: slot_free_def)
  next
    case (full p)
    have "\<not> P < p + unat cap" using mod_window [OF full(1)] full(2) seq by linarith
    with full(3) P D(4) show ?thesis by (auto simp: slot_full_def)
  qed
qed

text \<open>
  The answers are justified. \<open>push\<close> is refused only while all slots are taken or a \<open>pop\<close> that has
  claimed its position has not finished; \<open>pop\<close> finds nothing only while the queue is empty or the
  \<open>push\<close> that has claimed the next position has not finished.
\<close>

theorem mpmc_answers:
  assumes "capacity_ok cap" and "mpmc_reachable cap moved initial r" and "pos_bound cap r" and "mpmc_step cap moved r e r'"
  shows "case e of
      Push_returns t False \<Rightarrow>
        unat (mq_dequeue_pos (mr_queue r)) + unat cap \<le> length (mr_claimed r) \<or> (\<exists>t p. popping (mr_threads r t) p)
    | Pop_returns t None \<Rightarrow>
        length (mr_claimed r) = unat (mq_dequeue_pos (mr_queue r)) \<or>
        (\<exists>t. pushing (mr_threads r t) (unat (mq_dequeue_pos (mr_queue r))))
    | _ \<Rightarrow> True"
proof -
  have inv: "mpmc_inv cap r" by (rule mpmc_reachable_inv [OF assms(1-3)])
  note ok = threads_okD(1) [OF mpmc_invD(6) [OF inv]]
  from assms(4) show ?thesis
  proof cases
    case (push t v s spurious out q)
    show ?thesis
    proof (cases s)
      case (Push_seq pos)
      then have pos: "unat pos \<le> length (mr_claimed r)" using ok [of t] push(3) by simp
      show ?thesis
        using push push_refused [OF inv pos] unfolding Push_seq push_seq_eq [OF inv assms(3) pos] by (auto split: if_splits)
    qed (use push in \<open>auto simp: result_simps split: if_splits\<close>)
  next
    case (pop t s spurious out q)
    show ?thesis
    proof (cases s)
      case (Pop_seq pos)
      then have pos: "unat pos \<le> unat (mq_dequeue_pos (mr_queue r))" using ok [of t] pop(3) by simp
      show ?thesis
        using pop pop_refused [OF inv pos] unfolding Pop_seq pop_seq_eq [OF inv assms(3) pos] by (auto split: if_splits)
    qed (use pop in \<open>auto simp: result_simps split: if_splits\<close>)
  qed simp_all
qed

theorem mpmc_answers_witness:
  "let r = demo_mpmc (demo_moves @ [Call_pop 2, Go 2]) in
   mpmc_step 2 id r (Pop_returns 2 None) (after_pop 2 (Pop_seq 0) (Inr None) (mr_queue r) r) \<and>
   (\<exists>t. pushing (mr_threads r t) (unat (mq_dequeue_pos (mr_queue r))))"
proof -
  let ?r = "demo_mpmc (demo_moves @ [Call_pop 2, Go 2])"
  have run: "mpmc_exec 2 id (demo_moves @ [Call_pop 2, Go 2]) (mpmc_start 2 (0 :: nat)) \<noteq> None" by code_simp
  have claimed: "mr_claimed ?r = [7, 8]" by code_simp
  have deq: "mq_dequeue_pos (mr_queue ?r) = 0" by code_simp
  have "mr_threads ?r 2 = T_pop (Pop_seq 0)" by code_simp
  moreover have "pop_step 2 id False (Pop_seq 0) (mr_queue ?r) = Inr (Inr None, mr_queue ?r)" by code_simp
  ultimately have s: "mpmc_step 2 id ?r (Pop_returns 2 None) (after_pop 2 (Pop_seq 0) (Inr None) (mr_queue ?r) ?r)"
    using mpmc_step.pop [of ?r 2 "Pop_seq 0" 2 id False "Inr None" "mr_queue ?r"] by simp
  from mpmc_answers [OF _ demo_reachable [OF run] demo_bound [OF claimed] s] s claimed deq show ?thesis
    by (simp add: capacity_ok_def Let_def)
qed

section \<open>One thread\<close>

text \<open>A call that is not interfered with; \<open>None\<close>: it has not returned after \<open>k\<close> steps.\<close>

fun push_loop :: "size_t \<Rightarrow> 'a \<Rightarrow> nat \<Rightarrow> push_state \<Rightarrow> 'a mpmc \<Rightarrow> (bool \<times> 'a mpmc) result option" where
  "push_loop cap v 0 s q = None"
| "push_loop cap v (Suc k) s q =
     (case push_step cap v False s q of
        Inl e \<Rightarrow> Some (Inl e)
      | Inr (Inl s', q') \<Rightarrow> push_loop cap v k s' q'
      | Inr (Inr ok, q') \<Rightarrow> Some (Inr (ok, q')))"

fun pop_loop :: "size_t \<Rightarrow> ('a \<Rightarrow> 'a) \<Rightarrow> nat \<Rightarrow> 'a pop_state \<Rightarrow> 'a mpmc \<Rightarrow> ('a option \<times> 'a mpmc) result option" where
  "pop_loop cap moved 0 s q = None"
| "pop_loop cap moved (Suc k) s q =
     (case pop_step cap moved False s q of
        Inl e \<Rightarrow> Some (Inl e)
      | Inr (Inl s', q') \<Rightarrow> pop_loop cap moved k s' q'
      | Inr (Inr x, q') \<Rightarrow> Some (Inr (x, q')))"

definition mpmc_push :: "size_t \<Rightarrow> 'a \<Rightarrow> 'a mpmc \<Rightarrow> (bool \<times> 'a mpmc) result" where
  "mpmc_push cap v q = the (push_loop cap v 5 Push_load q)"

definition mpmc_pop :: "size_t \<Rightarrow> ('a \<Rightarrow> 'a) \<Rightarrow> 'a mpmc \<Rightarrow> ('a option \<times> 'a mpmc) result" where
  "mpmc_pop cap moved q = the (pop_loop cap moved 5 Pop_load q)"

definition mpmc_contents :: "size_t \<Rightarrow> 'a mpmc \<Rightarrow> 'a list" where
  "mpmc_contents cap q =
     map (\<lambda>p. data_of q (p mod unat cap)) [unat (mq_dequeue_pos q)..<unat (mq_enqueue_pos q)]"

abbreviation at_rest :: "'a mpmc_run \<Rightarrow> bool" where
  "at_rest r \<equiv> mr_threads r = (\<lambda>_. T_idle)"

text \<open>No more positions are claimed than there are slots.\<close>

lemma claimed_window:
  assumes "mpmc_inv cap r"
  shows "length (mr_claimed r) \<le> unat (mq_dequeue_pos (mr_queue r)) + unat cap"
proof -
  note D = mpmc_invD [OF assms]
  let ?D = "unat (mq_dequeue_pos (mr_queue r))"
  have "?D mod unat cap < unat cap" using capacity_bounds(1) [OF D(1)] by simp
  from D(5) [OF this] show ?thesis
  proof (cases rule: slot_cases)
    case (free p)
    then show ?thesis using mod_window [OF free(1) [symmetric]] by (auto simp: slot_free_def)
  next
    case (full p)
    then show ?thesis using mod_window [OF full(1) [symmetric]] by (cases "?D \<le> p") (auto simp: slot_full_def)
  qed
qed

lemma slot_at_rest:
  assumes inv: "mpmc_inv cap r" and rest: "at_rest r" and p: "unat (mq_dequeue_pos (mr_queue r)) \<le> p" "p < length (mr_claimed r)"
  shows "seq_no (mr_queue r) (p mod unat cap) = p + 1 \<and> data_of (mr_queue r) (p mod unat cap) = mr_claimed r ! p"
proof -
  note D = mpmc_invD [OF inv]
  have n: "p mod unat cap < unat cap" using capacity_bounds(1) [OF D(1)] by simp
  note w = claimed_window [OF inv]
  from D(5) [OF n] show ?thesis
  proof (cases rule: slot_cases)
    case (free p')
    have "length (mr_claimed r) \<le> p'" using free(3) rest by (auto simp: slot_free_def not_less [symmetric])
    then have "p = p'" using mod_window [OF free(1) [symmetric]] free(3) p by (simp add: slot_free_def)
    with \<open>length (mr_claimed r) \<le> p'\<close> p show ?thesis by simp
  next
    case (full p')
    have "unat (mq_dequeue_pos (mr_queue r)) \<le> p'" using full(3) rest by (auto simp: slot_full_def not_less [symmetric])
    then have "p' = p"
      using mod_window [OF full(1)] mod_window [OF full(1) [symmetric]] full(3) p w
      by (cases "p \<le> p'") (simp_all add: slot_full_def)
    with full \<open>unat (mq_dequeue_pos (mr_queue r)) \<le> p'\<close> show ?thesis by simp
  qed
qed

text \<open>The slot of the next position to push: free for it, or full with the oldest element.\<close>

lemma seq_at_rest:
  assumes inv: "mpmc_inv cap r" and rest: "at_rest r"
  shows "length (mr_claimed r) < unat (mq_dequeue_pos (mr_queue r)) + unat cap \<Longrightarrow>
      seq_no (mr_queue r) (length (mr_claimed r) mod unat cap) = length (mr_claimed r)"
    and "unat (mq_dequeue_pos (mr_queue r)) + unat cap \<le> length (mr_claimed r) \<Longrightarrow>
      unat cap \<le> length (mr_claimed r) \<and>
      seq_no (mr_queue r) (length (mr_claimed r) mod unat cap) = length (mr_claimed r) - unat cap + 1"
proof -
  note D = mpmc_invD [OF inv]
  let ?E = "length (mr_claimed r)" and ?D = "unat (mq_dequeue_pos (mr_queue r))" and ?n = "unat cap"
  have n: "2 \<le> ?n" by (rule capacity_bounds(1) [OF D(1)])
  show "seq_no (mr_queue r) (?E mod ?n) = ?E" if free: "?E < ?D + ?n"
  proof -
    have "?E mod ?n < ?n" using n by simp
    from D(5) [OF this] have "?E \<le> seq_no (mr_queue r) (?E mod ?n)"
    proof (cases rule: slot_cases)
      case (free p)
      then show ?thesis using rest by (auto simp: slot_free_def not_less [symmetric])
    next
      case (full p)
      have "?D \<le> p" using full(3) rest by (auto simp: slot_full_def not_less [symmetric])
      with mod_window [OF full(1)] full(3) free show ?thesis by (simp add: slot_full_def)
    qed
    with next_free [OF D(5) refl D(4) n] n show ?thesis by simp
  qed
  assume full: "?D + ?n \<le> ?E"
  have "?E = ?D + ?n" using claimed_window [OF inv] full by simp
  then have "?E - ?n = ?D" "?E mod ?n = ?D mod ?n" "?D < ?E" using n by simp_all
  with slot_at_rest [OF inv rest, of ?D] full show "?n \<le> ?E \<and> seq_no (mr_queue r) (?E mod ?n) = ?E - ?n + 1" by simp
qed

lemma contents_at_rest:
  assumes "mpmc_inv cap r" and "at_rest r"
  shows "mpmc_contents cap (mr_queue r) = drop (unat (mq_dequeue_pos (mr_queue r))) (mr_claimed r)"
proof (rule nth_equalityI)
  show "length (mpmc_contents cap (mr_queue r)) = length (drop (unat (mq_dequeue_pos (mr_queue r))) (mr_claimed r))"
    using mpmc_invD(3) [OF assms(1)] by (simp add: mpmc_contents_def)
  fix k
  assume "k < length (mpmc_contents cap (mr_queue r))"
  then have k: "unat (mq_dequeue_pos (mr_queue r)) + k < length (mr_claimed r)"
    using mpmc_invD(3) [OF assms(1)] by (simp add: mpmc_contents_def)
  from k have "mpmc_contents cap (mr_queue r) ! k = data_of (mr_queue r) ((unat (mq_dequeue_pos (mr_queue r)) + k) mod unat cap)"
    unfolding mpmc_contents_def mpmc_invD(3) [OF assms(1)] by (subst nth_map_upt) simp_all
  with slot_at_rest [OF assms, of "unat (mq_dequeue_pos (mr_queue r)) + k"] k
  show "mpmc_contents cap (mr_queue r) ! k = drop (unat (mq_dequeue_pos (mr_queue r))) (mr_claimed r) ! k" by simp
qed

text \<open>The steps of a lone call, one after the other.\<close>

lemma next_push:
  assumes "mpmc_inv cap r" and "pos_bound cap r" and "mr_threads r t = T_push v s"
    and "push_step cap v False s (mr_queue r) = Inr (out, q)"
  shows "mpmc_inv cap (after_push t v out q r)"
  using push_step_inv [OF assms(1-3), of False] assms(4) by auto

lemma next_pop:
  assumes "mpmc_inv cap r" and "pos_bound cap r" and "mr_threads r t = T_pop s"
    and "pop_step cap moved False s (mr_queue r) = Inr (out, q)"
  shows "mpmc_inv cap (after_pop t s out q r)"
  using pop_step_inv [OF assms(1-3), of moved False] assms(4) by auto

lemma push_alone:
  assumes inv: "mpmc_inv cap r" and b: "length (mr_claimed r) + unat cap + 1 < 2 ^ 63" and rest: "at_rest r"
  defines "free \<equiv> length (mr_claimed r) < unat (mq_dequeue_pos (mr_queue r)) + unat cap"
  shows "\<exists>q. push_loop cap v 5 Push_load (mr_queue r) = Some (Inr (free, q)) \<and>
    mpmc_inv cap (r\<lparr>mr_queue := q, mr_claimed := (if free then mr_claimed r @ [v] else mr_claimed r)\<rparr>) \<and>
    mq_dequeue_pos q = mq_dequeue_pos (mr_queue r)"
proof -
  let ?q = "mr_queue r" and ?E = "mq_enqueue_pos (mr_queue r)" and ?n = "unat cap" and ?C = "mr_claimed r"
  let ?th = "\<lambda>s. (mr_threads r)(0 := T_push v s)"
  note D = mpmc_invD [OF inv]
  have n: "2 \<le> ?n" by (rule capacity_bounds(1) [OF D(1)])
  have pb: "pos_bound cap r" using b by (simp add: pos_bound_def)
  have E: "unat ?E \<le> length ?C" using D(3) by simp
  have seq: "seq_no ?q (unat ?E mod ?n) = (if free then unat ?E else unat ?E - ?n + 1)" and full: "\<not> free \<Longrightarrow> ?n \<le> unat ?E"
    using seq_at_rest [OF inv rest] D(3) by (auto simp: free_def not_less)
  have first: "push_step cap v False (Push_seq ?E) ?q = Inr (if free then Inl (Push_cas ?E) else Inr False, ?q)"
    unfolding push_seq_eq [OF inv pb E] seq using n full by (cases free) auto
  show ?thesis
  proof (cases free)
    case False
    with first inv show ?thesis by (simp add: numeral_eq_Suc)
  next
    case True
    let ?r = "\<lambda>s. r\<lparr>mr_threads := ?th s\<rparr>"
    let ?q1 = "?q\<lparr>mq_enqueue_pos := ?E + 1\<rparr>"
    have "mpmc_inv cap (?r (Push_cas ?E))"
      by (rule inv_thread [OF inv]) (use rest seq True E in \<open>auto simp: fun_eq_iff\<close>)
    from next_push [OF this, of 0 v "Push_cas ?E"] pb
    have i1: "mpmc_inv cap (r\<lparr>mr_queue := ?q1, mr_threads := ?th (Push_write ?E), mr_claimed := ?C @ [v]\<rparr>)"
      by (simp add: after_push_def pos_bound_def)
    let ?r1 = "r\<lparr>mr_queue := ?q1, mr_threads := ?th (Push_write ?E), mr_claimed := ?C @ [v]\<rparr>"
    have pb1: "pos_bound cap ?r1" using b by (simp add: pos_bound_def)
    obtain q2 where q2: "set_slot_at (slot_index cap ?E) (sl_data_update (\<lambda>_. v)) ?q1 = Inr q2" "mq_dequeue_pos q2 = mq_dequeue_pos ?q"
      using set_slot_index(2) [OF i1, of ?E "sl_data_update (\<lambda>_. v)"] by simp
    from next_push [OF i1 pb1, of 0 v "Push_write ?E"] q2(1)
    have i2: "mpmc_inv cap (r\<lparr>mr_queue := q2, mr_threads := ?th (Push_publish ?E), mr_claimed := ?C @ [v]\<rparr>)"
      by (simp add: after_push_def)
    let ?r2 = "r\<lparr>mr_queue := q2, mr_threads := ?th (Push_publish ?E), mr_claimed := ?C @ [v]\<rparr>"
    have pb2: "pos_bound cap ?r2" using b by (simp add: pos_bound_def)
    obtain q3 where q3: "set_slot_at (slot_index cap ?E) (sl_sequence_update (\<lambda>_. ?E + 1)) q2 = Inr q3" "mq_dequeue_pos q3 = mq_dequeue_pos ?q"
      using set_slot_index(2) [OF i2, of ?E "sl_sequence_update (\<lambda>_. ?E + 1)"] q2(2) by simp
    from next_push [OF i2 pb2, of 0 v "Push_publish ?E"] q3(1)
    have "mpmc_inv cap (r\<lparr>mr_queue := q3, mr_threads := (mr_threads r)(0 := T_idle), mr_claimed := ?C @ [v]\<rparr>)"
      by (simp add: after_push_def)
    moreover have "(mr_threads r)(0 := T_idle) = mr_threads r" using rest by auto
    ultimately have "mpmc_inv cap (r\<lparr>mr_queue := q3, mr_claimed := ?C @ [v]\<rparr>)" by simp
    with True first q2 q3 show ?thesis by (simp add: numeral_eq_Suc)
  qed
qed

lemma empty_at_rest:
  assumes inv: "mpmc_inv cap r" and rest: "at_rest r" and e: "length (mr_claimed r) = unat (mq_dequeue_pos (mr_queue r))"
  shows "seq_no (mr_queue r) (unat (mq_dequeue_pos (mr_queue r)) mod unat cap) = unat (mq_dequeue_pos (mr_queue r))"
  using seq_at_rest(1) [OF inv rest] capacity_bounds(1) [OF mpmc_invD(1) [OF inv]] e by simp

lemma pop_alone:
  assumes inv: "mpmc_inv cap r" and b: "length (mr_claimed r) + unat cap < 2 ^ 63" and rest: "at_rest r"
  defines "D \<equiv> unat (mq_dequeue_pos (mr_queue r))"
  defines "some \<equiv> D < length (mr_claimed r)"
  shows "\<exists>q. pop_loop cap moved 5 Pop_load (mr_queue r) = Some (Inr (if some then Some (mr_claimed r ! D) else None, q)) \<and>
    mpmc_inv cap (r\<lparr>mr_queue := q, mr_popped := (if some then mr_popped r @ [(D, mr_claimed r ! D)] else mr_popped r)\<rparr>) \<and>
    unat (mq_dequeue_pos q) = (if some then D + 1 else D)"
proof -
  let ?q = "mr_queue r" and ?P = "mq_dequeue_pos (mr_queue r)" and ?C = "mr_claimed r"
  let ?th = "\<lambda>s. (mr_threads r)(0 := T_pop s)"
  note I = mpmc_invD [OF inv]
  have pb: "pos_bound cap r" using b by (simp add: pos_bound_def)
  have small: "D < 2 ^ 63" using b I(4) by (simp add: D_def)
  have seq: "seq_no ?q (unat ?P mod unat cap) = (if some then unat ?P + 1 else unat ?P)"
    and dat: "some \<Longrightarrow> data_of ?q (unat ?P mod unat cap) = ?C ! D"
    using empty_at_rest [OF inv rest] slot_at_rest [OF inv rest, of "unat ?P"] I(4) by (auto simp: some_def D_def not_less)
  have first: "pop_step cap moved False (Pop_seq ?P) ?q = Inr (if some then Inl (Pop_cas ?P) else Inr None, ?q)"
    unfolding pop_seq_eq [OF inv pb order_refl] seq by (cases some) auto
  show ?thesis
  proof (cases some)
    case False
    with first inv show ?thesis by (simp add: numeral_eq_Suc D_def)
  next
    case True
    let ?r = "\<lambda>s. r\<lparr>mr_threads := ?th s\<rparr>"
    let ?q1 = "?q\<lparr>mq_dequeue_pos := ?P + 1\<rparr>"
    have "mpmc_inv cap (?r (Pop_cas ?P))"
      by (rule inv_thread [OF inv]) (use rest seq True in \<open>auto simp: fun_eq_iff\<close>)
    from next_pop [OF this, of 0 "Pop_cas ?P"] pb
    have i1: "mpmc_inv cap (r\<lparr>mr_queue := ?q1, mr_threads := ?th (Pop_read ?P)\<rparr>)"
      by (simp add: after_pop_def pos_bound_def)
    let ?r1 = "r\<lparr>mr_queue := ?q1, mr_threads := ?th (Pop_read ?P)\<rparr>"
    have pb1: "pos_bound cap ?r1" using b by (simp add: pos_bound_def)
    have s1: "slot_at (slot_index cap ?P) ?q1 = Inr (mq_slots ?q ! (unat ?P mod unat cap))"
      using set_slot_index(1) [OF i1, of ?P] by simp
    obtain q2 where q2: "set_slot_at (slot_index cap ?P) (sl_data_update moved) ?q1 = Inr q2" "mq_dequeue_pos q2 = ?P + 1"
      using set_slot_index(2) [OF i1, of ?P "sl_data_update moved"] by simp
    from next_pop [OF i1 pb1, of 0 "Pop_read ?P" moved] q2(1) s1 dat [OF True]
    have i2: "mpmc_inv cap (r\<lparr>mr_queue := q2, mr_threads := ?th (Pop_publish ?P (?C ! D))\<rparr>)"
      by (simp add: after_pop_def)
    let ?r2 = "r\<lparr>mr_queue := q2, mr_threads := ?th (Pop_publish ?P (?C ! D))\<rparr>"
    have pb2: "pos_bound cap ?r2" using b by (simp add: pos_bound_def)
    obtain q3 where q3: "set_slot_at (slot_index cap ?P) (sl_sequence_update (\<lambda>_. ?P + cap)) q2 = Inr q3" "mq_dequeue_pos q3 = ?P + 1"
      using set_slot_index(2) [OF i2, of ?P "sl_sequence_update (\<lambda>_. ?P + cap)"] q2(2) by simp
    from next_pop [OF i2 pb2, of 0 "Pop_publish ?P (?C ! D)"] q3(1)
    have "mpmc_inv cap (r\<lparr>mr_queue := q3, mr_threads := (mr_threads r)(0 := T_idle), mr_popped := mr_popped r @ [(D, ?C ! D)]\<rparr>)"
      by (simp add: after_pop_def D_def)
    moreover have "(mr_threads r)(0 := T_idle) = mr_threads r" using rest by auto
    ultimately have "mpmc_inv cap (r\<lparr>mr_queue := q3, mr_popped := mr_popped r @ [(D, ?C ! D)]\<rparr>)" by simp
    moreover have "unat (?P + 1) = D + 1" using unat_succ small by (simp add: D_def)
    ultimately show ?thesis using True first q2 q3 s1 dat by (simp add: numeral_eq_Suc)
  qed
qed

section \<open>A bounded queue\<close>

text \<open>\<open>mpmc_wf k\<close>: no call is in progress, and \<open>k\<close> more elements keep the positions in range.\<close>

definition mpmc_wf :: "size_t \<Rightarrow> nat \<Rightarrow> 'a mpmc \<Rightarrow> bool" where
  "mpmc_wf cap k q \<longleftrightarrow>
     (\<exists>r. mpmc_inv cap r \<and> at_rest r \<and> mr_queue r = q \<and> length (mr_claimed r) + unat cap + k < 2 ^ 63)"

lemma mpmc_wfE:
  assumes "mpmc_wf cap k q"
  obtains r where "mpmc_inv cap r" and "at_rest r" and "mr_queue r = q" and "length (mr_claimed r) + unat cap + k < 2 ^ 63"
    and "mpmc_contents cap q = drop (unat (mq_dequeue_pos q)) (mr_claimed r)"
  using assms contents_at_rest unfolding mpmc_wf_def by metis

lemma mpmc_wfI:
  "mpmc_inv cap r \<Longrightarrow> at_rest r \<Longrightarrow> length (mr_claimed r) + unat cap + k < 2 ^ 63 \<Longrightarrow> mpmc_wf cap k (mr_queue r)"
  unfolding mpmc_wf_def by blast

lemma mpmc_push_spec:
  assumes "mpmc_wf cap (Suc k) q"
  defines "room \<equiv> length (mpmc_contents cap q) < unat cap"
  shows "\<exists>q'. push_loop cap v 5 Push_load q = Some (Inr (room, q')) \<and> mpmc_wf cap k q' \<and>
    mpmc_contents cap q' = (if room then mpmc_contents cap q @ [v] else mpmc_contents cap q)"
proof (rule mpmc_wfE [OF assms(1)])
  fix r
  assume r: "mpmc_inv cap r" "at_rest r" "mr_queue r = q" "length (mr_claimed r) + unat cap + Suc k < 2 ^ 63"
    "mpmc_contents cap q = drop (unat (mq_dequeue_pos q)) (mr_claimed r)"
  have D: "unat (mq_dequeue_pos q) \<le> length (mr_claimed r)" using mpmc_invD(4) [OF r(1)] r(3) by simp
  then have room: "room = (length (mr_claimed r) < unat (mq_dequeue_pos q) + unat cap)" by (auto simp: room_def r(5))
  define C where "C = (if room then mr_claimed r @ [v] else mr_claimed r)"
  from push_alone [OF r(1) _ r(2), of v] r(3,4) obtain q' where q': "push_loop cap v 5 Push_load q = Some (Inr (room, q'))"
    "mpmc_inv cap (r\<lparr>mr_queue := q', mr_claimed := C\<rparr>)" "mq_dequeue_pos q' = mq_dequeue_pos q"
    unfolding room C_def by auto
  have "mpmc_wf cap k q'" using mpmc_wfI [OF q'(2), of k] r(2,4) by (auto simp: C_def)
  moreover have "mpmc_contents cap q' = drop (unat (mq_dequeue_pos q)) C"
    using contents_at_rest [OF q'(2)] r(2) q'(3) by simp
  ultimately show ?thesis using q'(1) r(5) D by (auto simp: C_def)
qed

lemma mpmc_pop_spec:
  assumes "mpmc_wf cap k q"
  shows "\<exists>q'. mpmc_wf cap k q' \<and>
    (case mpmc_contents cap q of
       [] \<Rightarrow> pop_loop cap moved 5 Pop_load q = Some (Inr (None, q')) \<and> mpmc_contents cap q' = []
     | x # xs \<Rightarrow> pop_loop cap moved 5 Pop_load q = Some (Inr (Some x, q')) \<and> mpmc_contents cap q' = xs)"
proof (rule mpmc_wfE [OF assms(1)])
  fix r
  assume r: "mpmc_inv cap r" "at_rest r" "mr_queue r = q" "length (mr_claimed r) + unat cap + k < 2 ^ 63"
    "mpmc_contents cap q = drop (unat (mq_dequeue_pos q)) (mr_claimed r)"
  define D where "D = unat (mq_dequeue_pos q)"
  define some where "some \<longleftrightarrow> D < length (mr_claimed r)"
  define L where "L = (if some then mr_popped r @ [(D, mr_claimed r ! D)] else mr_popped r)"
  from pop_alone [OF r(1) _ r(2), of moved] r(3,4) obtain q' where
    q': "pop_loop cap moved 5 Pop_load q = Some (Inr (if some then Some (mr_claimed r ! D) else None, q'))"
    "mpmc_inv cap (r\<lparr>mr_queue := q', mr_popped := L\<rparr>)" "unat (mq_dequeue_pos q') = (if some then D + 1 else D)"
    unfolding some_def L_def D_def by auto
  have "mpmc_wf cap k q'" using mpmc_wfI [OF q'(2), of k] r(2,4) by auto
  moreover have "mpmc_contents cap q' = drop (if some then D + 1 else D) (mr_claimed r)"
    using contents_at_rest [OF q'(2)] r(2) q'(3) by simp
  ultimately show ?thesis using q'(1) r(5)
    by (cases some) (auto simp: some_def D_def Cons_nth_drop_Suc [symmetric] split: list.split)
qed

interpretation mpmc: bounded_queue "mpmc_wf cap" "mpmc_contents cap" "unat cap" "mpmc_push cap" "mpmc_pop cap moved"
  for cap moved
proof unfold_locales
  fix k x and q :: "'a mpmc"
  assume "mpmc_wf cap (Suc k) q"
  from mpmc_push_spec [OF this, of x]
  show "\<exists>q'. mpmc_push cap x q = Inr (length (mpmc_contents cap q) < unat cap, q') \<and> mpmc_wf cap k q' \<and>
      mpmc_contents cap q' = (if length (mpmc_contents cap q) < unat cap then mpmc_contents cap q @ [x] else mpmc_contents cap q)"
    by (auto simp: mpmc_push_def)
next
  fix k and q :: "'a mpmc"
  assume "mpmc_wf cap k q"
  from mpmc_pop_spec [OF this, of moved]
  show "\<exists>q'. mpmc_wf cap k q' \<and>
      (case mpmc_contents cap q of
         [] \<Rightarrow> mpmc_pop cap moved q = Inr (None, q') \<and> mpmc_contents cap q' = []
       | x # xs \<Rightarrow> mpmc_pop cap moved q = Inr (Some x, q') \<and> mpmc_contents cap q' = xs)"
    by (auto simp: mpmc_pop_def split: list.splits)
qed

lemma mpmc_new_wf:
  assumes "capacity_ok cap" and "unat cap + k < 2 ^ 63"
  shows "mpmc_wf cap k (mpmc_new cap initial) \<and> mpmc_contents cap (mpmc_new cap initial) = []"
  using mpmc_wfI [OF mpmc_start_inv [OF assms(1), of initial], of k] assms(2)
  by (simp add: mpmc_start_def mpmc_contents_def mpmc_new_def)



text \<open>Draining the queue after pushing \<open>xs\<close> gives the first \<open>Capacity\<close> elements of \<open>xs\<close>, in order.\<close>

lemma mpmc_fill_and_drain:
  assumes "capacity_ok cap" and "unat cap + length xs < 2 ^ 63"
  shows "\<exists>q. rbind (mpmc.push_all cap xs (mpmc_new cap initial)) (mpmc.drain cap moved (unat cap)) =
      Inr (take (unat cap) xs, q) \<and> mpmc_contents cap q = []"
  using mpmc_new_wf [OF assms, of initial] by (intro mpmc.fill_and_drain) simp_all

text \<open>
  The differences of positions must not overflow. When the queue is full and \<open>2^63\<close> elements have
  been pushed, the next \<open>push\<close> subtracts the smallest value of \<open>ptrdiff_t\<close> from a positive one.
\<close>

theorem mpmc_push_overflow:
  assumes "capacity_ok cap" and "length (mq_slots q) = unat cap"
    and "sl_sequence (mq_slots q ! 0) = 2 ^ 63 - cap + 1"
  shows "push_step cap v spurious (Push_seq (2 ^ 63)) q = Inl Undefined_behaviour"
proof -
  have n: "2 \<le> unat cap" "unat cap \<le> 2 ^ 63" by (rule capacity_bounds [OF assms(1)])+
  obtain c where "c < 64" "unat cap = 2 ^ c" using capacity_power [OF assms(1)] by metis
  then have "unat cap dvd 2 ^ 63" by (simp only:) (rule le_imp_power_dvd, simp)
  then have index: "slot_index cap (2 ^ 63) = 0" by (simp add: slot_index_mod [OF assms(1)])
  let ?s = "2 ^ 63 - cap + 1"
  have "unat (2 ^ 63 - cap) = 2 ^ 63 - unat cap" using n(2) by (subst unat_sub_64) simp_all
  then have "unat ?s = 2 ^ 63 - unat cap + 1" by (subst unat_add_64) simp_all
  then have u: "unat ?s < 2 ^ 63" "0 < unat ?s" using n by linarith+
  have "sint ?s = int (unat ?s)" by (rule sint_small [OF u(1)])
  moreover have "sint (2 ^ 63 :: size_t) = - (2 ^ 63)" by simp
  ultimately have "\<not> sint ?s - sint (2 ^ 63 :: size_t) < 2 ^ 63" using u(2) by linarith
  then have "pos_diff ?s (2 ^ 63) = Inl Undefined_behaviour" unfolding pos_diff_def Let_def by (simp only: if_False simp_thms)
  moreover have "slot_at 0 q = Inr (mq_slots q ! 0)" using assms(2) n(1) by (simp add: slot_at_def)
  ultimately show ?thesis by (simp only: push_step.simps index assms(3) rbind_simps)
qed

theorem mpmc_push_overflow_witness:
  "push_step 2 () False (Push_seq (2 ^ 63))
     \<lparr>mq_enqueue_pos = 2 ^ 63, mq_dequeue_pos = 2 ^ 63 - 2,
      mq_slots = [\<lparr>sl_sequence = 2 ^ 63 - 1, sl_data = ()\<rparr>, \<lparr>sl_sequence = 2 ^ 63, sl_data = ()\<rparr>]\<rparr> = Inl Undefined_behaviour"
  by (rule mpmc_push_overflow) (simp_all add: capacity_ok_def)

end
