(* ===== verification/Thread_Pool.thy ===== *)
theory Thread_Pool
  imports Mpmc_Queue "HOL-Library.Multiset"
begin

text \<open>
  \<open>ThreadPool\<close> of \<open>include/tinycoro/thread_pool.h\<close> and \<open>src/thread_pool.cpp\<close>: the worker threads, the
  threads that submit tasks and the thread that owns the pool take steps in any order. The queue is the
  one of \<open>Mpmc_Queue\<close>, with its steps.
\<close>

section \<open>Threads\<close>

text \<open>
  Where a worker is in \<open>worker_loop\<close>, a caller in \<open>submit\<close>, and the owner in the constructor or in
  \<open>shutdown\<close>. A task is a value of type \<open>'a\<close>, an exception one of type \<open>'e\<close>.
\<close>

datatype ('a, 'e) worker =
    W_absent
  | W_acquire
  | W_pop
  | W_run 'a
  | W_catch 'e
  | W_check
  | W_exited

datatype 'a client =
    C_idle
  | C_lock 'a
  | C_check 'a
  | C_push 'a
  | C_release 'a
  | C_return 'a bool

datatype owner =
    O_start nat
  | O_fail_stop nat
  | O_fail_release
  | O_unwind
  | O_failed
  | O_ready
  | O_lock
  | O_exchange
  | O_stop nat
  | O_release
  | O_unlock
  | O_join nat
  | O_clear
  | O_down

datatype lock_holder = Owner | Client nat

text \<open>
  \<open>tp_queue\<close> holds \<open>queue_\<close> and what each thread is doing with it. A worker and the calls of \<open>submit\<close> that its
  task makes are one thread, under the number of the worker. \<open>tp_accepted\<close>, \<open>tp_finished\<close> and
  \<open>tp_taken\<close> record the tasks that \<open>submit\<close> has accepted, the tasks that have run with the exception
  they ended with, and the exceptions that \<open>take_errors\<close> has returned.
\<close>

record ('a, 'e) pool =
  tp_queue :: "'a mpmc_run"
  tp_workers :: "nat \<Rightarrow> ('a, 'e) worker"
  tp_stops :: "nat \<Rightarrow> bool"
  tp_started :: nat
  tp_available :: nat
  tp_alive :: bool
  tp_accepting :: bool
  tp_lifecycle :: "lock_holder option"
  tp_errors :: "'e list"
  tp_owner :: owner
  tp_clients :: "nat \<Rightarrow> 'a client"
  tp_accepted :: "'a list"
  tp_finished :: "('a \<times> 'e option) list"
  tp_taken :: "'e list"

definition kQueueSize :: size_t where
  "kQueueSize = 4096"

definition set_worker :: "nat \<Rightarrow> ('a, 'e) worker \<Rightarrow> ('a, 'e) pool \<Rightarrow> ('a, 'e) pool" where
  "set_worker w x s = s\<lparr>tp_workers := (tp_workers s)(w := x)\<rparr>"

definition set_client :: "nat \<Rightarrow> 'a client \<Rightarrow> ('a, 'e) pool \<Rightarrow> ('a, 'e) pool" where
  "set_client t x s = s\<lparr>tp_clients := (tp_clients s)(t := x)\<rparr>"

definition queue_call :: "nat \<Rightarrow> 'a thread \<Rightarrow> ('a, 'e) pool \<Rightarrow> ('a, 'e) pool" where
  "queue_call t th s = s\<lparr>tp_queue := (tp_queue s)\<lparr>mr_threads := (mr_threads (tp_queue s))(t := th)\<rparr>\<rparr>"

section \<open>Operations\<close>

text \<open>
  \<open>None\<close>: the thread is blocked, or not in a call. Using the semaphore after its destruction is
  undefined. The critical sections of \<open>errors_mutex_\<close> are single steps.
\<close>

definition worker_step :: "('a \<Rightarrow> 'a) \<Rightarrow> bool \<Rightarrow> 'e option \<Rightarrow> nat \<Rightarrow> ('a, 'e) pool \<Rightarrow> ('a, 'e) pool result option" where
  "worker_step moved spurious outcome w s =
     (case tp_workers s w of
        W_absent \<Rightarrow> None
      | W_acquire \<Rightarrow>
          (if \<not> tp_alive s then Some (Inl Undefined_behaviour)
           else if tp_available s = 0 then None
           else Some (Inr ((set_worker w W_pop (queue_call w (T_pop Pop_load) s))\<lparr>tp_available := tp_available s - 1\<rparr>)))
      | W_pop \<Rightarrow>
          (case mr_threads (tp_queue s) w of
             T_pop st \<Rightarrow>
               Some (rbind (pop_step kQueueSize moved spurious st (mr_queue (tp_queue s))) (\<lambda>(out, q).
                 Inr (set_worker w (case out of Inl _ \<Rightarrow> W_pop | Inr None \<Rightarrow> W_check | Inr (Some task) \<Rightarrow> W_run task)
                   (s\<lparr>tp_queue := after_pop w st out q (tp_queue s)\<rparr>))))
           | _ \<Rightarrow> None)
      | W_run task \<Rightarrow>
          (if tp_clients s w = C_idle
           then Some (Inr ((set_worker w (case outcome of None \<Rightarrow> W_acquire | Some e \<Rightarrow> W_catch e) s)
             \<lparr>tp_finished := tp_finished s @ [(task, outcome)]\<rparr>))
           else None)
      | W_catch e \<Rightarrow> Some (Inr ((set_worker w W_acquire s)\<lparr>tp_errors := tp_errors s @ [e]\<rparr>))
      | W_check \<Rightarrow> Some (Inr (set_worker w (if tp_stops s w then W_exited else W_acquire) s))
      | W_exited \<Rightarrow> None)"

text \<open>\<open>submit\<close>; an empty task is refused at once.\<close>

definition in_use :: "owner \<Rightarrow> bool" where
  "in_use ow = (case ow of
     O_start _ \<Rightarrow> False | O_fail_stop _ \<Rightarrow> False | O_fail_release \<Rightarrow> False | O_unwind \<Rightarrow> False | O_failed \<Rightarrow> False | _ \<Rightarrow> True)"

definition submit_call :: "nat \<Rightarrow> 'a option \<Rightarrow> ('a, 'e) pool \<Rightarrow> ('a, 'e) pool option" where
  "submit_call t task s =
     (if in_use (tp_owner s) \<and> tp_clients s t = C_idle \<and>
         (case tp_workers s t of W_absent \<Rightarrow> True | W_run _ \<Rightarrow> True | _ \<Rightarrow> False)
      then Some (case task of None \<Rightarrow> s | Some v \<Rightarrow> set_client t (C_lock v) s)
      else None)"

definition client_step :: "bool \<Rightarrow> nat \<Rightarrow> ('a, 'e) pool \<Rightarrow> ('a, 'e) pool result option" where
  "client_step spurious t s =
     (case tp_clients s t of
        C_idle \<Rightarrow> None
      | C_lock v \<Rightarrow>
          (if tp_lifecycle s = None then Some (Inr (set_client t (C_check v) (s\<lparr>tp_lifecycle := Some (Client t)\<rparr>))) else None)
      | C_check v \<Rightarrow>
          Some (Inr (if tp_accepting s then queue_call t (T_push v Push_load) (set_client t (C_push v) s)
                     else set_client t (C_return v False) s))
      | C_push v \<Rightarrow>
          (case mr_threads (tp_queue s) t of
             T_push _ st \<Rightarrow>
               Some (rbind (push_step kQueueSize v spurious st (mr_queue (tp_queue s))) (\<lambda>(out, q).
                 Inr (set_client t (case out of Inl _ \<Rightarrow> C_push v | Inr ok \<Rightarrow> if ok then C_release v else C_return v False)
                   (s\<lparr>tp_queue := after_push t v out q (tp_queue s)\<rparr>))))
           | _ \<Rightarrow> None)
      | C_release v \<Rightarrow>
          Some (if tp_alive s
                then Inr (set_client t (C_return v True)
                       (s\<lparr>tp_available := tp_available s + 1, tp_accepted := tp_accepted s @ [v]\<rparr>))
                else Inl Undefined_behaviour)
      | C_return v ok \<Rightarrow> Some (Inr (set_client t C_idle (s\<lparr>tp_lifecycle := None\<rparr>))))"

text \<open>
  The constructor with \<open>n\<close> workers, of which starting one may fail, and \<open>shutdown\<close>. When the constructor
  throws, the members are destroyed in the reverse order of their declaration: \<open>available_\<close> first, then
  \<open>workers_\<close>, whose destructor waits for the threads.
\<close>

definition constructor_step :: "nat \<Rightarrow> bool \<Rightarrow> ('a, 'e) pool \<Rightarrow> ('a, 'e) pool option" where
  "constructor_step n started s =
     (case tp_owner s of
        O_start k \<Rightarrow>
          Some (if k < n
                then if started then set_worker k W_acquire (s\<lparr>tp_started := Suc k, tp_owner := O_start (Suc k)\<rparr>)
                     else s\<lparr>tp_accepting := False, tp_owner := O_fail_stop 0\<rparr>
                else s\<lparr>tp_owner := O_ready\<rparr>)
      | O_fail_stop k \<Rightarrow>
          Some (if k < tp_started s then s\<lparr>tp_stops := (tp_stops s)(k := True), tp_owner := O_fail_stop (Suc k)\<rparr>
                else s\<lparr>tp_owner := O_fail_release\<rparr>)
      | O_fail_release \<Rightarrow> Some (s\<lparr>tp_available := tp_available s + tp_started s, tp_owner := O_unwind\<rparr>)
      | O_unwind \<Rightarrow> Some (s\<lparr>tp_alive := False, tp_owner := O_failed\<rparr>)
      | _ \<Rightarrow> None)"

definition shutdown_step :: "('a, 'e) pool \<Rightarrow> ('a, 'e) pool option" where
  "shutdown_step s =
     (case tp_owner s of
        O_lock \<Rightarrow>
          (if tp_lifecycle s = None then Some (s\<lparr>tp_lifecycle := Some Owner, tp_owner := O_exchange\<rparr>) else None)
      | O_exchange \<Rightarrow> Some (s\<lparr>tp_accepting := False, tp_owner := (if tp_accepting s then O_stop 0 else O_unlock)\<rparr>)
      | O_stop k \<Rightarrow>
          Some (if k < tp_started s then s\<lparr>tp_stops := (tp_stops s)(k := True), tp_owner := O_stop (Suc k)\<rparr>
                else s\<lparr>tp_owner := O_release\<rparr>)
      | O_release \<Rightarrow> Some (s\<lparr>tp_available := tp_available s + tp_started s, tp_owner := O_unlock\<rparr>)
      | O_unlock \<Rightarrow> Some (s\<lparr>tp_lifecycle := None, tp_owner := O_join 0\<rparr>)
      | O_join k \<Rightarrow>
          (if k < tp_started s
           then if tp_workers s k = W_exited then Some (s\<lparr>tp_owner := O_join (Suc k)\<rparr>) else None
           else Some (s\<lparr>tp_owner := O_clear\<rparr>))
      | O_clear \<Rightarrow> Some (s\<lparr>tp_started := 0, tp_owner := O_down\<rparr>)
      | _ \<Rightarrow> None)"

definition owner_step :: "nat \<Rightarrow> bool \<Rightarrow> ('a, 'e) pool \<Rightarrow> ('a, 'e) pool option" where
  "owner_step n started s = (if in_use (tp_owner s) then shutdown_step s else constructor_step n started s)"

definition shutdown_call :: "('a, 'e) pool \<Rightarrow> ('a, 'e) pool option" where
  "shutdown_call s = (if tp_owner s = O_ready \<or> tp_owner s = O_down then Some (s\<lparr>tp_owner := O_lock\<rparr>) else None)"

definition take_errors :: "('a, 'e) pool \<Rightarrow> 'e list \<times> ('a, 'e) pool" where
  "take_errors s = (tp_errors s, s\<lparr>tp_errors := [], tp_taken := tp_taken s @ tp_errors s\<rparr>)"

definition thread_count :: "('a, 'e) pool \<Rightarrow> nat" where
  "thread_count s = tp_started s"

definition ThreadPool :: "nat \<Rightarrow> 'a \<Rightarrow> ('a, 'e) pool result" where
  "ThreadPool n empty_task =
     (if n = 0 then Inl (Invalid_argument ''ThreadPool requires workers'')
      else Inr \<lparr>tp_queue = mpmc_start kQueueSize empty_task, tp_workers = (\<lambda>_. W_absent), tp_stops = (\<lambda>_. False),
        tp_started = 0, tp_available = 0, tp_alive = True, tp_accepting = True, tp_lifecycle = None, tp_errors = [],
        tp_owner = O_start 0, tp_clients = (\<lambda>_. C_idle), tp_accepted = [], tp_finished = [], tp_taken = []\<rparr>)"

text \<open>All interleavings. The owner calls \<open>shutdown\<close>, the destructor included, one call after the other.\<close>

inductive pool_step :: "nat \<Rightarrow> ('a \<Rightarrow> 'a) \<Rightarrow> ('a, 'e) pool \<Rightarrow> ('a, 'e) pool \<Rightarrow> bool" for n moved where
  worker: "worker_step moved spurious outcome w s = Some (Inr s') \<Longrightarrow> pool_step n moved s s'"
| submit: "submit_call t task s = Some s' \<Longrightarrow> pool_step n moved s s'"
| client: "client_step spurious t s = Some (Inr s') \<Longrightarrow> pool_step n moved s s'"
| owner: "owner_step n started s = Some s' \<Longrightarrow> pool_step n moved s s'"
| shutdown: "shutdown_call s = Some s' \<Longrightarrow> pool_step n moved s s'"
| take_errors: "take_errors s = (es, s') \<Longrightarrow> pool_step n moved s s'"

inductive pool_reachable :: "nat \<Rightarrow> ('a \<Rightarrow> 'a) \<Rightarrow> 'a \<Rightarrow> ('a, 'e) pool \<Rightarrow> bool" for n moved empty_task where
  start: "ThreadPool n empty_task = Inr s \<Longrightarrow> pool_reachable n moved empty_task s"
| step: "pool_reachable n moved empty_task s \<Longrightarrow> pool_step n moved s s' \<Longrightarrow> pool_reachable n moved empty_task s'"

lemma owner_step_eq:
  "owner_step n started s =
     (case tp_owner s of
        O_start k \<Rightarrow>
          Some (if k < n
                then if started then set_worker k W_acquire (s\<lparr>tp_started := Suc k, tp_owner := O_start (Suc k)\<rparr>)
                     else s\<lparr>tp_accepting := False, tp_owner := O_fail_stop 0\<rparr>
                else s\<lparr>tp_owner := O_ready\<rparr>)
      | O_fail_stop k \<Rightarrow>
          Some (if k < tp_started s then s\<lparr>tp_stops := (tp_stops s)(k := True), tp_owner := O_fail_stop (Suc k)\<rparr>
                else s\<lparr>tp_owner := O_fail_release\<rparr>)
      | O_fail_release \<Rightarrow> Some (s\<lparr>tp_available := tp_available s + tp_started s, tp_owner := O_unwind\<rparr>)
      | O_unwind \<Rightarrow> Some (s\<lparr>tp_alive := False, tp_owner := O_failed\<rparr>)
      | O_failed \<Rightarrow> None
      | O_ready \<Rightarrow> None
      | O_lock \<Rightarrow>
          (if tp_lifecycle s = None then Some (s\<lparr>tp_lifecycle := Some Owner, tp_owner := O_exchange\<rparr>) else None)
      | O_exchange \<Rightarrow> Some (s\<lparr>tp_accepting := False, tp_owner := (if tp_accepting s then O_stop 0 else O_unlock)\<rparr>)
      | O_stop k \<Rightarrow>
          Some (if k < tp_started s then s\<lparr>tp_stops := (tp_stops s)(k := True), tp_owner := O_stop (Suc k)\<rparr>
                else s\<lparr>tp_owner := O_release\<rparr>)
      | O_release \<Rightarrow> Some (s\<lparr>tp_available := tp_available s + tp_started s, tp_owner := O_unlock\<rparr>)
      | O_unlock \<Rightarrow> Some (s\<lparr>tp_lifecycle := None, tp_owner := O_join 0\<rparr>)
      | O_join k \<Rightarrow>
          (if k < tp_started s
           then if tp_workers s k = W_exited then Some (s\<lparr>tp_owner := O_join (Suc k)\<rparr>) else None
           else Some (s\<lparr>tp_owner := O_clear\<rparr>))
      | O_clear \<Rightarrow> Some (s\<lparr>tp_started := 0, tp_owner := O_down\<rparr>)
      | O_down \<Rightarrow> None)"
  by (simp add: owner_step_def in_use_def shutdown_step_def constructor_step_def split: owner.split)

section \<open>The invariant\<close>

text \<open>
  The constructor does not fail. \<open>released\<close>: \<open>shutdown\<close> has released the workers. Each worker that has
  acquired the semaphore and not yet claimed a task, and each that has left, stands for a token.
\<close>

definition failing :: "owner \<Rightarrow> bool" where
  "failing ow = (case ow of O_fail_stop _ \<Rightarrow> True | O_fail_release \<Rightarrow> True | O_unwind \<Rightarrow> True | O_failed \<Rightarrow> True | _ \<Rightarrow> False)"

definition released :: "('a, 'e) pool \<Rightarrow> bool" where
  "released s = (\<not> tp_accepting s \<and> (case tp_owner s of O_stop _ \<Rightarrow> False | O_release \<Rightarrow> False | _ \<Rightarrow> True))"

fun unclaimed :: "'a pop_state \<Rightarrow> bool" where
  "unclaimed (Pop_read _) = False"
| "unclaimed (Pop_publish _ _) = False"
| "unclaimed _ = True"

fun token :: "('a, 'e) worker \<Rightarrow> 'a thread \<Rightarrow> nat" where
  "token W_pop (T_pop st) = (if unclaimed st then 1 else 0)"
| "token W_pop _ = 1"
| "token W_check _ = 1"
| "token W_exited _ = 1"
| "token _ _ = 0"

fun running :: "('a, 'e) worker \<Rightarrow> 'a multiset" where
  "running (W_run v) = {#v#}"
| "running _ = {#}"

fun caught :: "('a, 'e) worker \<Rightarrow> 'e multiset" where
  "caught (W_catch e) = {#e#}"
| "caught _ = {#}"

fun has_claimed :: "'a thread \<Rightarrow> bool" where
  "has_claimed (T_push v (Push_write _)) = True"
| "has_claimed (T_push v (Push_publish _)) = True"
| "has_claimed _ = False"

fun pending_of :: "'a client \<Rightarrow> 'a thread \<Rightarrow> 'a list" where
  "pending_of (C_push v) th = (if has_claimed th then [v] else [])"
| "pending_of (C_release v) th = [v]"
| "pending_of _ th = []"

definition pending :: "('a, 'e) pool \<Rightarrow> 'a list" where
  "pending s = (case tp_lifecycle s of
     Some (Client t) \<Rightarrow> pending_of (tp_clients s t) (mr_threads (tp_queue s) t) | _ \<Rightarrow> [])"

fun in_submit :: "'a client \<Rightarrow> bool" where
  "in_submit C_idle = False"
| "in_submit (C_lock v) = False"
| "in_submit _ = True"

fun in_shutdown :: "owner \<Rightarrow> bool" where
  "in_shutdown O_exchange = True"
| "in_shutdown (O_stop k) = True"
| "in_shutdown O_release = True"
| "in_shutdown O_unlock = True"
| "in_shutdown _ = False"

definition call_ok :: "('a, 'e) worker \<Rightarrow> 'a client \<Rightarrow> 'a thread \<Rightarrow> bool" where
  "call_ok w c th =
     ((case c of C_idle \<Rightarrow> True | _ \<Rightarrow> (case w of W_absent \<Rightarrow> True | W_run _ \<Rightarrow> True | _ \<Rightarrow> False)) \<and>
      (case th of
         T_idle \<Rightarrow> (case c of C_push _ \<Rightarrow> False | _ \<Rightarrow> w \<noteq> W_pop)
       | T_push v _ \<Rightarrow> c = C_push v
       | T_pop _ \<Rightarrow> w = W_pop))"

definition lock_ok :: "('a, 'e) pool \<Rightarrow> bool" where
  "lock_ok s \<longleftrightarrow>
     (\<forall>t. in_submit (tp_clients s t) \<longleftrightarrow> tp_lifecycle s = Some (Client t)) \<and>
     (in_shutdown (tp_owner s) \<longleftrightarrow> tp_lifecycle s = Some Owner) \<and>
     (\<forall>t v. tp_clients s t = C_push v \<or> tp_clients s t = C_release v \<longrightarrow> tp_accepting s)"

text \<open>What the phases of the owner say about \<open>n\<close> workers.\<close>

definition all_exited :: "nat \<Rightarrow> ('a, 'e) pool \<Rightarrow> bool" where
  "all_exited n s \<longleftrightarrow> (\<forall>w < n. tp_workers s w = W_exited)"

definition phase_ok :: "nat \<Rightarrow> ('a, 'e) pool \<Rightarrow> bool" where
  "phase_ok n s \<longleftrightarrow>
     (\<forall>w \<ge> n. tp_workers s w = W_absent) \<and>
     (case tp_owner s of
        O_start k \<Rightarrow> k \<le> n \<and> tp_started s = k \<and> tp_accepting s \<and> (\<forall>t. tp_clients s t = C_idle) \<and>
          (\<forall>w < n. tp_workers s w \<noteq> W_absent \<longleftrightarrow> w < k)
      | _ \<Rightarrow> (\<forall>w < n. tp_workers s w \<noteq> W_absent) \<and>
          (tp_started s = n \<or> tp_started s = 0 \<and> \<not> tp_accepting s \<and> all_exited n s)) \<and>
     (case tp_owner s of
        O_ready \<Rightarrow> tp_accepting s
      | O_stop k \<Rightarrow> \<not> tp_accepting s \<and> tp_started s = n \<and> (\<forall>w < min k n. tp_stops s w)
      | O_release \<Rightarrow> \<not> tp_accepting s \<and> tp_started s = n \<and> (\<forall>w < n. tp_stops s w)
      | O_unlock \<Rightarrow> \<not> tp_accepting s
      | O_join k \<Rightarrow> \<not> tp_accepting s \<and> (\<forall>w < min k n. tp_workers s w = W_exited)
      | O_clear \<Rightarrow> \<not> tp_accepting s \<and> all_exited n s
      | O_down \<Rightarrow> \<not> tp_accepting s \<and> all_exited n s \<and> tp_started s = 0
      | _ \<Rightarrow> True) \<and>
     (released s \<longrightarrow> (\<forall>w < n. tp_stops s w))"

abbreviation claimed_by_pop :: "('a, 'e) pool \<Rightarrow> nat" where
  "claimed_by_pop s \<equiv> unat (mq_dequeue_pos (mr_queue (tp_queue s)))"

definition workers_ok :: "nat \<Rightarrow> ('a, 'e) pool \<Rightarrow> bool" where
  "workers_ok n s \<longleftrightarrow>
     (\<forall>w < n. tp_workers s w = W_check \<or> tp_workers s w = W_exited \<longrightarrow>
        released s \<and> claimed_by_pop s = length (tp_accepted s))"

definition tokens_ok :: "nat \<Rightarrow> ('a, 'e) pool \<Rightarrow> bool" where
  "tokens_ok n s \<longleftrightarrow>
     tp_available s + (\<Sum>w < n. token (tp_workers s w) (mr_threads (tp_queue s) w)) + claimed_by_pop s =
     length (tp_accepted s) + (if released s then n else 0)"

definition accepted_ok :: "('a, 'e) pool \<Rightarrow> bool" where
  "accepted_ok s \<longleftrightarrow>
     mr_claimed (tp_queue s) = tp_accepted s @ pending s \<and>
     (\<forall>t p. pushing (mr_threads (tp_queue s) t) p \<longrightarrow> p = length (tp_accepted s))"

definition history_ok :: "nat \<Rightarrow> ('a, 'e) pool \<Rightarrow> bool" where
  "history_ok n s \<longleftrightarrow>
     mset (map snd (mr_popped (tp_queue s))) =
       mset (map fst (tp_finished s)) + (\<Sum>w < n. running (tp_workers s w)) \<and>
     mset (List.map_filter snd (tp_finished s)) =
       mset (tp_errors s) + mset (tp_taken s) + (\<Sum>w < n. caught (tp_workers s w))"

definition pool_inv :: "nat \<Rightarrow> ('a, 'e) pool \<Rightarrow> bool" where
  "pool_inv n s \<longleftrightarrow>
     mpmc_inv kQueueSize (tp_queue s) \<and> tp_alive s \<and>
     (\<forall>t. call_ok (tp_workers s t) (tp_clients s t) (mr_threads (tp_queue s) t)) \<and>
     lock_ok s \<and> phase_ok n s \<and> workers_ok n s \<and> tokens_ok n s \<and> accepted_ok s \<and> history_ok n s"

lemma pool_invI:
  assumes "mpmc_inv kQueueSize (tp_queue s)" and "tp_alive s"
    and "\<And>t. call_ok (tp_workers s t) (tp_clients s t) (mr_threads (tp_queue s) t)"
    and "lock_ok s" and "phase_ok n s" and "workers_ok n s" and "tokens_ok n s" and "accepted_ok s" and "history_ok n s"
  shows "pool_inv n s"
  using assms by (simp add: pool_inv_def)

lemma pool_invD:
  assumes "pool_inv n s"
  shows "mpmc_inv kQueueSize (tp_queue s)" and "tp_alive s"
    and "call_ok (tp_workers s t) (tp_clients s t) (mr_threads (tp_queue s) t)"
    and "lock_ok s" and "phase_ok n s" and "workers_ok n s" and "tokens_ok n s" and "accepted_ok s" and "history_ok n s"
  using assms by (simp_all add: pool_inv_def)

text \<open>A sum over the workers after one of them has moved.\<close>

lemma sum_change:
  fixes f f' :: "nat \<Rightarrow> 'b :: comm_monoid_add"
  assumes "w < n" and "\<And>i. i \<noteq> w \<Longrightarrow> f' i = f i"
  shows "(\<Sum>i < n. f' i) + f w = (\<Sum>i < n. f i) + f' w"
proof -
  have w: "w \<in> {..<n}" using assms(1) by simp
  have "(\<Sum>i \<in> {..<n} - {w}. f' i) = (\<Sum>i \<in> {..<n} - {w}. f i)" by (rule sum.cong) (use assms(2) in auto)
  then show ?thesis using sum.remove [OF _ w, of f] sum.remove [OF _ w, of f'] by (simp add: ac_simps)
qed

lemma worker_small: "pool_inv n s \<Longrightarrow> tp_workers s w \<noteq> W_absent \<Longrightarrow> w < n"
  using pool_invD(5) [of n s] by (force simp: phase_ok_def not_less [symmetric])

text \<open>Nothing is on its way into the queue once the pool has stopped accepting.\<close>

lemma pending_of_none: "(\<And>v. c \<noteq> C_push v) \<Longrightarrow> (\<And>v. c \<noteq> C_release v) \<Longrightarrow> pending_of c th = []"
  by (cases c) auto

lemma pending_none: "lock_ok s \<Longrightarrow> \<not> tp_accepting s \<Longrightarrow> pending s = []"
  unfolding pending_def lock_ok_def by (auto split: option.split lock_holder.split intro: pending_of_none)

lemma claimed_all: "pool_inv n s \<Longrightarrow> \<not> tp_accepting s \<Longrightarrow> mr_claimed (tp_queue s) = tp_accepted s"
  using pending_none [of s] by (simp add: pool_inv_def accepted_ok_def)

lemma mset_balance:
  fixes P P' F F' R R' x y :: "'b multiset"
  assumes "P = F + R" and "R' + x = R + y" and "P' + F + x = P + F' + y"
  shows "P' = F' + R'"
proof -
  have "P' + (F + x) = F + R + F' + y" using assms(1,3) by (simp add: ac_simps)
  also have "\<dots> = F' + F + (R + y)" by (simp add: ac_simps)
  also have "\<dots> = F' + R' + (F + x)" unfolding assms(2) [symmetric] by (simp add: ac_simps)
  finally show ?thesis by simp
qed

lemma phase_keep:
  assumes ph: "phase_ok n s"
    and same: "tp_owner s' = tp_owner s" "tp_accepting s' = tp_accepting s" "tp_started s' = tp_started s" "tp_stops s' = tp_stops s"
    and cl: "tp_clients s' = tp_clients s \<or> in_use (tp_owner s)"
    and ab: "\<And>i. tp_workers s' i = W_absent \<longleftrightarrow> tp_workers s i = W_absent"
    and ex: "\<And>i. tp_workers s i = W_exited \<Longrightarrow> tp_workers s' i = W_exited"
  shows "phase_ok n s'"
proof -
  have rel: "released s' = released s" by (simp add: released_def same)
  have all: "all_exited n s \<Longrightarrow> all_exited n s'" by (simp add: all_exited_def ex)
  note d = phase_ok_def rel same ab
  show ?thesis
  proof (cases "tp_owner s")
    case (O_start k)
    then show ?thesis using ph cl by (simp add: d in_use_def)
  next
    case (O_join k)
    then show ?thesis using ph all ex by (simp add: d) (elim conjE disjE; simp)
  next
    case O_down
    then show ?thesis using ph all by (simp only: d owner.case simp_thms) blast
  qed (insert ph, (simp add: d; elim conjE disjE; simp add: all)+)
qed

text \<open>
  One worker moves: the other threads, the submitters and the owner stay as they are.
\<close>

lemma worker_moves:
  assumes inv: "pool_inv n s" and w: "tp_workers s w \<noteq> W_absent" "tp_workers s w \<noteq> W_exited" "x \<noteq> W_absent" "tp_clients s w = C_idle"
    and r: "mpmc_inv kQueueSize r" "mr_threads r = (mr_threads (tp_queue s))(w := th)" "mr_claimed r = mr_claimed (tp_queue s)"
    and th: "call_ok x C_idle th"
    and tok: "a + token x th + unat (mq_dequeue_pos (mr_queue r)) =
      tp_available s + token (tp_workers s w) (mr_threads (tp_queue s) w) + claimed_by_pop s"
    and ok: "x = W_check \<or> x = W_exited \<Longrightarrow> released s \<and> unat (mq_dequeue_pos (mr_queue r)) = length (tp_accepted s)"
    and deq: "unat (mq_dequeue_pos (mr_queue r)) = claimed_by_pop s \<or> claimed_by_pop s < unat (mq_dequeue_pos (mr_queue r))"
    and hist: "mset (map snd (mr_popped r)) + mset (map fst (tp_finished s)) + running (tp_workers s w) =
        mset (map snd (mr_popped (tp_queue s))) + mset (map fst fs) + running x"
      "mset (List.map_filter snd fs) + mset (tp_errors s) + caught (tp_workers s w) =
        mset (List.map_filter snd (tp_finished s)) + mset es + caught x"
  shows "pool_inv n (s\<lparr>tp_queue := r, tp_workers := (tp_workers s)(w := x), tp_available := a, tp_errors := es, tp_finished := fs\<rparr>)"
    (is "pool_inv n ?s")
proof (rule pool_invI)
  note I = pool_invD [OF inv]
  have wn: "w < n" by (rule worker_small [OF inv w(1)])
  have rel: "released ?s = released s" by (simp add: released_def)
  have push: "\<not> pushing (mr_threads (tp_queue s) w) p" "\<not> pushing th p" for p
    using I(3) [of w] th w(4) by (cases "mr_threads (tp_queue s) w"; cases th; simp add: call_ok_def)+
  have pend: "pending ?s = pending s"
    using w(4) r(2) by (auto simp: pending_def split: option.split lock_holder.split)
  show "mpmc_inv kQueueSize (tp_queue ?s)" "tp_alive ?s" using I(2) r(1) by simp_all
  show "call_ok (tp_workers ?s t) (tp_clients ?s t) (mr_threads (tp_queue ?s) t)" for t
    using I(3) [of t] th w(4) r(2) by simp
  show "lock_ok ?s" using I(4) by (simp add: lock_ok_def)
  show "phase_ok n ?s"
    by (rule phase_keep [OF I(5)]) (use w in auto)
  show "accepted_ok ?s" using I(8) push by (simp add: accepted_ok_def pend r)
  show "tokens_ok n ?s"
    using I(7) tok sum_change [OF wn, of "\<lambda>i. token (tp_workers ?s i) (mr_threads r i)" "\<lambda>i. token (tp_workers s i) (mr_threads (tp_queue s) i)"]
    by (simp add: tokens_ok_def rel r(2))
  show "history_ok n ?s" unfolding history_ok_def
  proof (intro conjI)
    have P: "mset (map snd (mr_popped (tp_queue s))) = mset (map fst (tp_finished s)) + (\<Sum>i < n. running (tp_workers s i))"
      "mset (List.map_filter snd (tp_finished s)) = mset (tp_errors s) + mset (tp_taken s) + (\<Sum>i < n. caught (tp_workers s i))"
      using I(9) by (simp_all add: history_ok_def)
    show "mset (map snd (mr_popped (tp_queue ?s))) = mset (map fst (tp_finished ?s)) + (\<Sum>i < n. running (tp_workers ?s i))"
      by (rule mset_balance [OF P(1) sum_change [OF wn]]) (use hist(1) in simp_all)
    show "mset (List.map_filter snd (tp_finished ?s)) = mset (tp_errors ?s) + mset (tp_taken ?s) + (\<Sum>i < n. caught (tp_workers ?s i))"
      by (rule mset_balance [OF P(2) sum_change [OF wn]]) (use hist(2) in \<open>simp_all add: ac_simps\<close>)
  qed
  have "unat (mq_dequeue_pos (mr_queue r)) = length (tp_accepted s)"
    if "released s" "claimed_by_pop s = length (tp_accepted s)"
    using deq that claimed_all [OF inv] mpmc_invD(4) [OF r(1)] r(3) by (simp add: released_def)
  then show "workers_ok n ?s" using I(6) ok by (simp add: workers_ok_def rel)
qed

lemma worker_moves_same:
  assumes inv: "pool_inv n s" and w: "tp_workers s w \<noteq> W_absent" "tp_workers s w \<noteq> W_exited" "x \<noteq> W_absent" "tp_clients s w = C_idle"
    and th: "mr_threads (tp_queue s) w = T_idle" "x \<noteq> W_pop"
    and tok: "token x T_idle = token (tp_workers s w) T_idle"
    and ok: "x = W_exited \<Longrightarrow> tp_workers s w = W_check" "x \<noteq> W_check"
    and hist: "mset (map fst (tp_finished s)) + running (tp_workers s w) = mset (map fst fs) + running x"
      "mset (List.map_filter snd fs) + mset (tp_errors s) + caught (tp_workers s w) =
        mset (List.map_filter snd (tp_finished s)) + mset es + caught x"
  shows "pool_inv n (s\<lparr>tp_workers := (tp_workers s)(w := x), tp_errors := es, tp_finished := fs\<rparr>)"
proof -
  let ?r = "tp_queue s"
  have "pool_inv n (s\<lparr>tp_queue := ?r, tp_workers := (tp_workers s)(w := x), tp_available := tp_available s, tp_errors := es, tp_finished := fs\<rparr>)"
  proof (rule worker_moves [OF inv w pool_invD(1) [OF inv], where th = T_idle])
    show "mr_threads ?r = (mr_threads ?r)(w := T_idle)" using th(1) by auto
    show "call_ok x C_idle T_idle" using th(2) by (simp add: call_ok_def)
    show "tp_available s + token x T_idle + claimed_by_pop s = tp_available s + token (tp_workers s w) (mr_threads ?r w) + claimed_by_pop s"
      using tok th(1) by simp
    show "released s \<and> claimed_by_pop s = length (tp_accepted s)" if "x = W_check \<or> x = W_exited"
      using that ok pool_invD(6) [OF inv] worker_small [OF inv w(1)] by (auto simp: workers_ok_def)
  qed (use hist in simp_all)
  then show ?thesis by simp
qed

lemma pop_step_cases:
  assumes "pop_step cap moved spurious st q = Inr (out, q')"
  obtains (look) st' where "out = Inl st'" "mq_dequeue_pos q' = mq_dequeue_pos q"
      "unclaimed st' = unclaimed st" "\<And>pos v. st \<noteq> Pop_publish pos v"
  | (claim) pos where "out = Inl (Pop_read pos)" "st = Pop_cas pos" "mq_dequeue_pos q' = mq_dequeue_pos q + 1"
  | (some) pos v where "out = Inr (Some v)" "st = Pop_publish pos v" "mq_dequeue_pos q' = mq_dequeue_pos q"
  | (none) pos where "out = Inr None" "st = Pop_seq pos" "mq_dequeue_pos q' = mq_dequeue_pos q"
  using assms by (cases st) (auto simp: result_simps set_slot_at_def split: if_splits)

text \<open>A worker that holds a token finds a task, unless the pool is shutting down and all tasks have been taken.\<close>

lemma pop_finds_task:
  assumes inv: "pool_inv n s" and b: "pos_bound kQueueSize (tp_queue s)"
    and w: "tp_workers s w = W_pop" "mr_threads (tp_queue s) w = T_pop st"
    and none: "pop_step kQueueSize moved spurious st (mr_queue (tp_queue s)) = Inr (Inr None, q)"
  shows "released s \<and> claimed_by_pop s = length (tp_accepted s)"
proof -
  let ?r = "tp_queue s"
  note I = pool_invD [OF inv]
  have wn: "w < n" using worker_small [OF inv, of w] w(1) by simp
  obtain pos where st: "st = Pop_seq pos"
    using none by (cases st) (auto simp: result_simps split: if_splits)
  have "thread_ok (unat kQueueSize) (claimed_by_pop s) (mr_claimed ?r) (mr_queue ?r) (mr_threads ?r w)"
    using threads_okD(1) [OF mpmc_invD(6) [OF I(1)]] .
  then have pos: "unat pos \<le> claimed_by_pop s" using w(2) st by simp
  have "seq_no (mr_queue ?r) (unat pos mod unat kQueueSize) \<le> unat pos"
    using none unfolding st pop_seq_eq [OF I(1) b pos] by (auto split: if_splits)
  from pop_refused [OF I(1) pos this] consider
    (empty) "length (mr_claimed ?r) = claimed_by_pop s" | (push) t where "pushing (mr_threads ?r t) (claimed_by_pop s)" by blast
  moreover have "token (tp_workers s w) (mr_threads ?r w) \<le> (\<Sum>i < n. token (tp_workers s i) (mr_threads ?r i))"
    by (rule member_le_sum) (use wn in auto)
  then have more: "claimed_by_pop s < length (tp_accepted s) + (if released s then n else 0)"
    using I(7) w st by (simp add: tokens_ok_def)
  ultimately show ?thesis
  proof cases
    case empty
    then have "length (tp_accepted s) \<le> claimed_by_pop s" using I(8) by (simp add: accepted_ok_def)
    with more have "released s" by (auto split: if_splits)
    with empty claimed_all [OF inv] show ?thesis by (simp add: released_def)
  next
    case (push t)
    then have e: "claimed_by_pop s = length (tp_accepted s)" using I(8) by (auto simp: accepted_ok_def)
    with more show ?thesis by (auto split: if_splits)
  qed
qed

lemma worker_pops:
  assumes inv: "pool_inv n s" and b: "pos_bound kQueueSize (tp_queue s)"
    and w: "tp_workers s w = W_pop" "mr_threads (tp_queue s) w = T_pop st"
  shows "\<exists>out q. pop_step kQueueSize moved spurious st (mr_queue (tp_queue s)) = Inr (out, q) \<and>
    pool_inv n (set_worker w (case out of Inl _ \<Rightarrow> W_pop | Inr None \<Rightarrow> W_check | Inr (Some task) \<Rightarrow> W_run task)
      (s\<lparr>tp_queue := after_pop w st out q (tp_queue s)\<rparr>))"
proof -
  let ?r = "tp_queue s"
  note I = pool_invD [OF inv]
  have c: "tp_clients s w = C_idle" using I(3) [of w] w(1) by (auto simp: call_ok_def split: client.splits)
  obtain out q where out: "pop_step kQueueSize moved spurious st (mr_queue ?r) = Inr (out, q)"
    and inv': "mpmc_inv kQueueSize (after_pop w st out q ?r)"
    using pop_step_inv [OF I(1) b w(2), of moved spurious] by blast
  let ?x = "case out of Inl _ \<Rightarrow> W_pop | Inr None \<Rightarrow> W_check | Inr (Some task) \<Rightarrow> W_run task"
  let ?th = "case out of Inl st' \<Rightarrow> T_pop st' | Inr _ \<Rightarrow> T_idle"
  let ?r' = "after_pop w st out q ?r"
  have "claimed_by_pop s < 2 ^ 63" using mpmc_invD(4) [OF I(1)] b by (simp add: pos_bound_def)
  then have succ: "unat (mq_dequeue_pos (mr_queue ?r) + 1) = claimed_by_pop s + 1" by (rule unat_succ)
  have r: "mr_threads ?r' = (mr_threads ?r)(w := ?th)" "mr_claimed ?r' = mr_claimed ?r" "mr_queue ?r' = q"
    by (simp_all add: after_pop_def)
  note go = worker_moves [OF inv, where th = ?th and r = ?r' and w = w and x = ?x and a = "tp_available s"
    and es = "tp_errors s" and fs = "tp_finished s"]
  have "pool_inv n (s\<lparr>tp_queue := ?r', tp_workers := (tp_workers s)(w := ?x), tp_available := tp_available s,
      tp_errors := tp_errors s, tp_finished := tp_finished s\<rparr>)"
    using out
  proof (cases rule: pop_step_cases)
    case (look st')
    then have "mr_popped ?r' = mr_popped ?r" by (simp add: after_pop_def split: pop_state.split)
    with look w c inv' r show ?thesis by (intro go) (simp_all add: call_ok_def)
  next
    case (claim pos)
    then have "mr_popped ?r' = mr_popped ?r" by (simp add: after_pop_def)
    with claim w c inv' r succ show ?thesis by (intro go) (simp_all add: call_ok_def)
  next
    case (some pos v)
    then have "mr_popped ?r' = mr_popped ?r @ [(unat pos, v)]" by (simp add: after_pop_def)
    with some w c inv' r show ?thesis by (intro go) (simp_all add: call_ok_def)
  next
    case (none pos)
    then have "mr_popped ?r' = mr_popped ?r" by (simp add: after_pop_def)
    with none w c inv' r pop_finds_task [OF inv b w, of moved spurious q] out show ?thesis
      by (intro go) (simp_all add: call_ok_def)
  qed
  then show ?thesis using out by (auto simp: set_worker_def)
qed

lemma worker_step_inv:
  assumes inv: "pool_inv n s" and b: "pos_bound kQueueSize (tp_queue s)"
    and st: "worker_step moved spurious outcome w s = Some y"
  shows "\<exists>s'. y = Inr s' \<and> pool_inv n s' \<and> tp_owner s' = tp_owner s"
proof (cases "tp_workers s w")
  case W_acquire
  have c: "tp_clients s w = C_idle" "mr_threads (tp_queue s) w = T_idle"
    using pool_invD(3) [OF inv, of w] W_acquire by (auto simp: call_ok_def split: client.splits thread.splits)
  let ?r = "(tp_queue s)\<lparr>mr_threads := (mr_threads (tp_queue s))(w := T_pop Pop_load)\<rparr>"
  have av: "tp_available s \<noteq> 0" using st W_acquire pool_invD(2) [OF inv] by (auto simp: worker_step_def split: if_splits)
  have "pool_inv n (s\<lparr>tp_queue := ?r, tp_workers := (tp_workers s)(w := W_pop), tp_available := tp_available s - 1,
      tp_errors := tp_errors s, tp_finished := tp_finished s\<rparr>)"
  proof (rule worker_moves [OF inv, where th = "T_pop Pop_load"])
    show "mpmc_inv kQueueSize ?r" by (rule inv_thread [OF pool_invD(1) [OF inv]]) (use c in \<open>simp_all add: fun_eq_iff\<close>)
  qed (use W_acquire c av in \<open>simp_all add: call_ok_def\<close>)
  then show ?thesis using st W_acquire pool_invD(2) [OF inv] av
    by (auto simp: worker_step_def queue_call_def set_worker_def)
next
  case (W_run v)
  then have c: "tp_clients s w = C_idle" using st by (auto simp: worker_step_def split: if_splits)
  then have th: "mr_threads (tp_queue s) w = T_idle"
    using pool_invD(3) [OF inv, of w] W_run by (auto simp: call_ok_def split: thread.splits)
  let ?x = "case outcome of None \<Rightarrow> W_acquire | Some e \<Rightarrow> W_catch e"
  have "pool_inv n (s\<lparr>tp_workers := (tp_workers s)(w := ?x), tp_errors := tp_errors s, tp_finished := tp_finished s @ [(v, outcome)]\<rparr>)"
    by (rule worker_moves_same [OF inv]) (use W_run c th in \<open>auto simp: map_filter_def split: option.splits\<close>)
  then show ?thesis using st W_run c by (auto simp: worker_step_def set_worker_def)
next
  case (W_catch e)
  have c: "tp_clients s w = C_idle" "mr_threads (tp_queue s) w = T_idle"
    using pool_invD(3) [OF inv, of w] W_catch by (auto simp: call_ok_def split: client.splits thread.splits)
  have "pool_inv n (s\<lparr>tp_workers := (tp_workers s)(w := W_acquire), tp_errors := tp_errors s @ [e], tp_finished := tp_finished s\<rparr>)"
    by (rule worker_moves_same [OF inv]) (use W_catch c in auto)
  then show ?thesis using st W_catch by (auto simp: worker_step_def set_worker_def)
next
  case W_check
  have c: "tp_clients s w = C_idle" "mr_threads (tp_queue s) w = T_idle"
    using pool_invD(3) [OF inv, of w] W_check by (auto simp: call_ok_def split: client.splits thread.splits)
  have stop: "tp_stops s w"
    using W_check pool_invD(5,6) [OF inv] worker_small [OF inv, of w] by (simp add: workers_ok_def phase_ok_def)
  have "pool_inv n (s\<lparr>tp_workers := (tp_workers s)(w := W_exited), tp_errors := tp_errors s, tp_finished := tp_finished s\<rparr>)"
    by (rule worker_moves_same [OF inv]) (use W_check c in auto)
  then show ?thesis using st W_check stop by (auto simp: worker_step_def set_worker_def)
next
  case W_pop
  then obtain p where th: "mr_threads (tp_queue s) w = T_pop p"
    using st by (auto simp: worker_step_def split: thread.splits)
  show ?thesis using worker_pops [OF inv b W_pop th, of moved spurious] st W_pop th
    by (auto simp: worker_step_def set_worker_def)
qed (use st in \<open>simp_all add: worker_step_def\<close>)

text \<open>One submitter moves.\<close>

lemma client_moves:
  assumes inv: "pool_inv n s" and use: "in_use (tp_owner s)"
    and w: "case tp_workers s t of W_absent \<Rightarrow> True | W_run _ \<Rightarrow> True | _ \<Rightarrow> False"
    and same: "tp_owner s' = tp_owner s" "tp_accepting s' = tp_accepting s" "tp_started s' = tp_started s" "tp_stops s' = tp_stops s"
      "tp_workers s' = tp_workers s" "tp_alive s' = tp_alive s" "tp_errors s' = tp_errors s" "tp_finished s' = tp_finished s"
      "tp_taken s' = tp_taken s"
    and c: "tp_clients s' = (tp_clients s)(t := c)" "call_ok (tp_workers s t) c th"
    and r: "mpmc_inv kQueueSize (tp_queue s')" "mr_threads (tp_queue s') = (mr_threads (tp_queue s))(t := th)"
      "mr_popped (tp_queue s') = mr_popped (tp_queue s)" "mq_dequeue_pos (mr_queue (tp_queue s')) = mq_dequeue_pos (mr_queue (tp_queue s))"
    and tok: "tp_available s' + length (tp_accepted s) = tp_available s + length (tp_accepted s')"
      "tp_accepting s \<or> tp_accepted s' = tp_accepted s"
    and ok: "lock_ok s'" "accepted_ok s'"
  shows "pool_inv n s'"
proof (rule pool_invI)
  note I = pool_invD [OF inv]
  have rel: "released s' = released s" by (simp add: released_def same)
  show "phase_ok n s'" by (rule phase_keep [OF I(5)]) (simp_all add: same use)
  show "call_ok (tp_workers s' i) (tp_clients s' i) (mr_threads (tp_queue s') i)" for i
    using I(3) [of i] c r(2) by (simp add: same)
  have "token (tp_workers s i) (((mr_threads (tp_queue s))(t := th)) i) = token (tp_workers s i) (mr_threads (tp_queue s) i)" for i
    using w by (auto split: worker.splits)
  then show "tokens_ok n s'" using I(7) tok(1) by (simp add: tokens_ok_def rel same r)
  show "workers_ok n s'" using I(6) tok(2) by (auto simp: workers_ok_def rel same r released_def)
  show "history_ok n s'" using I(9) by (simp add: history_ok_def same r)
qed (use pool_invD(2) [OF inv] r ok in \<open>simp_all add: same\<close>)

lemma push_step_cases:
  assumes "push_step cap v spurious st q = Inr (out, q')"
  obtains (look) st' where "out = Inl st'" "mq_dequeue_pos q' = mq_dequeue_pos q" "mq_enqueue_pos q' = mq_enqueue_pos q"
      "\<And>p. pushing (T_push v st') p = pushing (T_push v st) p" "has_claimed (T_push v st') = has_claimed (T_push v st)"
      "\<And>pos. st' \<noteq> Push_write pos"
  | (claim) pos where "out = Inl (Push_write pos)" "st = Push_cas pos" "mq_dequeue_pos q' = mq_dequeue_pos q" "pos = mq_enqueue_pos q"
  | (full) pos where "out = Inr False" "st = Push_seq pos" "mq_dequeue_pos q' = mq_dequeue_pos q"
  | (published) pos where "out = Inr True" "st = Push_publish pos" "mq_dequeue_pos q' = mq_dequeue_pos q"
proof (cases st)
  case Push_load
  with assms show ?thesis by (intro look) auto
next
  case (Push_seq pos)
  with assms have "q' = q" "out = Inl (Push_cas pos) \<or> out = Inr False \<or> out = Inl Push_load"
    by (auto simp: result_simps split: if_splits)
  with Push_seq show ?thesis 
    by (elim disjE) ((rule look [of "Push_cas pos"]; simp), (rule full [of pos]; simp), (rule look [of Push_load]; simp))
next
  case (Push_cas pos)
  show ?thesis
  proof (cases "mq_enqueue_pos q = pos \<and> \<not> spurious")
    case True
    with Push_cas assms show ?thesis by (intro claim) auto
  next
    case False
    with Push_cas assms show ?thesis by (intro look) auto
  qed
next
  case (Push_write pos)
  with assms show ?thesis by (intro look) (auto simp: result_simps set_slot_at_def split: if_splits)
next
  case (Push_publish pos)
  with assms show ?thesis by (intro published) (auto simp: result_simps set_slot_at_def split: if_splits)
qed

text \<open>Where the submitters and the lock stand when one thread holds the lock.\<close>

lemma client_owns:
  assumes inv: "pool_inv n s" and c: "in_submit (tp_clients s t)"
  shows "tp_lifecycle s = Some (Client t)" and "i \<noteq> t \<Longrightarrow> \<not> in_submit (tp_clients s i)"
    and "pending s = pending_of (tp_clients s t) (mr_threads (tp_queue s) t)"
  using pool_invD(4) [OF inv] c by (auto simp: lock_ok_def pending_def)

lemma not_pushing:
  assumes "pool_inv n s" and "\<not> in_submit (tp_clients s i)"
  shows "\<not> pushing (mr_threads (tp_queue s) i) p"
  using pool_invD(3) [OF assms(1), of i] assms(2)
  by (cases "mr_threads (tp_queue s) i"; cases "tp_clients s i") (auto simp: call_ok_def)

lemma busy_client:
  assumes inv: "pool_inv n s" and c: "tp_clients s t \<noteq> C_idle"
  shows "case tp_workers s t of W_absent \<Rightarrow> True | W_run _ \<Rightarrow> True | _ \<Rightarrow> False" and "in_use (tp_owner s) \<or> failing (tp_owner s)"
proof -
  show "case tp_workers s t of W_absent \<Rightarrow> True | W_run _ \<Rightarrow> True | _ \<Rightarrow> False"
    using pool_invD(3) [OF inv, of t] c by (auto simp: call_ok_def split: client.splits)
  show "in_use (tp_owner s) \<or> failing (tp_owner s)"
    using pool_invD(5) [OF inv] c by (cases "tp_owner s") (auto simp: phase_ok_def in_use_def failing_def)
qed

lemma client_pushes:
  assumes inv: "pool_inv n s" and use: "in_use (tp_owner s)" and b: "pos_bound kQueueSize (tp_queue s)"
    and c: "tp_clients s t = C_push v" "mr_threads (tp_queue s) t = T_push v st"
  shows "\<exists>out q. push_step kQueueSize v spurious st (mr_queue (tp_queue s)) = Inr (out, q) \<and>
    pool_inv n (set_client t (case out of Inl _ \<Rightarrow> C_push v | Inr ok \<Rightarrow> if ok then C_release v else C_return v False)
      (s\<lparr>tp_queue := after_push t v out q (tp_queue s)\<rparr>))"
proof -
  let ?r = "tp_queue s"
  note I = pool_invD [OF inv]
  note own = client_owns [OF inv, of t, unfolded c, simplified]
  obtain out q where out: "push_step kQueueSize v spurious st (mr_queue ?r) = Inr (out, q)"
    and inv': "mpmc_inv kQueueSize (after_push t v out q ?r)"
    using push_step_inv [OF I(1) b c(2), of spurious] by blast
  let ?c = "case out of Inl _ \<Rightarrow> C_push v | Inr ok \<Rightarrow> if ok then C_release v else C_return v False"
  let ?th = "case out of Inl st' \<Rightarrow> T_push v st' | Inr _ \<Rightarrow> T_idle"
  let ?r' = "after_push t v out q ?r"
  let ?s = "set_client t ?c (s\<lparr>tp_queue := ?r'\<rparr>)"
  have acc: "mr_claimed ?r = tp_accepted s @ (if has_claimed (T_push v st) then [v] else [])"
    using I(8) own(3) c by (simp add: accepted_ok_def)
  have "pushing (mr_threads ?r t) p \<Longrightarrow> p = length (tp_accepted s)" for p using I(8) by (simp add: accepted_ok_def)
  then have pos: "pushing (T_push v st) p \<Longrightarrow> p = length (tp_accepted s)" for p by (simp only: c(2))
  have r: "mr_threads ?r' = (mr_threads ?r)(t := ?th)" "mr_popped ?r' = mr_popped ?r" "mr_queue ?r' = q"
    by (simp_all add: after_push_def)
  have np: "i \<noteq> t \<Longrightarrow> \<not> pushing (mr_threads ?r i) p" for i p using not_pushing [OF inv own(2)] .
  have enq: "unat (mq_enqueue_pos (mr_queue ?r)) = length (mr_claimed ?r)" by (rule mpmc_invD(3) [OF I(1)])
  have lock: "lock_ok ?s" using I(4) c own by (auto simp: lock_ok_def set_client_def split: sum.split)
  have new: "mr_claimed ?r' = tp_accepted s @ pending_of ?c ?th \<and> (\<forall>p. pushing ?th p \<longrightarrow> p = length (tp_accepted s)) \<and>
      mq_dequeue_pos q = mq_dequeue_pos (mr_queue ?r)"
    using out
  proof (cases rule: push_step_cases)
    case (look st')
    then have "mr_claimed ?r' = mr_claimed ?r" by (auto simp: after_push_def split: push_state.split)
    with look acc pos show ?thesis by simp
  next
    case (claim pos)
    with acc enq show ?thesis by (simp add: after_push_def)
  next
    case (full pos)
    with acc show ?thesis by (simp add: after_push_def)
  next
    case (published pos)
    with acc show ?thesis by (simp add: after_push_def)
  qed
  then have "accepted_ok ?s" using np own r by (auto simp: accepted_ok_def pending_def set_client_def)
  moreover have "call_ok (tp_workers s t) ?c ?th"
    using I(3) [of t] c by (auto simp: call_ok_def split: sum.split worker.splits)
  ultimately have "pool_inv n ?s"
    using use new lock r inv' busy_client(1) [OF inv, of t] c
    by (intro client_moves [OF inv, where t = t and c = ?c and th = ?th]) (simp_all add: set_client_def)
  then show ?thesis using out by blast
qed

lemma quiet_client:
  assumes inv: "pool_inv n s" and c: "tp_clients s t \<noteq> C_idle" "\<And>v. tp_clients s t \<noteq> C_push v"
  shows "mr_threads (tp_queue s) t = T_idle"
  using pool_invD(3) [OF inv, of t] c busy_client(1) [OF inv c(1)]
  by (cases "mr_threads (tp_queue s) t") (auto simp: call_ok_def split: client.splits worker.splits)

lemma client_locks:
  assumes inv: "pool_inv n s" and use: "in_use (tp_owner s)" and c: "tp_clients s t = C_lock v" and free: "tp_lifecycle s = None"
  shows "pool_inv n (set_client t (C_check v) (s\<lparr>tp_lifecycle := Some (Client t)\<rparr>))" (is "pool_inv n ?s")
proof (rule client_moves [OF inv use, where t = t and c = "C_check v" and th = T_idle])
  note I = pool_invD [OF inv]
  show "lock_ok ?s" using I(4) free by (auto simp: lock_ok_def set_client_def)
  show "accepted_ok ?s" using I(8) free by (auto simp: accepted_ok_def pending_def set_client_def)
qed (use pool_invD(1) [OF inv] pool_invD(3) [OF inv, of t] c quiet_client [OF inv, of t] busy_client(1) [OF inv, of t]
    in \<open>auto simp: set_client_def call_ok_def fun_eq_iff\<close>)

lemma client_checks:
  assumes inv: "pool_inv n s" and use: "in_use (tp_owner s)" and c: "tp_clients s t = C_check v"
  shows "pool_inv n (if tp_accepting s then queue_call t (T_push v Push_load) (set_client t (C_push v) s)
    else set_client t (C_return v False) s)" (is "pool_inv n ?s")
proof (rule client_moves [OF inv use, where t = t and c = "if tp_accepting s then C_push v else C_return v False"
      and th = "if tp_accepting s then T_push v Push_load else T_idle"])
  note I = pool_invD [OF inv] and own = client_owns [OF inv, of t, unfolded c, simplified]
  have th: "mr_threads (tp_queue s) t = T_idle" using quiet_client [OF inv, of t] c by simp
  have "mpmc_inv kQueueSize ((tp_queue s)\<lparr>mr_threads := (mr_threads (tp_queue s))(t := T_push v Push_load)\<rparr>)"
    by (rule inv_thread [OF I(1)]) (use th in \<open>simp_all add: fun_eq_iff\<close>)
  then show "mpmc_inv kQueueSize (tp_queue ?s)" using I(1) by (simp add: set_client_def queue_call_def)
  show "lock_ok ?s" using I(4) c by (auto simp: lock_ok_def set_client_def queue_call_def)
  show "accepted_ok ?s" using I(8) own c by (auto simp: accepted_ok_def pending_def set_client_def queue_call_def)
qed (use pool_invD(3) [OF inv, of t] c quiet_client [OF inv, of t] busy_client(1) [OF inv, of t]
    in \<open>auto simp: set_client_def queue_call_def call_ok_def fun_eq_iff\<close>)

lemma client_releases:
  assumes inv: "pool_inv n s" and use: "in_use (tp_owner s)" and c: "tp_clients s t = C_release v"
  shows "pool_inv n (set_client t (C_return v True)
    (s\<lparr>tp_available := tp_available s + 1, tp_accepted := tp_accepted s @ [v]\<rparr>))" (is "pool_inv n ?s")
proof (rule client_moves [OF inv use, where t = t and c = "C_return v True" and th = T_idle])
  note I = pool_invD [OF inv] and own = client_owns [OF inv, of t, unfolded c, simplified]
  have np: "\<not> pushing (mr_threads (tp_queue s) i) p" for i p
    using not_pushing [OF inv own(2)] quiet_client [OF inv, of t] c by (cases "i = t") auto
  show "lock_ok ?s" using I(4) c by (auto simp: lock_ok_def set_client_def)
  show "accepted_ok ?s" using I(8) own c np by (auto simp: accepted_ok_def pending_def set_client_def)
  show "tp_accepting s \<or> tp_accepted ?s = tp_accepted s" using I(4) c by (auto simp: lock_ok_def)
qed (use pool_invD(1) [OF inv] pool_invD(3) [OF inv, of t] c quiet_client [OF inv, of t] busy_client(1) [OF inv, of t]
    in \<open>auto simp: set_client_def call_ok_def fun_eq_iff\<close>)

lemma client_returns:
  assumes inv: "pool_inv n s" and use: "in_use (tp_owner s)" and c: "tp_clients s t = C_return v ok"
  shows "pool_inv n (set_client t C_idle (s\<lparr>tp_lifecycle := None\<rparr>))" (is "pool_inv n ?s")
proof (rule client_moves [OF inv use, where t = t and c = C_idle and th = T_idle])
  note I = pool_invD [OF inv] and own = client_owns [OF inv, of t, unfolded c, simplified]
  show "lock_ok ?s" using I(4) c own by (auto simp: lock_ok_def set_client_def)
  show "accepted_ok ?s" using I(8) own c by (auto simp: accepted_ok_def pending_def set_client_def)
qed (use pool_invD(1) [OF inv] pool_invD(3) [OF inv, of t] c quiet_client [OF inv, of t] busy_client(1) [OF inv, of t]
    in \<open>auto simp: set_client_def call_ok_def fun_eq_iff\<close>)

lemma client_step_inv:
  assumes inv: "pool_inv n s" and nf: "\<not> failing (tp_owner s)" and b: "pos_bound kQueueSize (tp_queue s)"
    and st: "client_step spurious t s = Some y"
  shows "\<exists>s'. y = Inr s' \<and> pool_inv n s' \<and> tp_owner s' = tp_owner s"
proof -
  have busy: "tp_clients s t \<noteq> C_idle" using st by (auto simp: client_step_def)
  have use: "in_use (tp_owner s)" using busy_client(2) [OF inv busy] nf by simp
  show ?thesis
  proof (cases "tp_clients s t")
    case (C_push v)
    then obtain p where "mr_threads (tp_queue s) t = T_push v p"
      using pool_invD(3) [OF inv, of t] busy_client(1) [OF inv busy]
      by (cases "mr_threads (tp_queue s) t") (auto simp: call_ok_def split: worker.splits)
    with client_pushes [OF inv use b C_push this, of spurious] st C_push show ?thesis
      by (auto simp: client_step_def set_client_def)
  qed (use st busy pool_invD(2) [OF inv] client_locks [OF inv use, of t] client_checks [OF inv use, of t]
      client_releases [OF inv use, of t] client_returns [OF inv use, of t]
      in \<open>auto simp: client_step_def set_client_def queue_call_def split: if_splits\<close>)
qed

text \<open>The owner moves.\<close>

lemma owner_moves:
  assumes inv: "pool_inv n s"
    and same: "tp_queue s' = tp_queue s" "tp_clients s' = tp_clients s" "tp_alive s' = tp_alive s" "tp_errors s' = tp_errors s"
      "tp_finished s' = tp_finished s" "tp_taken s' = tp_taken s" "tp_accepted s' = tp_accepted s"
    and w: "tp_workers s' = tp_workers s"
    and life: "tp_lifecycle s' = tp_lifecycle s \<or> (\<forall>t. tp_lifecycle s \<noteq> Some (Client t) \<and> tp_lifecycle s' \<noteq> Some (Client t))"
    and tok: "tp_available s' + (if released s then n else 0) = tp_available s + (if released s' then n else 0)"
      "released s \<Longrightarrow> released s'"
    and ok: "lock_ok s'" "phase_ok n s'"
  shows "pool_inv n s'"
proof (rule pool_invI)
  note I = pool_invD [OF inv]
  have pend: "pending s' = pending s" using life by (auto simp: pending_def same split: option.split lock_holder.split)
  show "tokens_ok n s'" using I(7) tok(1) by (simp add: tokens_ok_def same w)
  show "workers_ok n s'" using I(6) tok(2) by (auto simp: workers_ok_def same w)
  show "accepted_ok s'" using I(8) by (simp add: accepted_ok_def pend same)
  show "history_ok n s'" using I(9) by (simp add: history_ok_def same w)
  show "call_ok (tp_workers s' i) (tp_clients s' i) (mr_threads (tp_queue s') i)" for i using I(3) [of i] by (simp add: same w)
qed (use pool_invD(1,2) [OF inv] ok in \<open>simp_all add: same\<close>)

lemma owner_starts:
  assumes inv: "pool_inv n s" and k: "tp_owner s = O_start k" "k < n"
  shows "pool_inv n (set_worker k W_acquire (s\<lparr>tp_started := Suc k, tp_owner := O_start (Suc k)\<rparr>))"
    (is "pool_inv n ?s")
proof (rule pool_invI)
  note I = pool_invD [OF inv]
  have ph: "tp_started s = k" "tp_accepting s" "tp_clients s t = C_idle" "\<And>w. w < n \<Longrightarrow> tp_workers s w = W_absent \<longleftrightarrow> \<not> w < k"
      "\<And>w. n \<le> w \<Longrightarrow> tp_workers s w = W_absent" for t
    using I(5) k by (auto simp: phase_ok_def)
  have ab: "tp_workers s k = W_absent" using ph(4) [of k] k by simp
  have rel: "released ?s = released s" by (simp add: released_def set_worker_def k)
  have f: "\<And>i th. token (tp_workers ?s i) th = token (tp_workers s i) th" "\<And>i. running (tp_workers ?s i) = running (tp_workers s i)"
    "\<And>i. caught (tp_workers ?s i) = caught (tp_workers s i)" using ab by (simp_all add: set_worker_def)
  have g: "tp_queue ?s = tp_queue s" "tp_available ?s = tp_available s" "tp_accepted ?s = tp_accepted s" "tp_lifecycle ?s = tp_lifecycle s"
    "tp_clients ?s = tp_clients s" "tp_finished ?s = tp_finished s" "tp_errors ?s = tp_errors s" "tp_taken ?s = tp_taken s" "tp_alive ?s = tp_alive s"
    by (simp_all add: set_worker_def)
  show "mpmc_inv kQueueSize (tp_queue ?s)" "tp_alive ?s" using I(1,2) by (simp_all add: g)
  show "tokens_ok n ?s" using I(7) by (simp add: tokens_ok_def rel f g)
  show "history_ok n ?s" using I(9) by (simp add: history_ok_def f g)
  have "pending ?s = pending s" by (simp add: pending_def g cong: option.case_cong lock_holder.case_cong)
  then show "accepted_ok ?s" using I(8) by (simp add: accepted_ok_def g)
  show "workers_ok n ?s" using I(6) ph(2) by (auto simp: workers_ok_def set_worker_def released_def)
  show "lock_ok ?s" using I(4) k by (auto simp: lock_ok_def set_worker_def)
  show "phase_ok n ?s" using I(5) ph k unfolding phase_ok_def rel by (auto simp: set_worker_def released_def less_Suc_eq)
  show "call_ok (tp_workers ?s i) (tp_clients ?s i) (mr_threads (tp_queue ?s) i)" for i
    using I(3) [of i] ab ph(3) by (auto simp: call_ok_def set_worker_def split: thread.splits)
qed

lemma owner_step_inv:
  assumes inv: "pool_inv n s" and st: "owner_step n started s = Some s'"
  shows "failing (tp_owner s') \<or> pool_inv n s'"
proof -
  note I = pool_invD [OF inv]
  note d = phase_ok_def lock_ok_def released_def owner_step_eq all_exited_def less_Suc_eq
  have sub: "tp_lifecycle s = Some Owner \<Longrightarrow> \<not> in_submit (tp_clients s t)" for t using I(4) by (simp add: lock_ok_def)
  have submit: "tp_lifecycle s = Some Owner \<Longrightarrow> tp_clients s t \<noteq> C_push v \<and> tp_clients s t \<noteq> C_release v" for t v
    using sub [of t] by auto
  have fails: "failing (tp_owner s')" if "failing (tp_owner s)"
    using that st by (cases "tp_owner s") (auto simp: failing_def owner_step_eq)
  show ?thesis
  proof (cases "failing (tp_owner s) \<or> (\<exists>k. tp_owner s = O_start k \<and> k < n)")
    case True
    with owner_starts [OF inv] st fails show ?thesis by (auto simp: owner_step_eq failing_def split: if_splits)
  next
    case False
    then have "pool_inv n s'" using st I(4,5) submit
      by (cases "tp_owner s") (intro owner_moves [OF inv]; auto simp: d failing_def split: if_splits)+
    then show ?thesis ..
  qed
qed

section \<open>All interleavings\<close>

lemma ThreadPool_inv: "ThreadPool n empty_task = Inr s \<Longrightarrow> pool_inv n s \<and> \<not> failing (tp_owner s)"
proof -
  assume s: "ThreadPool n empty_task = Inr s"
  have "capacity_ok kQueueSize" by (simp add: capacity_ok_def kQueueSize_def)
  note q = mpmc_start_inv [OF this, of empty_task]
  from s q show ?thesis
    by (auto simp: ThreadPool_def pool_inv_def call_ok_def lock_ok_def phase_ok_def workers_ok_def tokens_ok_def accepted_ok_def
        history_ok_def pending_def released_def failing_def mpmc_start_def mpmc_new_def map_filter_def split: if_splits)
qed

lemma submit_call_inv:
  assumes inv: "pool_inv n s" and st: "submit_call t task s = Some s'"
  shows "pool_inv n s' \<and> tp_owner s' = tp_owner s"
proof (cases task)
  case None
  with st inv show ?thesis by (auto simp: submit_call_def split: if_splits)
next
  case (Some v)
  note I = pool_invD [OF inv]
  have c: "in_use (tp_owner s)" "tp_clients s t = C_idle" "case tp_workers s t of W_absent \<Rightarrow> True | W_run _ \<Rightarrow> True | _ \<Rightarrow> False"
      "s' = set_client t (C_lock v) s"
    using st Some by (auto simp: submit_call_def split: if_splits worker.splits)
  have th: "mr_threads (tp_queue s) t = T_idle"
    using I(3) [of t] c by (auto simp: call_ok_def split: worker.splits thread.splits)
  have nl: "tp_lifecycle s \<noteq> Some (Client t)" using I(4) c(2) by (metis in_submit.simps(1) lock_ok_def)
  have "pool_inv n s'"
  proof (rule client_moves [OF inv c(1,3), where c = "C_lock v" and th = T_idle])
    show "lock_ok s'" using I(4) nl by (auto simp: lock_ok_def c(4) set_client_def)
    show "accepted_ok s'"
      using I(8) c(2) by (auto simp: accepted_ok_def pending_def c(4) set_client_def split: option.split lock_holder.split)
  qed (use I(1) I(3) [of t] c th in \<open>auto simp: set_client_def call_ok_def fun_eq_iff\<close>)
  then show ?thesis by (simp add: c(4) set_client_def)
qed

lemma shutdown_call_inv:
  assumes inv: "pool_inv n s" and st: "shutdown_call s = Some s'"
  shows "pool_inv n s' \<and> \<not> failing (tp_owner s')"
proof -
  have s: "s' = s\<lparr>tp_owner := O_lock\<rparr>" "tp_owner s = O_ready \<or> tp_owner s = O_down"
    using st by (simp_all add: shutdown_call_def split: if_splits)
  have rel: "released s' = released s" using s(2) by (auto simp: s(1) released_def)
  have ex: "all_exited n s' = all_exited n s" by (simp add: s(1) all_exited_def)
  have "lock_ok s'" using pool_invD(4) [OF inv] s(2) by (auto simp: s(1) lock_ok_def)
  moreover have "phase_ok n s'" using pool_invD(5) [OF inv] s(2) unfolding phase_ok_def rel ex by (auto simp: s(1))
  ultimately have "pool_inv n s'" by (intro owner_moves [OF inv]) (simp_all add: rel, simp_all add: s(1))
  then show ?thesis by (simp add: s(1) failing_def)
qed

lemma take_errors_inv:
  assumes inv: "pool_inv n s" and st: "take_errors s = (es, s')"
  shows "pool_inv n s' \<and> tp_owner s' = tp_owner s"
proof -
  note I = pool_invD [OF inv]
  have s: "s' = s\<lparr>tp_errors := [], tp_taken := tp_taken s @ tp_errors s\<rparr>" using st by (auto simp: take_errors_def)
  have rel: "released s' = released s" by (simp add: s released_def)
  have "pool_inv n s'"
  proof (rule pool_invI)
    show "phase_ok n s'" by (rule phase_keep [OF I(5)]) (simp_all add: s)
    show "workers_ok n s'" using I(6) by (simp add: workers_ok_def rel) (simp add: s)
    show "tokens_ok n s'" using I(7) by (simp add: tokens_ok_def rel) (simp add: s)
    have "pending s' = pending s" by (simp add: pending_def s cong: option.case_cong lock_holder.case_cong)
    then show "accepted_ok s'" using I(8) by (simp add: accepted_ok_def) (simp add: s)
    show "history_ok n s'" using I(9) by (simp add: history_ok_def s ac_simps)
    show "lock_ok s'" using I(4) by (simp add: lock_ok_def s)
  qed (use pool_invD(1-3) [OF inv] in \<open>simp_all add: s\<close>)
  then show ?thesis by (simp add: s)
qed

lemma failing_stays: "pool_step n moved s s' \<Longrightarrow> failing (tp_owner s) \<Longrightarrow> failing (tp_owner s')"
proof (induction rule: pool_step.induct)
  case (worker spurious outcome w s s')
  then show ?case
    by (auto simp: worker_step_def set_worker_def queue_call_def result_simps split: worker.splits if_splits thread.splits)
next
  case (client spurious t s s')
  then show ?case
    by (auto simp: client_step_def set_client_def queue_call_def result_simps split: client.splits if_splits thread.splits)
next
  case (owner started s s')
  then show ?case by (cases "tp_owner s") (auto simp: owner_step_eq failing_def split: if_splits)
next
  case (submit t task s s')
  then show ?case by (auto simp: submit_call_def set_client_def split: if_splits option.splits)
qed (auto simp: shutdown_call_def take_errors_def failing_def split: if_splits)

lemma pool_step_inv:
  assumes "pool_step n moved s s'" and "pool_inv n s" and "\<not> failing (tp_owner s)" and "pos_bound kQueueSize (tp_queue s)"
  shows "failing (tp_owner s') \<or> pool_inv n s' \<and> \<not> failing (tp_owner s')"
  using assms
proof cases
  case (worker spurious outcome w)
  with worker_step_inv [OF assms(2,4)] assms(3) show ?thesis by fastforce
next
  case (submit t task)
  with submit_call_inv [OF assms(2)] assms(3) show ?thesis by auto
next
  case (client spurious t)
  with client_step_inv [OF assms(2-4)] assms(3) show ?thesis by fastforce
next
  case (owner started)
  with owner_step_inv [OF assms(2)] show ?thesis by auto
next
  case shutdown
  with shutdown_call_inv [OF assms(2)] show ?thesis by auto
next
  case (take_errors es)
  with take_errors_inv [OF assms(2)] assms(3) show ?thesis by auto
qed

lemma after_claimed:
  "length (mr_claimed r) \<le> length (mr_claimed (after_push t v out q r))" "mr_claimed (after_pop t st out' q r) = mr_claimed r"
  by (simp_all add: after_push_def after_pop_def split: sum.split push_state.split)

lemma pool_step_claimed:
  "pool_step n moved s s' \<Longrightarrow> length (mr_claimed (tp_queue s)) \<le> length (mr_claimed (tp_queue s'))"
proof (induction rule: pool_step.induct)
  case (worker spurious outcome w s s')
  then show ?case
    by (auto simp: worker_step_def set_worker_def queue_call_def result_simps after_claimed split: worker.splits if_splits thread.splits)
next
  case (client spurious t s s')
  then show ?case
    by (auto simp: client_step_def set_client_def queue_call_def result_simps after_claimed split: client.splits if_splits thread.splits)
next
  case (owner started s s')
  then show ?case by (cases "tp_owner s") (auto simp: owner_step_eq set_worker_def split: if_splits)
next
  case (submit t task s s')
  then show ?case by (auto simp: submit_call_def set_client_def split: if_splits option.splits)
qed (auto simp: shutdown_call_def take_errors_def split: if_splits)

lemma pool_reachable_inv:
  "pool_reachable n moved empty_task s \<Longrightarrow> pos_bound kQueueSize (tp_queue s) \<Longrightarrow>
     failing (tp_owner s) \<or> pool_inv n s \<and> \<not> failing (tp_owner s)"
proof (induction rule: pool_reachable.induct)
  case (start s)
  with ThreadPool_inv show ?case by fast
next
  case (step s s')
  have "pos_bound kQueueSize (tp_queue s)" using step.prems pool_step_claimed [OF step.hyps(2)] by (simp add: pos_bound_def)
  with step pool_step_inv failing_stays show ?case by blast
qed

section \<open>Schedules\<close>

datatype ('a, 'e) pool_move = Worker nat "'e option" | Submit nat 'a | Caller nat | Own bool | Shutdown

definition pool_move :: "nat \<Rightarrow> ('a \<Rightarrow> 'a) \<Rightarrow> ('a, 'e) pool_move \<Rightarrow> ('a, 'e) pool \<Rightarrow> ('a, 'e) pool option" where
  "pool_move n moved m s =
     (case m of
        Worker w outcome \<Rightarrow> (case worker_step moved False outcome w s of Some (Inr s') \<Rightarrow> Some s' | _ \<Rightarrow> None)
      | Submit t v \<Rightarrow> submit_call t (Some v) s
      | Caller t \<Rightarrow> (case client_step False t s of Some (Inr s') \<Rightarrow> Some s' | _ \<Rightarrow> None)
      | Own ok \<Rightarrow> owner_step n ok s
      | Shutdown \<Rightarrow> shutdown_call s)"

fun pool_exec :: "nat \<Rightarrow> ('a \<Rightarrow> 'a) \<Rightarrow> ('a, 'e) pool_move list \<Rightarrow> ('a, 'e) pool \<Rightarrow> ('a, 'e) pool option" where
  "pool_exec n moved [] s = Some s"
| "pool_exec n moved (m # ms) s = Option.bind (pool_move n moved m s) (pool_exec n moved ms)"

lemma pool_move_step: "pool_move n moved m s = Some s' \<Longrightarrow> pool_step n moved s s'"
  by (cases m) (auto simp: pool_move_def split: option.splits sum.splits intro: pool_step.intros)

lemma pool_exec_reachable:
  "pool_exec n moved ms s = Some s' \<Longrightarrow> pool_reachable n moved empty_task s \<Longrightarrow> pool_reachable n moved empty_task s'"
proof (induction ms arbitrary: s)
  case (Cons m ms)
  from Cons.prems(1) obtain s1 where s1: "pool_move n moved m s = Some s1" "pool_exec n moved ms s1 = Some s'"
    by (auto simp: bind_eq_Some_conv)
  with pool_reachable.step [OF Cons.prems(2) pool_move_step] have "pool_reachable n moved empty_task s1" by blast
  with Cons.IH s1(2) show ?case by blast
qed simp

text \<open>
  A pool of one worker: thread 5 submits the task 7, which fails with the exception 9; then the pool is
  shut down.
\<close>

definition demo_pool :: "(nat, nat) pool" where
  "demo_pool = \<lparr>tp_queue = mpmc_start kQueueSize 0, tp_workers = (\<lambda>_. W_absent), tp_stops = (\<lambda>_. False),
     tp_started = 0, tp_available = 0, tp_alive = True, tp_accepting = True, tp_lifecycle = None, tp_errors = [],
     tp_owner = O_start 0, tp_clients = (\<lambda>_. C_idle), tp_accepted = [], tp_finished = [], tp_taken = []\<rparr>"

definition demo_submit :: "(nat, nat) pool_move list" where
  "demo_submit = [Own True, Own True, Submit 5 7, Caller 5, Caller 5, Caller 5, Caller 5, Caller 5, Caller 5, Caller 5]"

definition demo_work :: "(nat, nat) pool_move list" where
  "demo_work = [Caller 5, Caller 5, Worker 0 None, Worker 0 None, Worker 0 None, Worker 0 None, Worker 0 None, Worker 0 None,
     Worker 0 (Some 9), Worker 0 None]"

definition demo_joins :: "(nat, nat) pool_move list" where
  "demo_joins = [Shutdown, Own True, Own True, Own True, Own True, Own True, Own True]"

definition demo_ends :: "(nat, nat) pool_move list" where
  "demo_ends = [Worker 0 None, Worker 0 None, Worker 0 None, Worker 0 None, Own True, Own True, Own True]"

lemma demo_slots:
  "slot_index kQueueSize 0 = 0" "slot_index kQueueSize 1 = 1" "Suc 0 < unat kQueueSize" "0 < unat kQueueSize"
  by (simp_all add: slot_index_def kQueueSize_def)

lemmas demo_simps = pool_move_def worker_step_def client_step_def owner_step_eq submit_call_def shutdown_call_def
  set_worker_def set_client_def queue_call_def in_use_def after_push_def after_pop_def slot_at_def set_slot_at_def pos_diff_def
  demo_slots

lemma demo_pool_reachable: "pool_exec 1 id ms demo_pool = Some s \<Longrightarrow> pool_reachable 1 id 0 s"
  by (erule pool_exec_reachable) (rule pool_reachable.start, simp add: ThreadPool_def demo_pool_def)

lemma demo_pool_bound: "length (mr_claimed r) \<le> 1 \<Longrightarrow> pos_bound kQueueSize r"
  by (simp add: pos_bound_def kQueueSize_def)

lemma demo_submitted:
  obtains s where "pool_exec 1 id demo_submit demo_pool = Some s" "mr_claimed (tp_queue s) = [7]" "tp_owner s = O_ready"
    "tp_clients s 5 = C_release 7" "tp_accepted s = []" "tp_available s = 0" "tp_alive s"
  by (simp add: demo_submit_def demo_simps demo_pool_def mpmc_start_def mpmc_new_def)

lemma demo_joining:
  obtains s where "pool_exec 1 id (demo_submit @ demo_work @ demo_joins) demo_pool = Some s" "mr_claimed (tp_queue s) = [7]"
    "tp_owner s = O_join 0" "tp_workers s 0 = W_acquire" "tp_started s = 1"
  by (simp add: demo_submit_def demo_work_def demo_joins_def demo_simps demo_pool_def mpmc_start_def mpmc_new_def)

lemma demo_finished:
  obtains s where "pool_exec 1 id (demo_submit @ demo_work @ demo_joins @ demo_ends) demo_pool = Some s"
    "mr_claimed (tp_queue s) = [7]" "tp_owner s = O_down" "tp_accepted s = [7]" "tp_finished s = [(7, Some 9)]" "tp_errors s = [9]"
  by (simp add: demo_submit_def demo_work_def demo_joins_def demo_ends_def demo_simps demo_pool_def mpmc_start_def mpmc_new_def)

lemma pool_size: "pool_reachable n moved empty_task s \<Longrightarrow> 0 < n"
  by (induction rule: pool_reachable.induct) (auto simp: ThreadPool_def split: if_splits)

text \<open>When every position has been taken and delivered, the delivered values are the pushed ones.\<close>

lemma delivered_all:
  assumes inv: "mpmc_inv cap r" and all: "unat (mq_dequeue_pos (mr_queue r)) = length (mr_claimed r)"
    and idle: "\<And>t p. \<not> popping (mr_threads r t) p"
  shows "mset (map snd (mr_popped r)) = mset (mr_claimed r)"
proof -
  let ?L = "mr_popped r" and ?C = "mr_claimed r"
  have del: "distinct (map fst ?L)" "\<And>p v. (p, v) \<in> set ?L \<Longrightarrow> p < length ?C \<and> v = ?C ! p"
      "\<And>p. p < length ?C \<Longrightarrow> p \<in> fst ` set ?L"
    using mpmc_invD(7) [OF inv] idle all unfolding delivery_ok_def by auto
  have "set (map fst ?L) = set [0..<length ?C]" using del(2,3) by (force simp: image_iff)
  with del(1) have "mset (map fst ?L) = mset [0..<length ?C]" by (metis distinct_upt set_eq_iff_mset_eq_distinct)
  then have "image_mset ((!) ?C) (mset (map fst ?L)) = image_mset ((!) ?C) (mset [0..<length ?C])" by simp
  moreover have "map snd ?L = map ((!) ?C) (map fst ?L)" unfolding map_map by (rule map_cong) (use del(2) in \<open>force+\<close>)
  moreover have "map ((!) ?C) [0..<length ?C] = ?C" by (rule map_nth)
  ultimately show ?thesis by (metis mset_map)
qed

section \<open>What the pool promises\<close>

text \<open>
  C6: a task that \<open>submit\<close> has accepted is always drained. In every interleaving in which the
  constructor does not fail, when \<open>shutdown\<close> has returned all workers have exited, every accepted task has run
  exactly once and nothing else has, and each exception of a task is held by the pool or has been
  returned by \<open>take_errors\<close>, exactly once.
\<close>

theorem shutdown_drains:
  assumes "pool_reachable n moved empty_task s" and "pos_bound kQueueSize (tp_queue s)" and "tp_owner s = O_down"
  shows "mset (map fst (tp_finished s)) = mset (tp_accepted s) \<and>
    mset (tp_errors s) + mset (tp_taken s) = mset (List.map_filter snd (tp_finished s)) \<and>
    (\<forall>w < n. tp_workers s w = W_exited) \<and> thread_count s = 0 \<and> \<not> tp_accepting s"
proof -
  let ?r = "tp_queue s"
  have "\<not> failing (tp_owner s)" by (simp add: assms(3) failing_def)
  with pool_reachable_inv [OF assms(1,2)] have inv: "pool_inv n s" by blast
  note I = pool_invD [OF inv]
  have down: "\<not> tp_accepting s" "\<And>w. w < n \<Longrightarrow> tp_workers s w = W_exited" "tp_started s = 0"
    using I(5) assms(3) by (auto simp: phase_ok_def all_exited_def)
  have "0 < n" by (rule pool_size [OF assms(1)])
  then have D: "claimed_by_pop s = length (tp_accepted s)" using I(6) down(2) by (auto simp: workers_ok_def)
  have "\<not> popping (mr_threads ?r t) p" for t p
    using I(3) [of t] down(2) [of t] worker_small [OF inv, of t]
    by (cases "mr_threads ?r t") (auto simp: call_ok_def)
  then have "mset (map snd (mr_popped ?r)) = mset (mr_claimed ?r)"
    using D claimed_all [OF inv down(1)] by (intro delivered_all [OF I(1)]) auto
  then show ?thesis using I(9) down claimed_all [OF inv down(1)]
    by (simp add: history_ok_def thread_count_def)
qed

theorem shutdown_drains_witness:
  "\<exists>s. pool_reachable 1 id (0 :: nat) s \<and> tp_owner s = O_down \<and> tp_accepted s = [7] \<and>
     mset (map fst (tp_finished s)) = {#7#} \<and> mset (tp_errors s) + mset (tp_taken s) = {#9 :: nat#}"
proof -
  obtain s where s: "pool_exec 1 id (demo_submit @ demo_work @ demo_joins @ demo_ends) demo_pool = Some s"
    "mr_claimed (tp_queue s) = [7]" "tp_owner s = O_down" "tp_accepted s = [7]" "tp_finished s = [(7, Some 9)]"
    by (rule demo_finished)
  note r = demo_pool_reachable [OF s(1)]
  from shutdown_drains [OF r demo_pool_bound s(3)] r s show ?thesis
    by (intro exI [of _ s]) (simp add: map_filter_def)
qed

text \<open>While \<open>shutdown\<close> waits for a worker, the worker is not blocked at the semaphore.\<close>

lemma token_le: "token w th \<le> 1"
  by (induction w th rule: token.induct) auto

lemma sum_less:
  fixes f :: "nat \<Rightarrow> nat"
  assumes "k < n" and "f k = 0" and "\<And>i. f i \<le> 1"
  shows "(\<Sum>i < n. f i) < n"
proof -
  have "(\<Sum>i < n. f i) < (\<Sum>i < n. 1)" by (rule sum_strict_mono_ex1) (use assms in auto)
  then show ?thesis by simp
qed

lemma released_wakes:
  assumes inv: "pool_inv n s" and rel: "released s" and k: "k < n" "tp_workers s k = W_acquire"
  shows "0 < tp_available s"
proof -
  have "(\<Sum>i < n. token (tp_workers s i) (mr_threads (tp_queue s) i)) < n"
    by (rule sum_less [OF k(1)]) (use k(2) token_le in auto)
  moreover have "claimed_by_pop s \<le> length (tp_accepted s)"
    using mpmc_invD(4) [OF pool_invD(1) [OF inv]] claimed_all [OF inv] rel by (simp add: released_def)
  ultimately show ?thesis using pool_invD(7) [OF inv] rel by (simp add: tokens_ok_def)
qed

text \<open>
  C34: the threads of a pool never wait for each other in vain. While all workers wait and a task is
  queued, the semaphore lets a worker through; \<open>shutdown\<close> waits for the lock only while a caller of
  \<open>submit\<close> holds it, which is not blocked; and the worker that \<open>shutdown\<close> joins can take a step, unless
  the task it runs is itself inside \<open>submit\<close>.
\<close>

theorem pool_no_deadlock:
  assumes "pool_reachable n moved empty_task s" and "pos_bound kQueueSize (tp_queue s)" and "\<not> failing (tp_owner s)"
  shows "((\<forall>w < n. tp_workers s w = W_acquire) \<and> claimed_by_pop s < length (tp_accepted s) \<longrightarrow> 0 < tp_available s) \<and>
    (tp_owner s = O_lock \<and> owner_step n True s = None \<longrightarrow>
      (\<exists>t. tp_lifecycle s = Some (Client t) \<and> client_step False t s \<noteq> None)) \<and>
    (tp_owner s = O_join k \<and> owner_step n True s = None \<longrightarrow>
      worker_step moved False None k s \<noteq> None \<or> (\<exists>v. tp_workers s k = W_run v \<and> tp_clients s k \<noteq> C_idle))"
proof (intro conjI impI)
  have inv: "pool_inv n s" using pool_reachable_inv [OF assms(1,2)] assms(3) by blast
  note I = pool_invD [OF inv]
  show "0 < tp_available s" if "(\<forall>w < n. tp_workers s w = W_acquire) \<and> claimed_by_pop s < length (tp_accepted s)"
    using I(7) that by (simp add: tokens_ok_def)
  show "\<exists>t. tp_lifecycle s = Some (Client t) \<and> client_step False t s \<noteq> None"
    if ow: "tp_owner s = O_lock \<and> owner_step n True s = None"
  proof -
    obtain h where h: "tp_lifecycle s = Some h" using ow by (auto simp: owner_step_eq split: if_splits)
    with I(4) ow obtain t where t: "tp_lifecycle s = Some (Client t)" by (cases h) (auto simp: lock_ok_def)
    then have "in_submit (tp_clients s t)" using I(4) by (simp add: lock_ok_def)
    moreover have "\<exists>st. mr_threads (tp_queue s) t = T_push v st" if "tp_clients s t = C_push v" for v
      using I(3) [of t] that by (cases "mr_threads (tp_queue s) t") (auto simp: call_ok_def split: worker.splits)
    ultimately show ?thesis using t by (cases "tp_clients s t") (auto simp: client_step_def)
  qed
  show "worker_step moved False None k s \<noteq> None \<or> (\<exists>v. tp_workers s k = W_run v \<and> tp_clients s k \<noteq> C_idle)"
    if ow: "tp_owner s = O_join k \<and> owner_step n True s = None"
  proof -
    have k: "k < n" "tp_workers s k \<noteq> W_exited" "tp_workers s k \<noteq> W_absent" "released s"
      using I(5) ow by (auto simp: phase_ok_def owner_step_eq released_def split: if_splits)
    moreover have "\<exists>st. mr_threads (tp_queue s) k = T_pop st" if "tp_workers s k = W_pop"
      using I(3) [of k] that by (cases "mr_threads (tp_queue s) k") (auto simp: call_ok_def split: client.splits)
    ultimately show ?thesis using I(2) released_wakes [OF inv k(4,1)]
      by (cases "tp_workers s k") (auto simp: worker_step_def)
  qed
qed

theorem pool_no_deadlock_witness:
  "\<exists>s. pool_reachable 1 id (0 :: nat) s \<and> tp_owner s = O_join 0 \<and> tp_workers s 0 = W_acquire \<and>
     worker_step id False (None :: nat option) 0 s \<noteq> None"
proof -
  obtain s where s: "pool_exec 1 id (demo_submit @ demo_work @ demo_joins) demo_pool = Some s" "mr_claimed (tp_queue s) = [7]"
    "tp_owner s = O_join 0" "tp_workers s 0 = W_acquire" "tp_started s = 1" by (rule demo_joining)
  note r = demo_pool_reachable [OF s(1)]
  have "owner_step 1 True s = None" using s by (simp add: owner_step_eq)
  with pool_no_deadlock [OF r demo_pool_bound, of 0] r s show ?thesis by (intro exI [of _ s]) (simp add: failing_def)
qed



text \<open>
  \<open>submit\<close> answers truthfully. It returns \<open>true\<close> only for a task that has been queued, and \<open>false\<close>
  only when the pool no longer accepts tasks, when all slots of the queue are taken, or while a worker that has
  claimed a task has not yet taken it out of its slot.
\<close>

theorem submit_answers:
  assumes "pool_reachable n moved empty_task s" and "pos_bound kQueueSize (tp_queue s)" and "\<not> failing (tp_owner s)"
    and "client_step spurious t s = Some (Inr s')" and "tp_clients s' t = C_return v ok"
  shows "if ok then tp_accepted s' = tp_accepted s @ [v] \<and> tp_available s' = tp_available s + 1
    else \<not> tp_accepting s \<or> claimed_by_pop s + unat kQueueSize \<le> length (tp_accepted s) \<or>
      (\<exists>w p. w < n \<and> popping (mr_threads (tp_queue s) w) p)"
proof -
  have inv: "pool_inv n s" using pool_reachable_inv [OF assms(1,2)] assms(3) by blast
  note I = pool_invD [OF inv]
  show ?thesis
  proof (cases "tp_clients s t")
    case (C_push u)
    then obtain st where th: "mr_threads (tp_queue s) t = T_push u st"
      using I(3) [of t] assms(4) by (cases "mr_threads (tp_queue s) t") (auto simp: client_step_def call_ok_def)
    obtain out q where out: "push_step kQueueSize u spurious st (mr_queue (tp_queue s)) = Inr (out, q)"
      and c: "(case out of Inl _ \<Rightarrow> C_push u | Inr ok \<Rightarrow> if ok then C_release u else C_return u False) = C_return v ok"
      using assms(4,5) C_push th by (auto simp: client_step_def result_simps set_client_def)
    then have no: "out = Inr False" "\<not> ok" by (auto split: sum.splits if_splits)
    then obtain pos where st: "st = Push_seq pos" using out by (cases st) (auto simp: result_simps split: if_splits)
    have "thread_ok (unat kQueueSize) (claimed_by_pop s) (mr_claimed (tp_queue s)) (mr_queue (tp_queue s)) (T_push u st)"
      using threads_okD(1) [OF mpmc_invD(6) [OF I(1)], of t] by (simp add: th)
    then have pos: "unat pos \<le> length (mr_claimed (tp_queue s))" by (simp add: st)
    have "seq_no (mr_queue (tp_queue s)) (unat pos mod unat kQueueSize) < unat pos"
      using out no unfolding st push_seq_eq [OF I(1) assms(2) pos] by (auto split: if_splits)
    from push_refused [OF I(1) pos this] consider
      (full) "claimed_by_pop s + unat kQueueSize \<le> length (mr_claimed (tp_queue s))" | (pop) w p where "popping (mr_threads (tp_queue s) w) p"
      by blast
    then show ?thesis
    proof cases
      case full
      have "mr_claimed (tp_queue s) = tp_accepted s"
        using I(8) client_owns(3) [OF inv, of t] C_push th st by (simp add: accepted_ok_def)
      with full no(2) show ?thesis by simp
    next
      case (pop w p)
      then have "tp_workers s w = W_pop" using I(3) [of w] by (cases "mr_threads (tp_queue s) w") (auto simp: call_ok_def)
      then have "w < n" using worker_small [OF inv, of w] by simp
      with pop no(2) show ?thesis by auto
    qed
  qed (use assms(4,5) in \<open>auto simp: client_step_def set_client_def queue_call_def split: if_splits\<close>)
qed

theorem submit_answers_witness:
  "\<exists>s s'. pool_reachable 1 id (0 :: nat) (s :: (nat, nat) pool) \<and> client_step False 5 s = Some (Inr s') \<and>
     tp_clients s' 5 = C_return 7 True \<and> tp_accepted s' = [7]"
proof -
  obtain s where s: "pool_exec 1 id demo_submit demo_pool = Some s" "mr_claimed (tp_queue s) = [7]" "tp_owner s = O_ready"
    "tp_clients s 5 = C_release 7" "tp_accepted s = []" "tp_available s = 0" "tp_alive s" by (rule demo_submitted)
  note r = demo_pool_reachable [OF s(1)]
  obtain s' where s': "client_step False 5 s = Some (Inr s')" "tp_clients s' 5 = C_return 7 True"
    using s by (simp add: client_step_def set_client_def)
  from submit_answers [OF r demo_pool_bound _ s'] s have "tp_accepted s' = [7]" by (simp add: failing_def)
  with r s' show ?thesis by blast
qed

text \<open>
  A constructor that fails is not safe. When starting the second of two workers fails, the
  semaphore is destroyed while the first worker has not left \<open>worker_loop\<close>, which then uses it.
\<close>

theorem failed_constructor_unsafe:
  "\<exists>s. pool_reachable 2 id (0 :: nat) s \<and> tp_owner s = O_failed \<and>
     worker_step id False (None :: nat option) 0 s = Some (Inl Undefined_behaviour)"
proof -
  obtain s where s: "pool_exec 2 id [Own True, Own False, Own True, Own True, Own True, Own True] demo_pool = Some s" "tp_owner s = O_failed"
      "worker_step id False None 0 s = Some (Inl Undefined_behaviour)"
    by (simp add: demo_simps demo_pool_def)
  have "pool_reachable 2 id 0 demo_pool" by (rule pool_reachable.start) (simp add: ThreadPool_def demo_pool_def)
  from pool_exec_reachable [OF s(1) this] s(2,3) show ?thesis by blast
qed

end
