(* ===== verification/Tcp_Stream.thy ===== *)
theory Tcp_Stream
  imports Io_Spec Buffer
begin

text \<open>
  \<open>TcpStream\<close>, \<open>TcpListener\<close> and \<open>Deadline\<close> of \<open>include/tinycoro/tcp_stream.h\<close> and
  \<open>src/tcp_stream.cpp\<close>. The socket calls of the kernel are a parameter. A coroutine is given by what it does
  from its start, or from a resumption, to the next suspension; the rest of the program may do anything
  while it is suspended.
\<close>

section \<open>The socket interface of the kernel\<close>

text \<open>A call returns an error number on the left. \<open>nt_now\<close> reads the steady clock in nanoseconds.\<close>

record 'k net =
  nt_recv :: "int \<Rightarrow> nat \<Rightarrow> 'k \<Rightarrow> (int + bytes) \<times> 'k"
  nt_send :: "int \<Rightarrow> bytes \<Rightarrow> 'k \<Rightarrow> (int + nat) \<times> 'k"
  nt_accept :: "int \<Rightarrow> 'k \<Rightarrow> (int + int) \<times> 'k"
  nt_shutdown :: "int \<Rightarrow> 'k \<Rightarrow> 'k"
  nt_close :: "int \<Rightarrow> 'k \<Rightarrow> 'k"
  nt_fcntl :: "int \<Rightarrow> int \<Rightarrow> u32 \<Rightarrow> 'k \<Rightarrow> (int + u32) \<times> 'k"
  nt_socket :: "u32 \<Rightarrow> 'k \<Rightarrow> (int + int) \<times> 'k"
  nt_setsockopt :: "int \<Rightarrow> int \<Rightarrow> int \<Rightarrow> int \<Rightarrow> 'k \<Rightarrow> (int + unit) \<times> 'k"
  nt_inet_pton :: "string \<Rightarrow> u32 option"
  nt_bind :: "int \<Rightarrow> u32 \<Rightarrow> 16 word \<Rightarrow> 'k \<Rightarrow> (int + unit) \<times> 'k"
  nt_listen :: "int \<Rightarrow> int \<Rightarrow> 'k \<Rightarrow> (int + unit) \<times> 'k"
  nt_getsockname :: "int \<Rightarrow> 'k \<Rightarrow> (int + 16 word) \<times> 'k"
  nt_now :: "'k \<Rightarrow> int \<times> 'k"

definition EAGAIN :: int where "EAGAIN = 11"
definition EBADF :: int where "EBADF = 9"
definition ECONNABORTED :: int where "ECONNABORTED = 103"
definition F_GETFD :: int where "F_GETFD = 1"
definition F_SETFD :: int where "F_SETFD = 2"
definition F_GETFL :: int where "F_GETFL = 3"
definition F_SETFL :: int where "F_SETFL = 4"
definition FD_CLOEXEC :: u32 where "FD_CLOEXEC = 1"
definition O_NONBLOCK :: u32 where "O_NONBLOCK = 0x800"
definition SOCK_STREAM :: u32 where "SOCK_STREAM = 1"
definition SOCK_NONBLOCK :: u32 where "SOCK_NONBLOCK = 0x800"
definition SOCK_CLOEXEC :: u32 where "SOCK_CLOEXEC = 0x80000"
definition SOL_SOCKET :: int where "SOL_SOCKET = 1"
definition SO_REUSEADDR :: int where "SO_REUSEADDR = 2"
definition IPPROTO_TCP :: int where "IPPROTO_TCP = 6"
definition TCP_NODELAY :: int where "TCP_NODELAY = 1"

text \<open>A call whose failure is thrown as \<open>std::system_error\<close>.\<close>

definition sys :: "string \<Rightarrow> ('k \<Rightarrow> (int + 'a) \<times> 'k) \<Rightarrow> ('k, 'a) eff" where
  "sys what f k = (case f k of (Inl errno, k) \<Rightarrow> (Inl (System_error errno what), k) | (Inr x, k) \<Rightarrow> (Inr x, k))"

section \<open>Deadline\<close>

record deadline =
  dl_enabled :: bool
  dl_deadline :: int

definition Deadline :: "'k net \<Rightarrow> int \<Rightarrow> 'k \<Rightarrow> deadline \<times> 'k" where
  "Deadline net timeout k =
     (if 0 \<le> timeout
      then case nt_now net k of (now, k) \<Rightarrow> (\<lparr>dl_enabled = True, dl_deadline = now + timeout * ns_per_ms\<rparr>, k)
      else (\<lparr>dl_enabled = False, dl_deadline = 0\<rparr>, k))"

definition remaining :: "'k net \<Rightarrow> deadline \<Rightarrow> 'k \<Rightarrow> int \<times> 'k" where
  "remaining net dl k =
     (if \<not> dl_enabled dl then (kNoTimeout, k)
      else case nt_now net k of (now, k) \<Rightarrow>
        if dl_deadline dl \<le> now then (0, k)
        else let left = dl_deadline dl - now; milliseconds = left div ns_per_ms in
          (if milliseconds * ns_per_ms < left then milliseconds + 1 else milliseconds, k))"

section \<open>Streams\<close>

record stream =
  ts_fd :: int

definition set_nonblocking_and_cloexec :: "'k net \<Rightarrow> int \<Rightarrow> ('k, unit) eff" where
  "set_nonblocking_and_cloexec net fd =
     ebind (sys ''fcntl O_NONBLOCK'' (nt_fcntl net fd F_GETFL 0)) (\<lambda>status_flags.
     ebind (sys ''fcntl O_NONBLOCK'' (nt_fcntl net fd F_SETFL (status_flags OR O_NONBLOCK))) (\<lambda>_.
     ebind (sys ''fcntl FD_CLOEXEC'' (nt_fcntl net fd F_GETFD 0)) (\<lambda>descriptor_flags.
     ebind (sys ''fcntl FD_CLOEXEC'' (nt_fcntl net fd F_SETFD (descriptor_flags OR FD_CLOEXEC))) (\<lambda>_. eret ()))))"

definition TcpStream :: "'k net \<Rightarrow> int \<Rightarrow> ('k, stream) eff" where
  "TcpStream net fd =
     (if fd < 0 then ethrow (Invalid_argument ''TcpStream requires a valid fd'')
      else ecatch (ebind (set_nonblocking_and_cloexec net fd) (\<lambda>_. eret \<lparr>ts_fd = fd\<rparr>))
             (\<lambda>e. ebind (emodify (nt_close net fd)) (\<lambda>_. ethrow e)))"

definition set_nodelay :: "'k net \<Rightarrow> bool \<Rightarrow> stream \<Rightarrow> ('k, unit) eff" where
  "set_nodelay net enabled s =
     (if ts_fd s < 0 then ethrow (Logic_error ''TcpStream is closed'')
      else sys ''setsockopt TCP_NODELAY'' (nt_setsockopt net (ts_fd s) IPPROTO_TCP TCP_NODELAY (if enabled then 1 else 0)))"

definition is_open :: "stream \<Rightarrow> bool" where
  "is_open s \<longleftrightarrow> 0 \<le> ts_fd s"

text \<open>Operations that also work on the executor.\<close>

definition on_kernel :: "('k, 'a) eff \<Rightarrow> (('k, 'm) loop_world_scheme, 'a) eff" where
  "on_kernel m w = (case m (lp_kernel w) of (r, k) \<Rightarrow> (r, w\<lparr>lp_kernel := k\<rparr>))"

definition stream_close :: "'k os \<Rightarrow> 'k net \<Rightarrow> stream \<Rightarrow> (('k, 'v, 'm) io_world_scheme, stream) eff" where
  "stream_close os net s =
     (if ts_fd s < 0 then eret s
      else
        ebind (cancel os (ts_fd s)) (\<lambda>_.
        ebind (on_kernel (emodify (nt_shutdown net (ts_fd s)))) (\<lambda>_.
        ebind (on_kernel (emodify (nt_close net (ts_fd s)))) (\<lambda>_. eret (s\<lparr>ts_fd := -1\<rparr>)))))"

text \<open>
  \<open>adopt\<close>: the object is allocated while an \<open>OwnedFd\<close> holds the descriptor, the control block of the
  \<open>shared_ptr\<close> when the stream already owns it.
\<close>

definition adopt :: "'k os \<Rightarrow> 'k net \<Rightarrow> bool \<Rightarrow> bool \<Rightarrow> int \<Rightarrow> (('k, 'v, 'm) io_world_scheme, stream) eff" where
  "adopt os net object_allocated control_allocated fd =
     (if \<not> object_allocated
      then ebind (if 0 \<le> fd then on_kernel (emodify (nt_close net fd)) else eret ()) (\<lambda>_. ethrow Bad_alloc)
      else if \<not> control_allocated
      then ebind (stream_close os net \<lparr>ts_fd = fd\<rparr>) (\<lambda>_. ethrow Bad_alloc)
      else eret \<lparr>ts_fd = fd\<rparr>)"

section \<open>Reading and writing\<close>

datatype io_status = Ok | Eof | Timeout | Closed | Error

record io_result =
  io_stat :: io_status
  io_bytes :: size_t
  io_error_code :: int

text \<open>How a coroutine stops: at a \<open>co_await\<close> of the readiness of a descriptor, or at its end.\<close>

datatype 'r turn = Waits int event int | Returns 'r | Raises exn

text \<open>A call repeated while it fails with one of the given errors; \<open>None\<close>: it is repeated for ever.\<close>

partial_function (option) retry :: "(int \<Rightarrow> bool) \<Rightarrow> ('k \<Rightarrow> (int + 'a) \<times> 'k) \<Rightarrow> 'k \<Rightarrow> ((int + 'a) \<times> 'k) option" where
  "retry again f k =
     (case f k of
        (Inl errno, k) \<Rightarrow> if again errno then retry again f k else Some (Inl errno, k)
      | (Inr x, k) \<Rightarrow> Some (Inr x, k))"

declare retry.simps [code]

definition read_turn ::
  "'k net \<Rightarrow> size_t \<Rightarrow> deadline \<Rightarrow> int \<Rightarrow> buffer \<Rightarrow> 'k \<Rightarrow> (io_result turn \<times> buffer \<times> 'k) option" where
  "read_turn net max_bytes dl fd output k =
     (case retry (\<lambda>errno. errno = EINTR) (nt_recv net fd (unat max_bytes)) k of
        None \<Rightarrow> None
      | Some (Inr received, k) \<Rightarrow>
          Some (if received = [] then (Returns \<lparr>io_stat = Eof, io_bytes = 0, io_error_code = 0\<rparr>, output, k)
                else let count = word_of_nat (length received) in
                  (case rbind (write_ptr received output) (has_written count) of
                     Inl e \<Rightarrow> (Raises e, output, k)
                   | Inr output \<Rightarrow> (Returns \<lparr>io_stat = Ok, io_bytes = count, io_error_code = 0\<rparr>, output, k)))
      | Some (Inl errno, k) \<Rightarrow>
          if errno \<noteq> EAGAIN then Some (Returns \<lparr>io_stat = Error, io_bytes = 0, io_error_code = errno\<rparr>, output, k)
          else (case remaining net dl k of (timeout, k) \<Rightarrow> Some (Waits fd READ timeout, output, k)))"

definition read_start ::
  "'k net \<Rightarrow> size_t \<Rightarrow> int \<Rightarrow> int \<Rightarrow> buffer \<Rightarrow> 'k \<Rightarrow> (deadline \<times> io_result turn \<times> buffer \<times> 'k) option" where
  "read_start net max_bytes timeout fd output k =
     (let none = \<lparr>dl_enabled = False, dl_deadline = 0\<rparr> in
      if fd < 0 then Some (none, Returns \<lparr>io_stat = Closed, io_bytes = 0, io_error_code = EBADF\<rparr>, output, k)
      else if max_bytes = 0 then Some (none, Returns \<lparr>io_stat = Ok, io_bytes = 0, io_error_code = 0\<rparr>, output, k)
      else case Deadline net timeout k of (dl, k) \<Rightarrow>
        (case ensure_writable max_bytes output of
           Inl e \<Rightarrow> Some (dl, Raises e, output, k)
         | Inr output \<Rightarrow> map_option (Pair dl) (read_turn net max_bytes dl fd output k)))"

definition read_resume ::
  "'k net \<Rightarrow> size_t \<Rightarrow> deadline \<Rightarrow> bool \<Rightarrow> int \<Rightarrow> buffer \<Rightarrow> 'k \<Rightarrow> (io_result turn \<times> buffer \<times> 'k) option" where
  "read_resume net max_bytes dl ready fd output k =
     (if \<not> ready
      then Some (Returns (if fd < 0 then \<lparr>io_stat = Closed, io_bytes = 0, io_error_code = EBADF\<rparr>
                          else \<lparr>io_stat = Timeout, io_bytes = 0, io_error_code = 0\<rparr>), output, k)
      else if fd < 0 then Some (Returns \<lparr>io_stat = Closed, io_bytes = 0, io_error_code = EBADF\<rparr>, output, k)
      else read_turn net max_bytes dl fd output k)"

text \<open>\<open>chunks\<close> records the bytes that the kernel has accepted, call by call.\<close>

partial_function (option) write_turn ::
  "'k net \<Rightarrow> bytes \<Rightarrow> deadline \<Rightarrow> int \<Rightarrow> size_t \<Rightarrow> bytes list \<Rightarrow> 'k \<Rightarrow> (io_result turn \<times> size_t \<times> bytes list \<times> 'k) option" where
  "write_turn net data dl fd written chunks k =
     (if written < word_of_nat (length data)
      then case retry (\<lambda>errno. errno = EINTR) (nt_send net fd (drop (unat written) data)) k of
          None \<Rightarrow> None
        | Some (Inr count, k) \<Rightarrow>
            if 0 < count
            then write_turn net data dl fd (written + word_of_nat count) (chunks @ [take count (drop (unat written) data)]) k
            else (case remaining net dl k of (timeout, k) \<Rightarrow> Some (Waits fd WRITE timeout, written, chunks, k))
        | Some (Inl errno, k) \<Rightarrow>
            if errno \<noteq> EAGAIN
            then Some (Returns \<lparr>io_stat = Error, io_bytes = written, io_error_code = errno\<rparr>, written, chunks, k)
            else (case remaining net dl k of (timeout, k) \<Rightarrow> Some (Waits fd WRITE timeout, written, chunks, k))
      else Some (Returns \<lparr>io_stat = Ok, io_bytes = written, io_error_code = 0\<rparr>, written, chunks, k))"

declare write_turn.simps [code]

definition write_start ::
  "'k net \<Rightarrow> bytes \<Rightarrow> int \<Rightarrow> int \<Rightarrow> 'k \<Rightarrow> (deadline \<times> io_result turn \<times> size_t \<times> bytes list \<times> 'k) option" where
  "write_start net data timeout fd k =
     (if fd < 0
      then Some (\<lparr>dl_enabled = False, dl_deadline = 0\<rparr>, Returns \<lparr>io_stat = Closed, io_bytes = 0, io_error_code = EBADF\<rparr>, 0, [], k)
      else case Deadline net timeout k of (dl, k) \<Rightarrow> map_option (Pair dl) (write_turn net data dl fd 0 [] k))"

definition write_resume ::
  "'k net \<Rightarrow> bytes \<Rightarrow> deadline \<Rightarrow> bool \<Rightarrow> int \<Rightarrow> size_t \<Rightarrow> bytes list \<Rightarrow> 'k \<Rightarrow> (io_result turn \<times> size_t \<times> bytes list \<times> 'k) option" where
  "write_resume net data dl ready fd written chunks k =
     (if \<not> ready
      then Some (Returns (if fd < 0 then \<lparr>io_stat = Closed, io_bytes = written, io_error_code = EBADF\<rparr>
                          else \<lparr>io_stat = Timeout, io_bytes = written, io_error_code = 0\<rparr>), written, chunks, k)
      else if fd < 0 then Some (Returns \<lparr>io_stat = Closed, io_bytes = written, io_error_code = EBADF\<rparr>, written, chunks, k)
      else write_turn net data dl fd written chunks k)"

section \<open>Listeners\<close>

record listener =
  tl_fd :: int
  tl_port :: "16 word"

definition htons :: "16 word \<Rightarrow> 16 word" where
  "htons x = push_bit 8 x OR drop_bit 8 x"

text \<open>\<open>ntohs\<close> is the same exchange of the two bytes.\<close>

definition ntohs :: "16 word \<Rightarrow> 16 word" where
  "ntohs x = push_bit 8 x OR drop_bit 8 x"

definition TcpListener :: "'k net \<Rightarrow> 16 word \<Rightarrow> string \<Rightarrow> int \<Rightarrow> ('k, listener) eff" where
  "TcpListener net port bind_address backlog =
     ebind (sys ''socket'' (nt_socket net (SOCK_STREAM OR SOCK_NONBLOCK OR SOCK_CLOEXEC))) (\<lambda>fd.
       ecatch
         (ebind (sys ''setsockopt SO_REUSEADDR'' (nt_setsockopt net fd SOL_SOCKET SO_REUSEADDR 1)) (\<lambda>_.
          case nt_inet_pton net bind_address of
            None \<Rightarrow> ethrow (Invalid_argument ''invalid IPv4 bind address'')
          | Some address \<Rightarrow>
              ebind (sys ''bind'' (nt_bind net fd address (htons port))) (\<lambda>_.
              ebind (sys ''listen'' (nt_listen net fd backlog)) (\<lambda>_.
              ebind (sys ''getsockname'' (nt_getsockname net fd)) (\<lambda>sin_port.
                eret \<lparr>tl_fd = fd, tl_port = ntohs sin_port\<rparr>)))))
         (\<lambda>e. ebind (emodify (nt_close net fd)) (\<lambda>_. ethrow e)))"

definition accept_turn :: "'k net \<Rightarrow> deadline \<Rightarrow> int \<Rightarrow> 'k \<Rightarrow> (int option turn \<times> 'k) option" where
  "accept_turn net dl fd k =
     (case retry (\<lambda>errno. errno = EINTR \<or> errno = ECONNABORTED) (nt_accept net fd) k of
        None \<Rightarrow> None
      | Some (Inr connection, k) \<Rightarrow> Some (Returns (Some connection), k)
      | Some (Inl errno, k) \<Rightarrow>
          if errno \<noteq> EAGAIN then Some (Raises (System_error errno ''accept4''), k)
          else (case remaining net dl k of (timeout, k) \<Rightarrow> Some (Waits fd READ timeout, k)))"

definition accept_start :: "'k net \<Rightarrow> int \<Rightarrow> int \<Rightarrow> 'k \<Rightarrow> (deadline \<times> int option turn \<times> 'k) option" where
  "accept_start net timeout fd k =
     (if fd < 0
      then Some (\<lparr>dl_enabled = False, dl_deadline = 0\<rparr>, Raises (Logic_error ''TcpListener is closed''), k)
      else case Deadline net timeout k of (dl, k) \<Rightarrow> map_option (Pair dl) (accept_turn net dl fd k))"

definition accept_resume :: "'k net \<Rightarrow> deadline \<Rightarrow> bool \<Rightarrow> int \<Rightarrow> 'k \<Rightarrow> (int option turn \<times> 'k) option" where
  "accept_resume net dl ready fd k =
     (if \<not> ready
      then Some (if fd < 0 then Raises (Logic_error ''TcpListener was closed while awaiting accept'') else Returns None, k)
      else if fd < 0 then Some (Raises (Logic_error ''TcpListener was closed while awaiting accept''), k)
      else accept_turn net dl fd k)"

definition listener_close :: "'k os \<Rightarrow> 'k net \<Rightarrow> listener \<Rightarrow> (('k, 'v, 'm) io_world_scheme, listener) eff" where
  "listener_close os net l =
     (if tl_fd l < 0 then eret l
      else
        ebind (cancel os (tl_fd l)) (\<lambda>_.
        ebind (on_kernel (emodify (nt_close net (tl_fd l)))) (\<lambda>_. eret (l\<lparr>tl_fd := -1\<rparr>))))"

section \<open>Whole calls\<close>

text \<open>
  What the rest of the program does while the coroutine is suspended: the result of the wait, the value
  of \<open>fd_\<close> and the state of the kernel at the resumption. A call is followed through the given
  resumptions; it may still be suspended after them.
\<close>

record 'k wake =
  wk_ready :: bool
  wk_fd :: int
  wk_kernel :: 'k

fun read_rest :: "'k net \<Rightarrow> size_t \<Rightarrow> deadline \<Rightarrow> 'k wake list \<Rightarrow> io_result turn \<times> buffer \<times> 'k \<Rightarrow> (io_result turn \<times> buffer \<times> 'k) option" where
  "read_rest net max_bytes dl (wk # wks) (Waits fd ev timeout, output, k) =
     Option.bind (read_resume net max_bytes dl (wk_ready wk) (wk_fd wk) output (wk_kernel wk)) (read_rest net max_bytes dl wks)"
| "read_rest net max_bytes dl wks t = Some t"

definition read_some :: "'k net \<Rightarrow> size_t \<Rightarrow> int \<Rightarrow> 'k wake list \<Rightarrow> int \<Rightarrow> buffer \<Rightarrow> 'k \<Rightarrow> (io_result turn \<times> buffer \<times> 'k) option" where
  "read_some net max_bytes timeout wks fd output k =
     Option.bind (read_start net max_bytes timeout fd output k) (\<lambda>(dl, t). read_rest net max_bytes dl wks t)"

fun write_rest ::
  "'k net \<Rightarrow> bytes \<Rightarrow> deadline \<Rightarrow> 'k wake list \<Rightarrow> io_result turn \<times> size_t \<times> bytes list \<times> 'k \<Rightarrow>
   (io_result turn \<times> size_t \<times> bytes list \<times> 'k) option" where
  "write_rest net data dl (wk # wks) (Waits fd ev timeout, written, chunks, k) =
     Option.bind (write_resume net data dl (wk_ready wk) (wk_fd wk) written chunks (wk_kernel wk)) (write_rest net data dl wks)"
| "write_rest net data dl wks t = Some t"

definition write_all ::
  "'k net \<Rightarrow> bytes \<Rightarrow> int \<Rightarrow> 'k wake list \<Rightarrow> int \<Rightarrow> 'k \<Rightarrow> (io_result turn \<times> size_t \<times> bytes list \<times> 'k) option" where
  "write_all net data timeout wks fd k =
     Option.bind (write_start net data timeout fd k) (\<lambda>(dl, t). write_rest net data dl wks t)"

section \<open>What the kernel promises\<close>

text \<open>\<open>recv\<close> returns at most the bytes asked for, \<open>send\<close> accepts at most the bytes it is given.\<close>

definition net_bounded :: "'k net \<Rightarrow> bool" where
  "net_bounded net \<longleftrightarrow>
     (\<forall>fd n k d k'. nt_recv net fd n k = (Inr d, k') \<longrightarrow> length d \<le> n) \<and>
     (\<forall>fd d k n k'. nt_send net fd d k = (Inr n, k') \<longrightarrow> n \<le> length d)"

lemma net_boundedD:
  assumes "net_bounded net"
  shows "nt_recv net fd n k = (Inr d, k') \<Longrightarrow> length d \<le> n" and "nt_send net fd d k = (Inr m, k') \<Longrightarrow> m \<le> length d"
  using assms unfolding net_bounded_def by blast+

text \<open>
  The kernel does not interrupt or abort calls for ever: some measure of its state decreases whenever a call
  fails in a way that is retried.
\<close>

definition interrupts_end :: "'k net \<Rightarrow> ('k \<Rightarrow> nat) \<Rightarrow> bool" where
  "interrupts_end net m \<longleftrightarrow>
     (\<forall>fd n k k'. nt_recv net fd n k = (Inl EINTR, k') \<longrightarrow> m k' < m k) \<and>
     (\<forall>fd d k k'. nt_send net fd d k = (Inl EINTR, k') \<longrightarrow> m k' < m k) \<and>
     (\<forall>fd k k'. nt_accept net fd k = (Inl EINTR, k') \<or> nt_accept net fd k = (Inl ECONNABORTED, k') \<longrightarrow> m k' < m k)"

text \<open>
  A kernel for the witnesses: its \<open>n\<close>-th call of \<open>recv\<close> or \<open>send\<close> gives the \<open>n\<close>-th outcome of a list, counted
  by the clock.
\<close>

definition demo_net :: "(int + bytes) list \<Rightarrow> (int + nat) list \<Rightarrow> demo_kernel net" where
  "demo_net recvs sends =
     \<lparr>nt_recv = (\<lambda>fd n k. (if nat (dk_clock k) < length recvs then map_sum id (take n) (recvs ! nat (dk_clock k)) else Inl EAGAIN,
        k\<lparr>dk_clock := dk_clock k + 1\<rparr>)),
      nt_send = (\<lambda>fd d k. (if nat (dk_clock k) < length sends then map_sum id (min (length d)) (sends ! nat (dk_clock k)) else Inl EAGAIN,
        k\<lparr>dk_clock := dk_clock k + 1\<rparr>)),
      nt_accept = (\<lambda>fd k. (Inl EAGAIN, k)), nt_shutdown = (\<lambda>fd k. k), nt_close = (\<lambda>fd k. k),
      nt_fcntl = (\<lambda>fd c a k. (Inr 0, k)), nt_socket = (\<lambda>flags k. (Inr 7, k)), nt_setsockopt = (\<lambda>fd l n v k. (Inr (), k)),
      nt_inet_pton = (\<lambda>a. Some 0), nt_bind = (\<lambda>fd a p k. (Inr (), k)), nt_listen = (\<lambda>fd n k. (Inr (), k)),
      nt_getsockname = (\<lambda>fd k. (Inr 0, k)), nt_now = (\<lambda>k. (dk_clock k, k))\<rparr>"

definition demo_clock :: "int \<Rightarrow> demo_kernel" where
  "demo_clock c = \<lparr>dk_reg = fmempty, dk_events = [], dk_clock = c\<rparr>"

lemma demo_net_bounded: "net_bounded (demo_net recvs sends)"
  by (auto simp: net_bounded_def demo_net_def map_sum_def split: if_splits sum.splits)

lemma demo_net_interrupts:
  "interrupts_end (demo_net recvs sends) (\<lambda>k. nat (int (length recvs + length sends) - dk_clock k))"
  by (auto simp: interrupts_end_def demo_net_def EINTR_def EAGAIN_def ECONNABORTED_def split: if_splits)

section \<open>Reading\<close>

text \<open>
  How a call of \<open>read_some\<close> on a buffer with the bytes \<open>old\<close> stands: still waiting with room for what
  the next \<open>recv\<close> may bring, or ended.
\<close>

definition read_ok :: "'k net \<Rightarrow> size_t \<Rightarrow> bytes \<Rightarrow> io_result turn \<times> buffer \<times> 'k \<Rightarrow> bool" where
  "read_ok net max_bytes old = (\<lambda>(t, b, k). buffer_inv b \<and>
     (case t of
        Waits fd ev timeout \<Rightarrow> ev = READ \<and> 0 \<le> fd \<and> contents b = old \<and> max_bytes \<le> writable b
      | Returns r \<Rightarrow>
          if io_stat r = Ok
          then \<exists>fd d k1 k2. nt_recv net fd (unat max_bytes) k1 = (Inr d, k2) \<and> d \<noteq> [] \<and>
                 contents b = old @ d \<and> unat (io_bytes r) = length d
          else contents b = old \<and> io_bytes r = 0
      | Raises e \<Rightarrow> False))"

lemma retry_result:
  assumes "retry again f k = Some (r, k')"
  shows "\<exists>k1. f k1 = (r, k') \<and> (\<forall>e. r = Inl e \<longrightarrow> \<not> again e)"
proof -
  let ?P = "\<lambda>again' f' k y. again' = again \<and> f' = f \<longrightarrow> (\<exists>k1. f k1 = y \<and> (\<forall>e. fst y = Inl e \<longrightarrow> \<not> again e))"
  have "?P again f k (r, k')"
    by (rule retry.raw_induct [OF _ assms, of ?P]) (auto split: prod.splits sum.splits if_splits)
  then show ?thesis by simp
qed

lemma read_turn_ok:
  assumes net: "net_bounded net" and b: "buffer_inv b" "max_bytes \<le> writable b" and fd: "0 \<le> fd"
    and st: "read_turn net max_bytes dl fd b k = Some y"
  shows "read_ok net max_bytes (contents b) y"
proof -
  obtain r k2 where r: "retry (\<lambda>errno. errno = EINTR) (nt_recv net fd (unat max_bytes)) k = Some (r, k2)"
    using st by (auto simp: read_turn_def split: option.splits)
  from retry_result [OF r] obtain k1 where k1: "nt_recv net fd (unat max_bytes) k1 = (r, k2)" by blast
  show ?thesis
  proof (cases r)
    case (Inl errno)
    with st r b fd show ?thesis by (auto simp: read_turn_def read_ok_def split: if_splits prod.splits)
  next
    case (Inr d)
    show ?thesis
    proof (cases "d = []")
      case True
      with st r Inr b show ?thesis by (auto simp: read_turn_def read_ok_def)
    next
      case False
      have len: "length d \<le> unat (writable b)" using net_boundedD(1) [OF net] k1 Inr b(2) by (force simp: word_le_nat_alt)
      then have u: "unat (word_of_nat (length d) :: size_t) = length d"
        using le_less_trans [OF _ unat_lt_64] by (intro unat_of_nat_64) simp
      from write_then_commit [OF b(1) len] obtain b1 b2 where "write_ptr d b = Inr b1" "has_written (word_of_nat (length d)) b1 = Inr b2"
        "buffer_inv b2" "contents b2 = contents b @ d" by blast
      moreover from this have "y = (Returns \<lparr>io_stat = Ok, io_bytes = word_of_nat (length d), io_error_code = 0\<rparr>, b2, k2)"
        using st r Inr False by (simp add: read_turn_def Let_def)
      ultimately show ?thesis using k1 Inr False u by (simp add: read_ok_def) blast
    qed
  qed
qed

lemma read_resume_ok:
  assumes net: "net_bounded net" and b: "buffer_inv b" "max_bytes \<le> writable b"
    and st: "read_resume net max_bytes dl ready fd b k = Some y"
  shows "read_ok net max_bytes (contents b) y"
proof (cases "ready \<and> 0 \<le> fd")
  case True
  with read_turn_ok [OF net b, of fd dl k y] st show ?thesis by (simp add: read_resume_def)
next
  case False
  with st b show ?thesis by (auto simp: read_resume_def read_ok_def split: if_splits)
qed

lemma read_rest_ok:
  assumes net: "net_bounded net"
  shows "read_ok net max_bytes old t \<Longrightarrow> read_rest net max_bytes dl wks t = Some y \<Longrightarrow> read_ok net max_bytes old y"
proof (induction wks arbitrary: t)
  case (Cons wk wks)
  obtain u b k where t: "t = (u, b, k)" by (metis prod_cases3)
  show ?case
  proof (cases u)
    case (Waits fd ev timeout)
    with Cons.prems t obtain t' where t': "read_resume net max_bytes dl (wk_ready wk) (wk_fd wk) b (wk_kernel wk) = Some t'"
        "read_rest net max_bytes dl wks t' = Some y" and b: "buffer_inv b" "contents b = old" "max_bytes \<le> writable b"
      by (auto simp: bind_eq_Some_conv read_ok_def)
    from read_resume_ok [OF net b(1,3) t'(1)] b(2) t'(2) Cons.IH show ?thesis by blast
  qed (use Cons.prems t in simp_all)
qed simp

lemma read_start_ok:
  assumes net: "net_bounded net" and b: "buffer_inv b" and room: "room_for (unat max_bytes) b" and fd: "0 \<le> fd" "max_bytes \<noteq> 0"
    and st: "read_start net max_bytes timeout fd b k = Some (dl, t)"
  shows "read_ok net max_bytes (contents b) t"
proof -
  obtain b' where b': "ensure_writable max_bytes b = Inr b'" "buffer_inv b'" "contents b' = contents b" "max_bytes \<le> writable b'"
    using ensure_writable_ok [OF b room] by blast
  obtain k' where "read_turn net max_bytes dl fd b' k' = Some t"
    using st fd b'(1) by (auto simp: read_start_def Let_def split: prod.splits)
  from read_turn_ok [OF net b'(2,4) fd(1) this] b'(3) show ?thesis by simp
qed

lemma read_some_spec:
  assumes "net_bounded net" and "buffer_inv b" and "0 \<le> fd" and "max_bytes \<noteq> 0"
    and "read_some net max_bytes timeout wks fd b k = Some (t, b', k')"
  shows "buffer_inv b' \<and>
    (case t of
       Waits fd ev timeout \<Rightarrow> ev = READ \<and> contents b' = contents b
     | Returns r \<Rightarrow>
         if io_stat r = Ok
         then \<exists>fd d k1 k2. nt_recv net fd (unat max_bytes) k1 = (Inr d, k2) \<and> d \<noteq> [] \<and>
                contents b' = contents b @ d \<and> unat (io_bytes r) = length d
         else contents b' = contents b \<and> io_bytes r = 0
     | Raises e \<Rightarrow> (\<exists>m. e = Length_error m) \<and> \<not> room_for (unat max_bytes) b \<and> b' = b)"
proof (cases "room_for (unat max_bytes) b")
  case True
  from assms(5) obtain dl t1 where t1: "read_start net max_bytes timeout fd b k = Some (dl, t1)"
      "read_rest net max_bytes dl wks t1 = Some (t, b', k')"
    by (auto simp: read_some_def bind_eq_Some_conv)
  from read_rest_ok [OF assms(1) read_start_ok [OF assms(1,2) True assms(3,4) t1(1)] t1(2)] show ?thesis
    by (auto simp: read_ok_def split: turn.splits)
next
  case False
  from ensure_writable_throws [OF assms(2) False] obtain m where m: "ensure_writable max_bytes b = Inl (Length_error m)" by blast
  with assms(2-5) False show ?thesis by (auto simp: read_some_def read_start_def Let_def bind_eq_Some_conv split: prod.splits)
qed



section \<open>Writing\<close>

text \<open>How a call of \<open>write_all\<close> stands: what the kernel has accepted is the beginning of the data.\<close>

definition write_ok :: "bytes \<Rightarrow> io_result turn \<times> size_t \<times> bytes list \<times> 'k \<Rightarrow> bool" where
  "write_ok data = (\<lambda>(t, written, chunks, k).
     unat written \<le> length data \<and> concat chunks = take (unat written) data \<and>
     (case t of
        Waits fd ev timeout \<Rightarrow> ev = WRITE \<and> unat written < length data
      | Returns r \<Rightarrow> io_bytes r = written \<and> (io_stat r = Ok \<longrightarrow> unat written = length data)
      | Raises e \<Rightarrow> False))"

lemma write_turn_ok:
  assumes net: "net_bounded net" and len: "length data < 2 ^ 64"
    and w: "unat written \<le> length data" "concat chunks = take (unat written) data"
    and st: "write_turn net data dl fd written chunks k = Some y"
  shows "write_ok data y"
proof -
  have u: "unat (word_of_nat (length data) :: size_t) = length data" by (rule unat_of_nat_64 [OF len])
  let ?P = "\<lambda>net' data' dl fd written chunks k y. net' = net \<and> data' = data \<and> unat written \<le> length data \<and>
      concat chunks = take (unat written) data \<longrightarrow> write_ok data y"
  have "?P net data dl fd written chunks k y"
  proof (rule write_turn.raw_induct [OF _ st, of ?P], intro impI, elim conjE)
    fix loop net' data' dl fd written chunks k y
    assume IH: "\<And>net' data' dl fd written chunks k y. loop net' data' dl fd written chunks k = Some y \<Longrightarrow>
        ?P net' data' dl fd written chunks k y"
      and step: "(if written < word_of_nat (length data')
        then case retry (\<lambda>errno. errno = EINTR) (nt_send net' fd (drop (unat written) data')) k of
            None \<Rightarrow> None
          | Some (Inr count, k) \<Rightarrow>
              if 0 < count
              then loop net' data' dl fd (written + word_of_nat count) (chunks @ [take count (drop (unat written) data')]) k
              else (case remaining net' dl k of (timeout, k) \<Rightarrow> Some (Waits fd WRITE timeout, written, chunks, k))
          | Some (Inl errno, k) \<Rightarrow>
              if errno \<noteq> EAGAIN
              then Some (Returns \<lparr>io_stat = Error, io_bytes = written, io_error_code = errno\<rparr>, written, chunks, k)
              else (case remaining net' dl k of (timeout, k) \<Rightarrow> Some (Waits fd WRITE timeout, written, chunks, k))
        else Some (Returns \<lparr>io_stat = Ok, io_bytes = written, io_error_code = 0\<rparr>, written, chunks, k)) = Some y"
      and eq: "net' = net" "data' = data" and w: "unat written \<le> length data" "concat chunks = take (unat written) data"
    show "write_ok data y"
    proof (cases "written < word_of_nat (length data)")
      case True
      then have less: "unat written < length data" by (simp add: word_less_nat_alt u)
      obtain r k2 where r: "retry (\<lambda>errno. errno = EINTR) (nt_send net fd (drop (unat written) data)) k = Some (r, k2)"
        using step True eq by (auto split: option.splits)
      show ?thesis
      proof (cases "\<exists>count. r = Inr count \<and> 0 < count")
        case True
        then obtain count where count: "r = Inr count" "0 < count" by blast
        obtain k1 where "nt_send net fd (drop (unat written) data) k1 = (Inr count, k2)" using retry_result [OF r] count by blast
        then have c: "unat written + count \<le> length data" using net_boundedD(2) [OF net] less by fastforce
        then have uc: "unat (word_of_nat count :: size_t) = count" using len by (intro unat_of_nat_64) simp
        then have "unat (written + word_of_nat count) = unat written + count" using c len by (subst unat_add_64) simp_all
        moreover have "loop net data dl fd (written + word_of_nat count) (chunks @ [take count (drop (unat written) data)]) k2 = Some y"
          using step \<open>written < word_of_nat (length data)\<close> r count eq by simp
        ultimately show ?thesis using IH [rule_format, of net data dl fd _ _ k2 y] c w(2) by (simp add: take_add)
      next
        case False
        with step r less w eq \<open>written < word_of_nat (length data)\<close> show ?thesis
          by (cases r) (auto simp: write_ok_def split: if_splits prod.splits)
      qed
    next
      case False
      then have "unat written = length data" using w(1) by (simp add: word_less_nat_alt u)
      with False step eq w show ?thesis by (auto simp: write_ok_def)
    qed
  qed
  with w show ?thesis by simp
qed

lemma write_rest_ok:
  assumes net: "net_bounded net" and len: "length data < 2 ^ 64"
  shows "write_ok data t \<Longrightarrow> write_rest net data dl wks t = Some y \<Longrightarrow> write_ok data y"
proof (induction wks arbitrary: t)
  case (Cons wk wks)
  obtain u written chunks k where t: "t = (u, written, chunks, k)" by (metis prod_cases4)
  show ?case
  proof (cases u)
    case (Waits fd ev timeout)
    with Cons.prems t obtain t' where
        t': "write_resume net data dl (wk_ready wk) (wk_fd wk) written chunks (wk_kernel wk) = Some t'" "write_rest net data dl wks t' = Some y"
      and w: "unat written \<le> length data" "concat chunks = take (unat written) data"
      by (auto simp: bind_eq_Some_conv write_ok_def)
    have "write_ok data t'"
    proof (cases "wk_ready wk \<and> 0 \<le> wk_fd wk")
      case True
      with t'(1) write_turn_ok [OF net len w] show ?thesis by (simp add: write_resume_def)
    next
      case False
      with t'(1) w show ?thesis by (auto simp: write_resume_def write_ok_def split: if_splits)
    qed
    with Cons.IH t'(2) show ?thesis by blast
  qed (use Cons.prems t in simp_all)
qed simp

lemma write_all_spec:
  assumes "net_bounded net" and "length data < 2 ^ 64" and "write_all net data timeout wks fd k = Some (t, written, chunks, k')"
  shows "concat chunks = take (unat written) data \<and>
    (case t of
       Waits fd ev timeout \<Rightarrow> ev = WRITE \<and> unat written < length data
     | Returns r \<Rightarrow> io_bytes r = written \<and> (io_stat r = Ok \<longrightarrow> concat chunks = data)
     | Raises e \<Rightarrow> False)"
proof -
  from assms(3) obtain dl t1 where t1: "write_start net data timeout fd k = Some (dl, t1)"
      "write_rest net data dl wks t1 = Some (t, written, chunks, k')"
    by (auto simp: write_all_def bind_eq_Some_conv)
  have "write_ok data t1"
  proof (cases "0 \<le> fd")
    case True
    then obtain k1 where "write_turn net data dl fd 0 [] k1 = Some t1"
      using t1(1) by (auto simp: write_start_def split: prod.splits)
    then show ?thesis by (rule write_turn_ok [OF assms(1,2), rotated 2]) simp_all
  next
    case False
    with t1(1) show ?thesis by (auto simp: write_start_def write_ok_def)
  qed
  from write_rest_ok [OF assms(1,2) this t1(2)] show ?thesis by (auto simp: write_ok_def split: turn.splits)
qed



section \<open>Termination\<close>

lemma retry_returns:
  assumes "\<And>k e k'. f k = (Inl e, k') \<Longrightarrow> again e \<Longrightarrow> (m :: 'k \<Rightarrow> nat) k' < m k"
  shows "\<exists>y. retry again f k = Some y"
proof (induction "m k" arbitrary: k rule: less_induct)
  case less
  obtain r k1 where r: "f k = (r, k1)" by force
  show ?case
  proof (cases "\<exists>e. r = Inl e \<and> again e")
    case True
    then obtain e where "r = Inl e" "again e" by blast
    with r assms [of k e k1] less show ?thesis by (subst retry.simps) simp
  next
    case False
    with r show ?thesis by (subst retry.simps) (auto split: sum.splits)
  qed
qed

lemma write_turn_returns:
  assumes net: "net_bounded net" and len: "length data < 2 ^ 64" and m: "interrupts_end net m"
  shows "\<exists>y. write_turn net data dl fd written chunks k = Some y"
proof (induction "length data - unat written" arbitrary: written chunks k rule: less_induct)
  case less
  have u: "unat (word_of_nat (length data) :: size_t) = length data" by (rule unat_of_nat_64 [OF len])
  show ?case
  proof (cases "written < word_of_nat (length data)")
    case True
    then have lt: "unat written < length data" by (simp add: word_less_nat_alt u)
    have "\<exists>y. retry (\<lambda>errno. errno = EINTR) (nt_send net fd (drop (unat written) data)) k = Some y"
      by (rule retry_returns [of _ _ m]) (use m in \<open>simp add: interrupts_end_def\<close>)
    then obtain r k2 where r: "retry (\<lambda>errno. errno = EINTR) (nt_send net fd (drop (unat written) data)) k = Some (r, k2)" by auto
    show ?thesis
    proof (cases "\<exists>count. r = Inr count \<and> 0 < count")
      case True
      then obtain count where count: "r = Inr count" "0 < count" by blast
      obtain k1 where "nt_send net fd (drop (unat written) data) k1 = (Inr count, k2)" using retry_result [OF r] count by blast
      then have c: "unat written + count \<le> length data" using net_boundedD(2) [OF net] lt by fastforce
      then have uc: "unat (word_of_nat count :: size_t) = count" using len by (intro unat_of_nat_64) simp
      then have "unat (written + word_of_nat count) = unat written + count" using c len by (subst unat_add_64) simp_all
      with less [of "written + word_of_nat count"] lt count r \<open>written < word_of_nat (length data)\<close> show ?thesis
        by (subst write_turn.simps) simp
    next
      case False
      with r \<open>written < word_of_nat (length data)\<close> show ?thesis
        by (subst write_turn.simps) (auto split: sum.splits prod.splits)
    qed
  next
    case False
    then show ?thesis by (subst write_turn.simps) simp
  qed
qed

text \<open>
  C36: between two suspensions every operation comes to an end. Unless the kernel interrupts calls
  for ever, \<open>read_some\<close>, \<open>write_all\<close> and \<open>accept\<close> reach a suspension or their end, at the start and after each
  resumption; \<open>write_all\<close> sends at most as many pieces as there are bytes.
\<close>

theorem stream_turns_return:
  assumes "net_bounded net" and "length data < 2 ^ 64" and "interrupts_end net m"
  shows "(\<exists>y. read_start net max_bytes timeout fd b k = Some y) \<and> (\<exists>y. read_resume net max_bytes dl ready fd b k = Some y) \<and>
    (\<exists>y. write_start net data timeout fd k = Some y) \<and> (\<exists>y. write_resume net data dl ready fd written chunks k = Some y) \<and>
    (\<exists>y. accept_start net timeout fd k = Some y) \<and> (\<exists>y. accept_resume net dl ready fd k = Some y)"
proof -
  have rc: "\<exists>y. retry (\<lambda>errno. errno = EINTR) (nt_recv net fd (unat max_bytes)) k = Some y" for k
    by (rule retry_returns [of _ _ m]) (use assms(3) in \<open>simp add: interrupts_end_def\<close>)
  have r: "\<exists>y. read_turn net max_bytes dl fd b k = Some y" for dl b k
    using rc [of k] by (auto simp: read_turn_def Let_def split: option.split sum.split prod.split)
  have ac: "\<exists>y. retry (\<lambda>errno. errno = EINTR \<or> errno = ECONNABORTED) (nt_accept net fd) k = Some y" for k
    by (rule retry_returns [of _ _ m]) (use assms(3) in \<open>auto simp: interrupts_end_def\<close>)
  have a: "\<exists>y. accept_turn net dl fd k = Some y" for dl k
    using ac [of k] by (auto simp: accept_turn_def split: option.split sum.split prod.split)
  note w = write_turn_returns [OF assms]
  show ?thesis using r a w
    by (auto simp: read_start_def read_resume_def write_start_def write_resume_def accept_start_def accept_resume_def Let_def
        split: prod.split sum.split)
qed

theorem stream_turns_return_witness:
  "\<exists>y. write_resume (demo_net [] [Inr 2, Inl EINTR, Inr 3]) ''hello'' \<lparr>dl_enabled = False, dl_deadline = 0\<rparr> True 5 0 [] (demo_clock 0) = Some y"
  using stream_turns_return [OF demo_net_bounded _ demo_net_interrupts, of "''hello''" "[]" "[Inr 2, Inl EINTR, Inr 3]" 1 0 5 "mkbuf []"
      "demo_clock 0" "\<lparr>dl_enabled = False, dl_deadline = 0\<rparr>" True 0 "[]"] by simp

section \<open>Deadlines\<close>

text \<open>The remaining time reaches the deadline and exceeds it by less than a millisecond.\<close>

lemma remaining_bounds:
  assumes "dl_enabled dl" and "nt_now net k = (now, k')" and "remaining net dl k = (ms, k'')"
  shows "0 \<le> ms \<and> dl_deadline dl \<le> now + ms * ns_per_ms \<and> (now < dl_deadline dl \<longrightarrow> now + ms * ns_per_ms < dl_deadline dl + ns_per_ms)"
proof (cases "dl_deadline dl \<le> now")
  case True
  with assms show ?thesis by (auto simp: remaining_def)
next
  case False
  let ?left = "dl_deadline dl - now"
  have ms: "ms = (if ?left div ns_per_ms * ns_per_ms < ?left then ?left div ns_per_ms + 1 else ?left div ns_per_ms)"
    using assms False by (simp add: remaining_def Let_def)
  define q r where "q = ?left div ns_per_ms" and "r = ?left mod ns_per_ms"
  have "dl_deadline dl = now + q * 1000000 + r" "0 \<le> r" "r < 1000000" by (simp_all add: q_def r_def ns_per_ms_def)
  moreover have "0 \<le> q" unfolding q_def using False by (simp add: ns_per_ms_def pos_imp_zdiv_nonneg_iff)
  ultimately show ?thesis unfolding ms q_def [symmetric] by (simp add: ns_per_ms_def)
qed

section \<open>Closing\<close>



section \<open>Descriptors\<close>

text \<open>
  What the kernel's documentation promises of the set \<open>opened\<close> of open descriptors: \<open>socket\<close> and \<open>accept4\<close> open a
  fresh one when they succeed, \<open>close\<close> closes, and no other call that is used here changes the set.
\<close>

definition opens :: "('k \<Rightarrow> int set) \<Rightarrow> ('k \<Rightarrow> (int + int) \<times> 'k) \<Rightarrow> bool" where
  "opens opened f \<longleftrightarrow>
     (\<forall>k r k'. f k = (r, k') \<longrightarrow>
        (case r of Inl e \<Rightarrow> opened k' = opened k | Inr fd \<Rightarrow> 0 \<le> fd \<and> fd \<notin> opened k \<and> opened k' = insert fd (opened k)))"

definition fd_contract :: "'k os \<Rightarrow> 'k net \<Rightarrow> ('k \<Rightarrow> int set) \<Rightarrow> bool" where
  "fd_contract os net opened \<longleftrightarrow>
     (\<forall>flags. opens opened (nt_socket net flags)) \<and> (\<forall>fd. opens opened (nt_accept net fd)) \<and>
     (\<forall>fd k. opened (nt_close net fd k) = opened k - {fd}) \<and>
     (\<forall>fd k. opened (nt_shutdown net fd k) = opened k) \<and>
     (\<forall>fd c a k. opened (snd (nt_fcntl net fd c a k)) = opened k) \<and>
     (\<forall>fd l n v k. opened (snd (nt_setsockopt net fd l n v k)) = opened k) \<and>
     (\<forall>fd a p k. opened (snd (nt_bind net fd a p k)) = opened k) \<and>
     (\<forall>fd n k. opened (snd (nt_listen net fd n k)) = opened k) \<and>
     (\<forall>fd k. opened (snd (nt_getsockname net fd k)) = opened k) \<and>
     (\<forall>p c fd e k. opened (snd (os_epoll_ctl os p c fd e k)) = opened k)"

lemma fd_contractD:
  assumes "fd_contract os net opened"
  shows "opens opened (nt_socket net flags)" and "opens opened (nt_accept net fd)"
    and "opened (nt_close net fd k) = opened k - {fd}" and "opened (nt_shutdown net fd k) = opened k"
    and "opened (snd (nt_fcntl net fd c a k)) = opened k" and "opened (snd (nt_setsockopt net fd l n v k)) = opened k"
    and "opened (snd (nt_bind net fd ad p k)) = opened k" and "opened (snd (nt_listen net fd m k)) = opened k"
    and "opened (snd (nt_getsockname net fd k)) = opened k" and "opened (snd (os_epoll_ctl os ep op fd e k)) = opened k"
  using assms by (simp_all add: fd_contract_def)

lemma opensD:
  "opens opened f \<Longrightarrow> f k = (r, k') \<Longrightarrow>
     (case r of Inl e \<Rightarrow> opened k' = opened k | Inr fd \<Rightarrow> 0 \<le> fd \<and> fd \<notin> opened k \<and> opened k' = insert fd (opened k))"
  unfolding opens_def by blast

lemma preserves_sys: "(\<And>k. opened (snd (f k)) = opened k) \<Longrightarrow> preserves opened (sys what f)"
  unfolding preserves_def
proof
  fix k
  assume f: "\<And>k. opened (snd (f k)) = opened k"
  obtain r k' where "f k = (r, k')" by force
  with f [of k] show "opened (snd (sys what f k)) = opened k" by (cases r) (simp_all add: sys_def)
qed

lemma wp_sys:
  assumes "\<And>x k'. Q x k'" and "\<And>errno k'. E (System_error errno what) k'"
  shows "wp (sys what f) Q E k"
proof -
  obtain r k' where "f k = (r, k')" by force
  then show ?thesis using assms by (cases r) (simp_all add: wp_def sys_def)
qed

text \<open>A constructor that closes its descriptor when its body throws.\<close>

definition guarded :: "'k net \<Rightarrow> int \<Rightarrow> ('k, 'a) eff \<Rightarrow> ('k, 'a) eff" where
  "guarded net fd m = ecatch m (\<lambda>e. ebind (emodify (nt_close net fd)) (\<lambda>_. ethrow e))"

lemma guarded_opens:
  assumes c: "fd_contract os net opened" and keeps: "preserves opened m" and ok: "wp m (\<lambda>x _. Q x) (\<lambda>_ _. True) k"
    and st: "guarded net fd m k = (r, k')"
  shows "case r of Inl e \<Rightarrow> opened k' = opened k - {fd} | Inr x \<Rightarrow> Q x \<and> opened k' = opened k"
proof -
  obtain b k2 where b: "m k = (b, k2)" by force
  have k2: "opened k2 = opened k" using preserves_result [OF keeps b] .
  show ?thesis
  proof (cases b)
    case (Inl e)
    then have "e \<noteq> Undefined_behaviour" using ok b by (simp add: wp_def)
    with st b Inl k2 fd_contractD(3) [OF c, of fd k2] show ?thesis by (auto simp: guarded_def)
  next
    case (Inr x)
    with st b ok k2 show ?thesis by (auto simp: guarded_def wp_def)
  qed
qed

lemma TcpListener_opens:
  assumes c: "fd_contract os net opened" and st: "TcpListener net port address backlog k = (r, k')"
  shows "case r of
      Inl e \<Rightarrow> opened k' = opened k
    | Inr l \<Rightarrow> 0 \<le> tl_fd l \<and> tl_fd l \<notin> opened k \<and> opened k' = insert (tl_fd l) (opened k)"
proof -
  note cD = fd_contractD [OF c]
  obtain f k1 where f: "nt_socket net (SOCK_STREAM OR SOCK_NONBLOCK OR SOCK_CLOEXEC) k = (f, k1)" by force
  show ?thesis
  proof (cases f)
    case (Inl e)
    with st f opensD [OF cD(1) f] show ?thesis by (auto simp: TcpListener_def ebind_def sys_def)
  next
    case (Inr fd)
    let ?body = "ebind (sys ''setsockopt SO_REUSEADDR'' (nt_setsockopt net fd SOL_SOCKET SO_REUSEADDR 1)) (\<lambda>_.
          case nt_inet_pton net address of
            None \<Rightarrow> ethrow (Invalid_argument ''invalid IPv4 bind address'')
          | Some a \<Rightarrow>
              ebind (sys ''bind'' (nt_bind net fd a (htons port))) (\<lambda>_.
              ebind (sys ''listen'' (nt_listen net fd backlog)) (\<lambda>_.
              ebind (sys ''getsockname'' (nt_getsockname net fd)) (\<lambda>sin_port.
                eret \<lparr>tl_fd = fd, tl_port = ntohs sin_port\<rparr>))))"
    have keeps: "preserves opened ?body"
      by (cases "nt_inet_pton net address") (simp_all, intro preserve_rules preserves_sys cD, intro preserve_rules preserves_sys cD)
    have "wp ?body (\<lambda>l _. tl_fd l = fd) (\<lambda>_ _. True) k1"
      by (cases "nt_inet_pton net address") (simp_all add: wp_ebind wp_sys)
    moreover have "guarded net fd ?body k1 = (r, k')"
      using st f Inr unfolding TcpListener_def guarded_def by (simp add: ebind_def sys_def)
    ultimately have "case r of Inl e \<Rightarrow> opened k' = opened k1 - {fd} | Inr l \<Rightarrow> tl_fd l = fd \<and> opened k' = opened k1"
      by (rule guarded_opens [OF c keeps])
    with opensD [OF cD(1) f] Inr show ?thesis by (auto split: sum.splits)
  qed
qed

lemma TcpStream_opens:
  assumes c: "fd_contract os net opened" and fd: "0 \<le> fd" and st: "TcpStream net fd k = (r, k')"
  shows "case r of Inl e \<Rightarrow> opened k' = opened k - {fd} | Inr s \<Rightarrow> ts_fd s = fd \<and> opened k' = opened k"
proof -
  let ?body = "ebind (set_nonblocking_and_cloexec net fd) (\<lambda>_. eret \<lparr>ts_fd = fd\<rparr>)"
  have "preserves opened ?body"
    unfolding set_nonblocking_and_cloexec_def by (intro preserve_rules preserves_sys fd_contractD [OF c])
  moreover have "wp ?body (\<lambda>s _. ts_fd s = fd) (\<lambda>_ _. True) k"
    by (simp add: set_nonblocking_and_cloexec_def wp_ebind wp_sys)
  moreover have "guarded net fd ?body k = (r, k')" using st fd by (simp add: TcpStream_def guarded_def)
  ultimately show ?thesis by (rule guarded_opens [OF c])
qed

lemma preserves_comp: "preserves f m \<Longrightarrow> preserves (\<lambda>w. g (f w)) m"
  by (simp add: preserves_def)

lemma kernel_complete: "preserves lp_kernel (complete fd ev b)"
  by (rule preserves_complete) (simp_all add: preserves_def on_heap_def split: sum.split)

lemma cancel_opens:
  fixes os :: "'k os"
  assumes "fd_contract os net opened"
  shows "preserves (\<lambda>w :: ('k, 'v, 'm) io_world_scheme. opened (lp_kernel w)) (cancel os fd)"
proof (rule preserves_applied)
  fix w :: "('k, 'v, 'm) io_world_scheme"
  let ?f = "\<lambda>w :: ('k, 'v, 'm) io_world_scheme. opened (lp_kernel w)"
  have "preserves ?f (remove_channel os p ch)" for p and ch :: "(int \<times> event) channel"
    unfolding preserves_def remove_channel_def ctl_del_def epoll_ctl_def ebind_def
    using fd_contractD(10) [OF assms] by (auto split: prod.split simp: prod_eq_iff)
  moreover have "preserves ?f (complete fd ev b)" for ev b
    by (rule preserves_comp [OF kernel_complete])
  ultimately have body: "preserves ?f (ebind (if r
                 then ebind (remove_channel os p ch)
                        (\<lambda>_. emodify (modify_fd fd (fs_registered_update (\<lambda>_. False))))
                 else eret ()) (\<lambda>_.
          ebind (complete fd READ False) (\<lambda>_.
          ebind (complete fd WRITE False) (\<lambda>_. emodify (erase_fd fd)))))" for r p and ch :: "(int \<times> event) channel"
    by (intro preserve_rules) (simp_all add: erase_fd_def preserves_modify_fd [of ?f])
  show "?f (snd (cancel os fd w)) = ?f w"
    using preservesD [OF body] unfolding cancel_def by (cases "fmlookup (io_fd_states w) fd") (simp_all del: if_split)
qed

lemma stream_close_opens:
  fixes os :: "'k os" and w :: "('k, 'v, 'm) io_world_scheme"
  assumes c: "fd_contract os net opened" and st: "stream_close os net s w = (Inr s', w')"
  shows "opened (lp_kernel w') = (if ts_fd s < 0 then opened (lp_kernel w) else opened (lp_kernel w) - {ts_fd s})"
proof (cases "ts_fd s < 0")
  case False
  with st obtain w1 where "cancel os (ts_fd s) w = (Inr (), w1)"
      "w' = w1\<lparr>lp_kernel := nt_close net (ts_fd s) (nt_shutdown net (ts_fd s) (lp_kernel w1))\<rparr>"
    by (auto simp: stream_close_def on_kernel_def ebind_eq_Inr)
  with preserves_result [OF cancel_opens [OF c], of "ts_fd s" w] False fd_contractD(3,4) [OF c] show ?thesis by simp
qed (use st in \<open>simp add: stream_close_def\<close>)

lemma stream_close_shuts: "stream_close os net s w = (Inr s', w') \<Longrightarrow> ts_fd s' < 0"
  by (auto simp: stream_close_def ebind_eq_Inr split: if_splits)

text \<open>
  C38: no operation loses a descriptor or closes one that is not its own. A constructor of a listener
  that returns has opened exactly its own descriptor, one that throws none; a constructor of a stream, and \<open>adopt\<close>, which
  take over a descriptor, either own it afterwards or have closed it; \<open>close\<close> closes exactly the descriptor of
  the stream.
\<close>

theorem descriptors_not_lost:
  assumes "fd_contract os net opened" and "0 \<le> fd" and "fmlookup (io_fd_states w) fd = None"
  shows "(case TcpListener net port address backlog k of
       (Inl e, k') \<Rightarrow> opened k' = opened k
     | (Inr l, k') \<Rightarrow> 0 \<le> tl_fd l \<and> tl_fd l \<notin> opened k \<and> opened k' = insert (tl_fd l) (opened k)) \<and>
    (case TcpStream net fd k of
       (Inl e, k') \<Rightarrow> opened k' = opened k - {fd}
     | (Inr s, k') \<Rightarrow> ts_fd s = fd \<and> opened k' = opened k) \<and>
    (case adopt os net a1 a2 fd w of
       (Inl e, w') \<Rightarrow> opened (lp_kernel w') = opened (lp_kernel w) - {fd}
     | (Inr s, w') \<Rightarrow> ts_fd s = fd \<and> w' = w) \<and>
    (case stream_close os net \<lparr>ts_fd = fd\<rparr> w2 of
       (Inl e, w') \<Rightarrow> True
     | (Inr s, w') \<Rightarrow> opened (lp_kernel w') = opened (lp_kernel w2) - {fd} \<and> \<not> is_open s)"
proof (intro conjI)
  show "case TcpListener net port address backlog k of
       (Inl e, k') \<Rightarrow> opened k' = opened k
     | (Inr l, k') \<Rightarrow> 0 \<le> tl_fd l \<and> tl_fd l \<notin> opened k \<and> opened k' = insert (tl_fd l) (opened k)"
    using TcpListener_opens [OF assms(1), of port address backlog k] by (auto split: prod.split sum.split)
  show "case TcpStream net fd k of
       (Inl e, k') \<Rightarrow> opened k' = opened k - {fd} | (Inr s, k') \<Rightarrow> ts_fd s = fd \<and> opened k' = opened k"
    using TcpStream_opens [OF assms(1,2), of k] by (auto split: prod.split sum.split)
  have close: "stream_close os net \<lparr>ts_fd = fd\<rparr> w =
      (Inr \<lparr>ts_fd = -1\<rparr>, w\<lparr>lp_kernel := nt_close net fd (nt_shutdown net fd (lp_kernel w))\<rparr>)"
    using assms(2,3) by (simp add: stream_close_def cancel_def on_kernel_def ebind_def)
  note closed = fd_contractD(3,4) [OF assms(1)]
  show "case stream_close os net \<lparr>ts_fd = fd\<rparr> w2 of
      (Inl e, w') \<Rightarrow> True | (Inr s, w') \<Rightarrow> opened (lp_kernel w') = opened (lp_kernel w2) - {fd} \<and> \<not> is_open s"
    using stream_close_opens [OF assms(1), of "\<lparr>ts_fd = fd\<rparr>" w2] assms(2)
    by (auto simp: is_open_def split: prod.split sum.split dest: stream_close_shuts)
  show "case adopt os net a1 a2 fd w of
      (Inl e, w') \<Rightarrow> opened (lp_kernel w') = opened (lp_kernel w) - {fd} | (Inr s, w') \<Rightarrow> ts_fd s = fd \<and> w' = w"
    using assms(2) by (simp add: adopt_def ebind_def on_kernel_def close closed)
qed

text \<open>A kernel whose state is the list of its open descriptors.\<close>

definition fd_net :: "int list net" where
  "fd_net =
     \<lparr>nt_recv = (\<lambda>fd n k. (Inl EAGAIN, k)), nt_send = (\<lambda>fd d k. (Inl EAGAIN, k)), nt_accept = (\<lambda>fd k. (Inl EAGAIN, k)),
      nt_shutdown = (\<lambda>fd k. k), nt_close = (\<lambda>fd k. filter (\<lambda>x. x \<noteq> fd) k),
      nt_fcntl = (\<lambda>fd c a k. (if a = 0 then Inr 0 else Inl EBADF, k)),
      nt_socket = (\<lambda>flags k. (let fd = int (Suc (sum_list (map nat k))) in (Inr fd, fd # k))), nt_setsockopt = (\<lambda>fd l n v k. (Inr (), k)),
      nt_inet_pton = (\<lambda>a. Some 0), nt_bind = (\<lambda>fd a p k. (Inr (), k)), nt_listen = (\<lambda>fd n k. (Inr (), k)),
      nt_getsockname = (\<lambda>fd k. (Inr 0, k)), nt_now = (\<lambda>k. (0, k))\<rparr>"

definition fd_os :: "int list os" where
  "fd_os = \<lparr>os_epoll_create1 = (\<lambda>k. (Inr 3, k)), os_epoll_ctl = (\<lambda>p c fd e k. (None, k)), os_epoll_wait = (\<lambda>p n t k. (Inr [], k)),
     os_close = (\<lambda>fd k. k), os_now = (\<lambda>k. (0, k))\<rparr>"

lemma fd_net_contract: "fd_contract fd_os fd_net set"
proof -
  have "int (Suc (sum_list (map nat k))) \<notin> set k" for k
  proof
    assume "int (Suc (sum_list (map nat k))) \<in> set k"
    then have "Suc (sum_list (map nat k)) \<in> set (map nat k)" by force
    from member_le_sum_list [OF this] show False by simp
  qed
  then show ?thesis by (auto simp: fd_contract_def opens_def fd_net_def fd_os_def Let_def)
qed

theorem descriptors_not_lost_witness:
  "(case TcpStream fd_net 7 [5, 7] of (Inl e, k') \<Rightarrow> set k' = {5} | (Inr s, k') \<Rightarrow> False) \<and>
   (case TcpListener fd_net 8080 ''0.0.0.0'' 128 [5, 7] of (Inl e, k') \<Rightarrow> False | (Inr l, k') \<Rightarrow> set k' = {tl_fd l, 5, 7})"
proof -
  let ?w = "snd (IoContext_new fd_os [5, 7]) :: (int list, nat) run_world"
  have "fmlookup (io_fd_states ?w) 7 = None" by (simp add: IoContext_new_def init_poller_def fd_os_def)
  note d = descriptors_not_lost [OF fd_net_contract _ this, where port = 8080 and address = "''0.0.0.0''" and backlog = 128 and k = "[5, 7]"
      and ?w2.0 = ?w and ?a1.0 = True and ?a2.0 = True]
  have "isl (fst (TcpStream fd_net 7 [5, 7]))" "\<not> isl (fst (TcpListener fd_net 8080 ''0.0.0.0'' 128 [5, 7]))" by code_simp+
  with d show ?thesis by (auto split: prod.splits sum.splits)
qed

end
