(* ===== verification/Tcp_Connection.thy ===== *)
theory Tcp_Connection
  imports Tcp_Stream
begin

text \<open>
  \<open>TcpConnection\<close> of \<open>include/tinycoro/tcp_connection.h\<close> and \<open>src/tcp_connection.cpp\<close>, the connection of the
  callback-oriented variant of the library. Connections are objects at addresses, kept alive by the
  shared pointers to them; touching a connection that is gone is undefined.
\<close>

section \<open>State\<close>

text \<open>
  A \<open>std::function\<close> is a number that stands for the function it holds, \<open>None\<close> when it is empty. \<open>cn_sent\<close> records
  the bytes that the kernel has accepted for the connection. The members \<open>channel_.fd\<close>, \<open>on_read\<close> and \<open>on_write\<close>
  never change; see \<open>channel_of\<close>.
\<close>

record connection =
  cn_fd :: int
  cn_started :: bool
  cn_closed :: bool
  cn_interest :: event
  cn_read :: buffer
  cn_write :: buffer
  cn_on_message :: "nat option"
  cn_on_close :: "nat option"
  cn_sent :: bytes

text \<open>The members of the \<open>TcpServer\<close> that accepts the connections, apart from its table of connections.\<close>

record server =
  sv_listen_fd :: int
  sv_started :: bool
  sv_on_connection :: "nat option"
  sv_on_close :: "nat option"
  sv_on_message :: "nat option"

text \<open>
  The event loop, the kernel and the objects. The shared pointers to a connection are those in \<open>cw_table\<close>, the
  \<open>connections_\<close> of the server, those that the program keeps in variables of its own, \<open>cw_held\<close>, and those in
  arguments and local variables of the calls in progress, \<open>cw_pins\<close>. Address 1 is that of \<open>accept_channel_\<close>,
  the connections have the addresses from 2 on.
\<close>

record 'k conn_world = "'k loop_world" +
  cw_server :: server
  cw_conns :: "(nat, connection) fmap"
  cw_next :: nat
  cw_table :: "(int, nat) fmap"
  cw_held :: "nat list"
  cw_pins :: "nat list"

definition channel_of :: "nat \<Rightarrow> connection \<Rightarrow> (nat \<times> event) channel" where
  "channel_of p c = \<lparr>ch_fd = cn_fd c, ch_on_read = Some (p, READ), ch_on_write = Some (p, WRITE), ch_interest = cn_interest c\<rparr>"

definition with_conn :: "nat \<Rightarrow> (connection \<Rightarrow> (('k, 'm) conn_world_scheme, 'a) eff) \<Rightarrow> (('k, 'm) conn_world_scheme, 'a) eff" where
  "with_conn p f w = (case fmlookup (cw_conns w) p of None \<Rightarrow> (Inl Undefined_behaviour, w) | Some c \<Rightarrow> f c w)"

definition set_conn :: "nat \<Rightarrow> (connection \<Rightarrow> connection) \<Rightarrow> (('k, 'm) conn_world_scheme, unit) eff" where
  "set_conn p f = with_conn p (\<lambda>c. emodify (\<lambda>w. w\<lparr>cw_conns := fmupd p (f c) (cw_conns w)\<rparr>))"

section \<open>Lifetime\<close>

definition destroy_conn :: "'k os \<Rightarrow> 'k net \<Rightarrow> nat \<Rightarrow> (('k, 'm) conn_world_scheme, unit) eff" where
  "destroy_conn os net p =
     with_conn p (\<lambda>c.
       ebind (if cn_started c \<and> \<not> cn_closed c then remove_channel os p (channel_of p c) else eret ()) (\<lambda>_.
       ebind (if 0 \<le> cn_fd c then on_kernel (emodify (nt_close net (cn_fd c))) else eret ()) (\<lambda>_.
         emodify (\<lambda>w. w\<lparr>cw_conns := fmdrop p (cw_conns w)\<rparr>))))"

text \<open>The end of a shared pointer to the connection at \<open>p\<close>.\<close>

definition referenced :: "nat \<Rightarrow> ('k, 'm) conn_world_scheme \<Rightarrow> bool" where
  "referenced p w \<longleftrightarrow> p |\<in>| fmran (cw_table w) \<or> p \<in> set (cw_held w) \<or> p \<in> set (cw_pins w)"

definition release :: "'k os \<Rightarrow> 'k net \<Rightarrow> nat \<Rightarrow> (('k, 'm) conn_world_scheme, unit) eff" where
  "release os net p w = (if referenced p w then (Inr (), w) else destroy_conn os net p w)"

definition pinned :: "'k os \<Rightarrow> 'k net \<Rightarrow> nat \<Rightarrow> (('k, 'm) conn_world_scheme, 'a) eff \<Rightarrow> (('k, 'm) conn_world_scheme, 'a) eff" where
  "pinned os net p m w =
     (case m (w\<lparr>cw_pins := p # cw_pins w\<rparr>) of
        (r, w1) \<Rightarrow>
          (case release os net p (w1\<lparr>cw_pins := remove1 p (cw_pins w1)\<rparr>) of
             (Inl e, w2) \<Rightarrow> (Inl e, w2)
           | (Inr _, w2) \<Rightarrow> (r, w2)))"

section \<open>Operations\<close>

text \<open>The buffers are members, constructed before the body checks the arguments.\<close>

definition TcpConnection :: "int \<Rightarrow> nat \<Rightarrow> connection result" where
  "TcpConnection fd loop =
     rbind (Buffer_new kInitialSize) (\<lambda>rb.
     rbind (Buffer_new kInitialSize) (\<lambda>wb.
       if fd < 0 \<or> loop = 0 then Inl (Invalid_argument ''invalid TcpConnection'')
       else Inr \<lparr>cn_fd = fd, cn_started = False, cn_closed = False, cn_interest = READ, cn_read = rb, cn_write = wb,
                  cn_on_message = None, cn_on_close = None, cn_sent = []\<rparr>))"

definition set_message_callback :: "nat \<Rightarrow> nat \<Rightarrow> (('k, 'm) conn_world_scheme, unit) eff" where
  "set_message_callback p f = set_conn p (cn_on_message_update (\<lambda>_. Some f))"

definition set_close_callback :: "nat \<Rightarrow> nat \<Rightarrow> (('k, 'm) conn_world_scheme, unit) eff" where
  "set_close_callback p f = set_conn p (cn_on_close_update (\<lambda>_. Some f))"

definition conn_start :: "'k os \<Rightarrow> nat \<Rightarrow> (('k, 'm) conn_world_scheme, unit) eff" where
  "conn_start os p =
     with_conn p (\<lambda>c.
       if cn_started c \<or> cn_closed c then ethrow (Logic_error ''connection cannot be started'')
       else ebind (add_channel os p (channel_of p c)) (\<lambda>_. set_conn p (cn_started_update (\<lambda>_. True))))"

text \<open>\<open>on_close f\<close> calls the function \<open>f\<close> of a \<open>close_callback_\<close>.\<close>

definition conn_close ::
  "'k os \<Rightarrow> 'k net \<Rightarrow> (nat \<Rightarrow> nat \<Rightarrow> (('k, 'm) conn_world_scheme, unit) eff) \<Rightarrow> nat \<Rightarrow> (('k, 'm) conn_world_scheme, unit) eff" where
  "conn_close os net on_close p =
     with_conn p (\<lambda>c.
       if cn_closed c then eret ()
       else
         ebind (set_conn p (cn_closed_update (\<lambda>_. True))) (\<lambda>_.
         ebind (if cn_started c
                then ebind (remove_channel os p (channel_of p c)) (\<lambda>_. set_conn p (cn_started_update (\<lambda>_. False)))
                else eret ()) (\<lambda>_.
           case cn_on_close c of None \<Rightarrow> eret () | Some f \<Rightarrow> pinned os net p (on_close f p))))"

definition store_sent :: "nat \<Rightarrow> bytes \<Rightarrow> (('k, 'm) conn_world_scheme, unit) eff" where
  "store_sent p d = set_conn p (\<lambda>c. c\<lparr>cn_sent := cn_sent c @ d\<rparr>)"

text \<open>The second half of \<open>send\<close>: what the kernel did not take is queued.\<close>

definition conn_queue :: "'k os \<Rightarrow> nat \<Rightarrow> bytes \<Rightarrow> (('k, 'm) conn_world_scheme, unit) eff" where
  "conn_queue os p data =
     with_conn p (\<lambda>c.
       if data \<noteq> [] \<and> \<not> cn_closed c
       then (case append (Some data) (word_of_nat (length data)) (cn_write c) of
               Inl e \<Rightarrow> ethrow e
             | Inr b \<Rightarrow>
                 ebind (set_conn p (\<lambda>c. c\<lparr>cn_write := b, cn_interest := event_or READ WRITE\<rparr>)) (\<lambda>_.
                 with_conn p (\<lambda>c. update_channel os p (channel_of p c))))
       else eret ())"

definition conn_send ::
  "'k os \<Rightarrow> 'k net \<Rightarrow> (nat \<Rightarrow> nat \<Rightarrow> (('k, 'm) conn_world_scheme, unit) eff) \<Rightarrow> nat \<Rightarrow> bytes \<Rightarrow> (('k, 'm) conn_world_scheme, unit) eff" where
  "conn_send os net on_close p data =
     with_conn p (\<lambda>c.
       if cn_closed c \<or> data = [] then eret ()
       else if readable (cn_write c) = 0
       then ebind (on_kernel (\<lambda>k. case nt_send net (cn_fd c) data k of (r, k) \<Rightarrow> (Inr r, k))) (\<lambda>r.
            case r of
              Inl errno \<Rightarrow>
                if errno \<noteq> EAGAIN \<and> errno \<noteq> EINTR then conn_close os net on_close p
                else conn_queue os p data
            | Inr count \<Rightarrow> ebind (store_sent p (take count data)) (\<lambda>_. conn_queue os p (drop count data)))
       else conn_queue os p data)"

text \<open>
  The loops of \<open>handle_read\<close> and \<open>handle_write\<close>; \<open>None\<close>: a loop that does not end. They stop because the call
  would block, because of end of file or an error, or with an exception of the buffer.
\<close>

datatype io_stop = Blocked | Ended | Thrown exn

partial_function (option) recv_loop :: "'k net \<Rightarrow> int \<Rightarrow> buffer \<Rightarrow> 'k \<Rightarrow> (io_stop \<times> buffer \<times> 'k) option" where
  "recv_loop net fd b k =
     (case nt_recv net fd 4096 k of
        (Inr received, k) \<Rightarrow>
          if received = [] then Some (Ended, b, k)
          else (case append (Some received) (word_of_nat (length received)) b of
                  Inl e \<Rightarrow> Some (Thrown e, b, k)
                | Inr b \<Rightarrow> recv_loop net fd b k)
      | (Inl errno, k) \<Rightarrow>
          if errno = EINTR then recv_loop net fd b k
          else if errno = EAGAIN then Some (Blocked, b, k)
          else Some (Ended, b, k))"

partial_function (option) send_loop :: "'k net \<Rightarrow> int \<Rightarrow> bytes \<Rightarrow> buffer \<Rightarrow> 'k \<Rightarrow> (io_stop \<times> bytes \<times> buffer \<times> 'k) option" where
  "send_loop net fd sent b k =
     (if readable b = 0 then Some (Blocked, sent, b, k)
      else case read_ptr (readable b) b of
        Inl e \<Rightarrow> Some (Thrown e, sent, b, k)
      | Inr d \<Rightarrow>
          (case nt_send net fd d k of
             (Inr count, k) \<Rightarrow>
               if 0 < count
               then (case consume (word_of_nat count) b of
                       Inl e \<Rightarrow> Some (Thrown e, sent, b, k)
                     | Inr b \<Rightarrow> send_loop net fd (sent @ take count d) b k)
               else send_loop net fd sent b k
           | (Inl errno, k) \<Rightarrow>
               if errno = EINTR then send_loop net fd sent b k
               else if errno = EAGAIN then Some (Blocked, sent, b, k)
               else Some (Ended, sent, b, k)))"

declare recv_loop.simps [code] send_loop.simps [code]

text \<open>\<open>on_message f\<close> calls the function \<open>f\<close> of a \<open>message_callback_\<close>; it works on \<open>read_buffer_\<close>.\<close>

definition handle_read ::
  "'k os \<Rightarrow> 'k net \<Rightarrow> (nat \<Rightarrow> nat \<Rightarrow> (('k, 'm) conn_world_scheme, unit) eff) \<Rightarrow> (nat \<Rightarrow> nat \<Rightarrow> (('k, 'm) conn_world_scheme, unit) eff) \<Rightarrow>
   nat \<Rightarrow> ('k, 'm) conn_world_scheme \<Rightarrow> (unit result \<times> ('k, 'm) conn_world_scheme) option" where
  "handle_read os net on_close on_message p w =
     (case fmlookup (cw_conns w) p of
        None \<Rightarrow> Some (Inl Undefined_behaviour, w)
      | Some c \<Rightarrow>
          map_option (\<lambda>(how, b, k).
            let w = w\<lparr>lp_kernel := k, cw_conns := fmupd p (c\<lparr>cn_read := b\<rparr>) (cw_conns w)\<rparr> in
            (case how of
               Thrown e \<Rightarrow> (Inl e, w)
             | Ended \<Rightarrow> conn_close os net on_close p w
             | Blocked \<Rightarrow> (case cn_on_message c of
                  Some f \<Rightarrow> if 0 < readable b then pinned os net p (on_message f p) w else (Inr (), w)
                | None \<Rightarrow> (Inr (), w))))
          (recv_loop net (cn_fd c) (cn_read c) (lp_kernel w)))"

definition handle_write ::
  "'k os \<Rightarrow> 'k net \<Rightarrow> (nat \<Rightarrow> nat \<Rightarrow> (('k, 'm) conn_world_scheme, unit) eff) \<Rightarrow>
   nat \<Rightarrow> ('k, 'm) conn_world_scheme \<Rightarrow> (unit result \<times> ('k, 'm) conn_world_scheme) option" where
  "handle_write os net on_close p w =
     (case fmlookup (cw_conns w) p of
        None \<Rightarrow> Some (Inl Undefined_behaviour, w)
      | Some c \<Rightarrow>
          map_option (\<lambda>(how, sent, b, k).
            let w = w\<lparr>lp_kernel := k, cw_conns := fmupd p (c\<lparr>cn_write := b, cn_sent := cn_sent c @ sent\<rparr>) (cw_conns w)\<rparr> in
            (case how of
               Thrown e \<Rightarrow> (Inl e, w)
             | Ended \<Rightarrow> conn_close os net on_close p w
             | Blocked \<Rightarrow>
                 if \<not> cn_closed c \<and> readable b = 0
                 then ebind (set_conn p (\<lambda>c. c\<lparr>cn_interest := READ\<rparr>)) (\<lambda>_. with_conn p (\<lambda>c. update_channel os p (channel_of p c))) w
                 else (Inr (), w)))
          (send_loop net (cn_fd c) [] (cn_write c) (lp_kernel w)))"

section \<open>Invariant\<close>

text \<open>
  Every registered channel belongs to an object that is alive, every shared pointer points to a living connection,
  and a connection that nobody refers to has been destroyed. A connection with bytes to write asks for \<open>WRITE\<close>.
  The connections in \<open>X\<close> may be closed and still in the table, those in \<open>Y\<close> may have lost their last reference.
\<close>

definition conn_ok :: "connection \<Rightarrow> bool" where
  "conn_ok c \<longleftrightarrow>
     0 \<le> cn_fd c \<and> buffer_inv (cn_read c) \<and> buffer_inv (cn_write c) \<and> (cn_started c \<longrightarrow> \<not> cn_closed c) \<and>
     (contents (cn_write c) \<noteq> [] \<longrightarrow> cn_interest c = event_or READ WRITE)"

definition conns_inv :: "nat set \<Rightarrow> ('k, 'm) conn_world_scheme \<Rightarrow> bool" where
  "conns_inv Y w \<longleftrightarrow>
     (\<forall>p c. fmlookup (cw_conns w) p = Some c \<longrightarrow>
        2 \<le> p \<and> p < cw_next w \<and> conn_ok c \<and> (cn_started c \<longrightarrow> fmlookup (lp_channels w) (cn_fd c) = Some p) \<and>
        (p \<notin> Y \<longrightarrow> referenced p w))"

definition chans_inv :: "('k, 'm) conn_world_scheme \<Rightarrow> bool" where
  "chans_inv w \<longleftrightarrow>
     (\<forall>fd p. fmlookup (lp_channels w) fd = Some p \<longrightarrow>
        p = 1 \<and> sv_started (cw_server w) \<and> fd = sv_listen_fd (cw_server w) \<or>
        (\<exists>c. fmlookup (cw_conns w) p = Some c \<and> cn_fd c = fd \<and> cn_started c))"

definition table_inv :: "nat set \<Rightarrow> ('k, 'm) conn_world_scheme \<Rightarrow> bool" where
  "table_inv X w \<longleftrightarrow>
     (\<forall>fd p. fmlookup (cw_table w) fd = Some p \<longrightarrow>
        (\<exists>c. fmlookup (cw_conns w) p = Some c \<and> cn_fd c = fd \<and> cn_on_close c = Some 0 \<and> (p \<notin> X \<longrightarrow> \<not> cn_closed c)))"

definition refs_inv :: "('k, 'm) conn_world_scheme \<Rightarrow> bool" where
  "refs_inv w \<longleftrightarrow>
     (\<forall>p \<in> set (cw_held w) \<union> set (cw_pins w). fmlookup (cw_conns w) p \<noteq> None) \<and> 2 \<le> cw_next w \<and>
     (sv_started (cw_server w) \<longrightarrow>
        0 \<le> sv_listen_fd (cw_server w) \<and> fmlookup (lp_channels w) (sv_listen_fd (cw_server w)) = Some 1)"

definition conn_inv :: "nat set \<Rightarrow> nat set \<Rightarrow> ('k, 'm) conn_world_scheme \<Rightarrow> bool" where
  "conn_inv X Y w \<longleftrightarrow> conns_inv Y w \<and> chans_inv w \<and> table_inv X w \<and> refs_inv w"

lemmas conn_inv_defs = conn_inv_def conns_inv_def chans_inv_def table_inv_def refs_inv_def referenced_def fmlookup_ran_iff

lemma conn_invD:
  assumes "conn_inv X Y w" and "fmlookup (cw_conns w) p = Some c"
  shows "conn_ok c" and "2 \<le> p" and "p < cw_next w" and "0 \<le> cn_fd c"
    and "cn_started c \<Longrightarrow> fmlookup (lp_channels w) (cn_fd c) = Some p"
  using assms by (auto simp: conn_inv_def conns_inv_def conn_ok_def)

lemma table_invD:
  assumes "conn_inv X Y w" and "fmlookup (cw_table w) fd = Some p" and "fmlookup (cw_conns w) p = Some c"
  shows "cn_fd c = fd" and "cn_on_close c = Some 0" and "p \<notin> X \<Longrightarrow> \<not> cn_closed c"
proof -
  from assms(1,2) have "\<exists>c. fmlookup (cw_conns w) p = Some c \<and> cn_fd c = fd \<and> cn_on_close c = Some 0 \<and> (p \<notin> X \<longrightarrow> \<not> cn_closed c)"
    unfolding conn_inv_def table_inv_def by blast
  with assms(3) show "cn_fd c = fd" and "cn_on_close c = Some 0" and "p \<notin> X \<Longrightarrow> \<not> cn_closed c" by auto
qed

lemma chans_invD:
  assumes "conn_inv X Y w" and "fmlookup (lp_channels w) fd = Some p" and "fmlookup (cw_conns w) p = Some c"
  shows "cn_fd c = fd \<and> cn_started c"
proof -
  from assms(1,2) have "p = 1 \<or> (\<exists>c. fmlookup (cw_conns w) p = Some c \<and> cn_fd c = fd \<and> cn_started c)"
    unfolding conn_inv_def chans_inv_def by blast
  with conn_invD(2) [OF assms(1,3)] assms(3) show ?thesis by auto
qed

lemma conn_inv_settle: "conn_inv {p} Y w \<Longrightarrow> (\<And>fd. fmlookup (cw_table w) fd \<noteq> Some p) \<Longrightarrow> conn_inv {} Y w"
  unfolding conn_inv_def table_inv_def by (metis singletonD)

lemma conn_inv_kernel [simp]: "conn_inv X Y (w\<lparr>lp_kernel := k\<rparr>) = conn_inv X Y w"
  by (simp add: conn_inv_defs)

lemma conn_inv_same:
  assumes "conn_inv X Y w" and "lp_channels w' = lp_channels w" and "cw_server w' = cw_server w" and "cw_conns w' = cw_conns w"
    and "cw_next w' = cw_next w" and "cw_table w' = cw_table w" and "cw_held w' = cw_held w" and "cw_pins w' = cw_pins w"
  shows "conn_inv X Y w'"
  using assms by (simp add: conn_inv_defs)

lemma conn_inv_mono: "conn_inv X Y w \<Longrightarrow> X \<subseteq> X' \<Longrightarrow> Y \<subseteq> Y' \<Longrightarrow> conn_inv X' Y' w"
  unfolding conn_inv_defs by (intro conjI) (blast+)

text \<open>Changing the connection at \<open>p\<close> without its registration.\<close>

lemma conn_inv_set:
  assumes "conn_inv X Y w" and "fmlookup (cw_conns w) p = Some c" and "conn_ok c'"
    and "cn_fd c' = cn_fd c" and "cn_started c' = cn_started c"
    and "cn_closed c' \<Longrightarrow> cn_closed c \<or> p \<in> X"
    and "cn_on_close c' = cn_on_close c \<or> (\<forall>fd. fmlookup (cw_table w) fd \<noteq> Some p)"
  shows "conn_inv X Y (w\<lparr>cw_conns := fmupd p c' (cw_conns w)\<rparr>)"
proof -
  let ?w = "w\<lparr>cw_conns := fmupd p c' (cw_conns w)\<rparr>"
  have "conns_inv Y ?w" using assms(1-5) by (auto simp: conn_inv_def conns_inv_def referenced_def)
  moreover have "chans_inv ?w" using assms(1,2,4,5) chans_invD [OF assms(1) _ assms(2)] by (auto simp: conn_inv_def chans_inv_def)
  moreover have "table_inv X ?w"
    using assms(1,4,6,7) table_invD [OF assms(1) _ assms(2)] unfolding conn_inv_def table_inv_def by fastforce
  moreover have "refs_inv ?w" using assms(1) by (auto simp: conn_inv_def refs_inv_def)
  ultimately show ?thesis by (simp add: conn_inv_def)
qed

text \<open>A closed connection has left the loop.\<close>

lemma conn_inv_close:
  assumes "conn_inv X Y w" and c: "fmlookup (cw_conns w) p = Some c" and "p \<in> X"
  shows "conn_inv X Y (w\<lparr>lp_channels := (if cn_started c then fmdrop (cn_fd c) (lp_channels w) else lp_channels w),
           cw_conns := fmupd p (c\<lparr>cn_closed := True, cn_started := False\<rparr>) (cw_conns w)\<rparr>)"
proof -
  let ?w = "w\<lparr>lp_channels := (if cn_started c then fmdrop (cn_fd c) (lp_channels w) else lp_channels w),
      cw_conns := fmupd p (c\<lparr>cn_closed := True, cn_started := False\<rparr>) (cw_conns w)\<rparr>"
  note D = conn_invD [OF assms(1) c]
  have other: "fmlookup (lp_channels w) fd = Some q \<Longrightarrow> q \<noteq> p \<Longrightarrow> cn_started c \<Longrightarrow> fd \<noteq> cn_fd c" for fd q using D(5) by auto
  have own: "fmlookup (lp_channels w) fd = Some p \<Longrightarrow> cn_started c \<and> fd = cn_fd c" for fd using chans_invD [OF assms(1) _ c] by auto
  have "conns_inv Y ?w" using assms(1) D(1) c other by (auto simp: conn_inv_def conns_inv_def referenced_def conn_ok_def)
  moreover have "chans_inv ?w" using assms(1) own by (auto simp: conn_inv_def chans_inv_def split: if_splits)
  moreover have "table_inv X ?w" using assms(1,3) table_invD [OF assms(1) _ c] by (auto simp: conn_inv_def table_inv_def)
  moreover have "refs_inv ?w" using assms(1) D(2) other by (fastforce simp: conn_inv_def refs_inv_def)
  ultimately show ?thesis by (simp add: conn_inv_def)
qed

section \<open>The end of a connection\<close>

lemma conn_inv_destroy:
  assumes "conn_inv X {p} w" and c: "fmlookup (cw_conns w) p = Some c" and "\<not> referenced p w"
  shows "conn_inv X {} (w\<lparr>lp_channels := (if cn_started c then fmdrop (cn_fd c) (lp_channels w) else lp_channels w),
           cw_conns := fmdrop p (cw_conns w)\<rparr>)"
proof -
  have reg: "cn_started c \<Longrightarrow> fmlookup (lp_channels w) (cn_fd c) = Some p" and p: "2 \<le> p"
    using conn_invD [OF assms(1) c] by blast+
  then have other: "fmlookup (lp_channels w) fd = Some q \<Longrightarrow> q \<noteq> p \<Longrightarrow> cn_started c \<Longrightarrow> fd \<noteq> cn_fd c" for fd q by auto
  have own: "fmlookup (lp_channels w) fd = Some p \<Longrightarrow> cn_started c \<and> fd = cn_fd c" for fd
    using assms(1) c p by (force simp: conn_inv_def chans_inv_def)
  have gone: "fmlookup (cw_table w) fd \<noteq> Some p" "p \<notin> set (cw_held w)" "p \<notin> set (cw_pins w)" for fd
    using assms(3) by (auto simp: referenced_def fmlookup_ran_iff)
  show ?thesis
    unfolding conn_inv_def
  proof (intro conjI)
    show "conns_inv {} (w\<lparr>lp_channels := (if cn_started c then fmdrop (cn_fd c) (lp_channels w) else lp_channels w),
           cw_conns := fmdrop p (cw_conns w)\<rparr>)"
      using assms(1) other by (auto simp: conn_inv_def conns_inv_def referenced_def)
    show "chans_inv (w\<lparr>lp_channels := (if cn_started c then fmdrop (cn_fd c) (lp_channels w) else lp_channels w),
           cw_conns := fmdrop p (cw_conns w)\<rparr>)"
      using assms(1) own unfolding conn_inv_def chans_inv_def by (auto split: if_splits)
    show "table_inv X (w\<lparr>lp_channels := (if cn_started c then fmdrop (cn_fd c) (lp_channels w) else lp_channels w),
           cw_conns := fmdrop p (cw_conns w)\<rparr>)"
      using assms(1) gone(1) by (auto simp: conn_inv_def table_inv_def)
    show "refs_inv (w\<lparr>lp_channels := (if cn_started c then fmdrop (cn_fd c) (lp_channels w) else lp_channels w),
           cw_conns := fmdrop p (cw_conns w)\<rparr>)"
      using assms(1) gone(2,3) reg p by (auto simp: conn_inv_def refs_inv_def)
  qed
qed

lemma wp_with_conn: "fmlookup (cw_conns w) p = Some c \<Longrightarrow> wp (with_conn p f) Q E w = wp (f c) Q E w"
  by (simp add: wp_def with_conn_def)

lemma wp_set_conn:
  "fmlookup (cw_conns w) p = Some c \<Longrightarrow> wp (set_conn p f) Q E w = Q () (w\<lparr>cw_conns := fmupd p (f c) (cw_conns w)\<rparr>)"
  by (simp add: set_conn_def wp_with_conn)

lemma wp_on_kernel: "(\<And>r k. m (lp_kernel w) = (Inr r, k) \<Longrightarrow> Q r (w\<lparr>lp_kernel := k\<rparr>)) \<Longrightarrow>
    (\<And>e k. m (lp_kernel w) = (Inl e, k) \<Longrightarrow> e \<noteq> Undefined_behaviour \<and> E e (w\<lparr>lp_kernel := k\<rparr>)) \<Longrightarrow> wp (on_kernel m) Q E w"
  by (auto simp: wp_def on_kernel_def split: prod.split sum.split)

lemma channel_of_simps [simp]:
  "ch_fd (channel_of p c) = cn_fd c" "ch_interest (channel_of p c) = cn_interest c"
  "ch_on_read (channel_of p c) = Some (p, READ)" "ch_on_write (channel_of p c) = Some (p, WRITE)"
  by (simp_all add: channel_of_def)

lemma wp_destroy_conn:
  assumes "conn_inv X {p} w" and c: "fmlookup (cw_conns w) p = Some c" and "\<not> referenced p w"
  shows "wp (destroy_conn os net p) (\<lambda>_ w'. conn_inv X {} w' \<and> cw_pins w' = cw_pins w) E w"
proof -
  note D = conn_invD [OF assms(1) c]
  let ?w = "w\<lparr>lp_channels := (if cn_started c then fmdrop (cn_fd c) (lp_channels w) else lp_channels w)\<rparr>"
  have drop: "conn_inv X {} (w\<lparr>lp_channels := lp_channels ?w, lp_kernel := k, cw_conns := fmdrop p (cw_conns w)\<rparr>)" for k
    by (rule conn_inv_same [OF conn_inv_destroy [OF assms]]) simp_all
  show ?thesis
  proof (cases "cn_started c")
    case True
    moreover from this D(1) have "\<not> cn_closed c" by (simp add: conn_ok_def)
    ultimately show ?thesis unfolding destroy_conn_def using c D drop
      by (auto simp: wp_ebind wp_with_conn intro!: wp_remove_channel wp_on_kernel)
  next
    case False
    then show ?thesis unfolding destroy_conn_def using c D drop
      by (auto simp: wp_ebind wp_with_conn intro!: wp_on_kernel)
  qed
qed

lemma wp_release:
  assumes "conn_inv X {p} w" and "fmlookup (cw_conns w) p \<noteq> None"
  shows "wp (release os net p) (\<lambda>_ w'. conn_inv X {} w' \<and> cw_pins w' = cw_pins w) E w"
proof (cases "referenced p w")
  case True
  with assms(1) have "conn_inv X {} w" by (auto simp: conn_inv_def conns_inv_def)
  with True show ?thesis by (simp add: wp_def release_def)
next
  case False
  with assms(2) wp_destroy_conn [OF assms(1) _ False] show ?thesis by (fastforce simp: wp_def release_def)
qed

text \<open>What every call, of the library or of the program, keeps, also when it throws.\<close>

definition harmless :: "(('k, 'm) conn_world_scheme, 'a) eff \<Rightarrow> ('k, 'm) conn_world_scheme \<Rightarrow> bool" where
  "harmless m w \<longleftrightarrow>
     wp m (\<lambda>_ w'. conn_inv {} {} w' \<and> cw_pins w' = cw_pins w) (\<lambda>_ w'. conn_inv {} {} w' \<and> cw_pins w' = cw_pins w) w"

lemma conn_inv_pin:
  "conn_inv X Y w \<Longrightarrow> fmlookup (cw_conns w) p \<noteq> None \<Longrightarrow> conn_inv X (Y - {p}) (w\<lparr>cw_pins := p # cw_pins w\<rparr>)"
  by (auto simp: conn_inv_def conns_inv_def chans_inv_def table_inv_def refs_inv_def referenced_def)

lemma conn_inv_unpin:
  "conn_inv X {} w \<Longrightarrow> cw_pins w = p # ps \<Longrightarrow> conn_inv X {p} (w\<lparr>cw_pins := ps\<rparr>) \<and> fmlookup (cw_conns w) p \<noteq> None"
  by (auto simp: conn_inv_def conns_inv_def chans_inv_def table_inv_def refs_inv_def referenced_def)

lemma harmless_pinned:
  assumes "harmless m (w\<lparr>cw_pins := p # cw_pins w\<rparr>)"
  shows "harmless (pinned os net p m) w"
proof -
  obtain r w1 where r: "m (w\<lparr>cw_pins := p # cw_pins w\<rparr>) = (r, w1)" by force
  with assms have w1: "conn_inv {} {} w1" "cw_pins w1 = p # cw_pins w" and ub: "r \<noteq> Inl Undefined_behaviour"
    by (auto simp: harmless_def wp_def split: sum.splits)
  let ?w = "w1\<lparr>cw_pins := cw_pins w\<rparr>"
  have "wp (release os net p) (\<lambda>_ w'. conn_inv {} {} w' \<and> cw_pins w' = cw_pins ?w) (\<lambda>_ _. False) ?w"
    using conn_inv_unpin [OF w1] by (intro wp_release) simp_all
  then show ?thesis using r w1(2) ub
    by (cases r) (auto simp: harmless_def wp_def pinned_def split: prod.splits sum.splits)
qed

section \<open>Operations keep the invariant\<close>

lemma harmlessI: "wp m (\<lambda>_ w'. conn_inv {} {} w' \<and> cw_pins w' = cw_pins w) (\<lambda>_ w'. conn_inv {} {} w' \<and> cw_pins w' = cw_pins w) w \<Longrightarrow> harmless m w"
  by (simp add: harmless_def)

lemma harmless_bind:
  assumes "harmless m w" and "\<And>x w'. conn_inv {} {} w' \<Longrightarrow> cw_pins w' = cw_pins w \<Longrightarrow> harmless (f x) w'"
  shows "harmless (ebind m f) w"
  using assms(1) unfolding harmless_def
  by (rule wp_bindI) (use assms(2) in \<open>fastforce simp: harmless_def intro: wp_conseq\<close>)

lemma harmless_result:
  "harmless m w \<Longrightarrow> m w = (r, w') \<Longrightarrow> r \<noteq> Inl Undefined_behaviour \<and> conn_inv {} {} w' \<and> cw_pins w' = cw_pins w"
  by (auto simp: harmless_def wp_def split: sum.splits)

lemma harmless_update_channel: "conn_inv {} {} w \<Longrightarrow> harmless (update_channel os p ch) w"
  by (auto simp: harmless_def wp_def update_channel_def ctl_mod_def epoll_ctl_def ebind_def split: prod.splits option.splits)

lemma conn_inv_start:
  assumes "conn_inv X Y w" and c: "fmlookup (cw_conns w) p = Some c" and "\<not> cn_started c" "\<not> cn_closed c"
    and "fmlookup (lp_channels w) (cn_fd c) = None"
  shows "conn_inv X Y (w\<lparr>lp_channels := fmupd (cn_fd c) p (lp_channels w),
           cw_conns := fmupd p (c\<lparr>cn_started := True\<rparr>) (cw_conns w)\<rparr>)"
proof -
  let ?w = "w\<lparr>lp_channels := fmupd (cn_fd c) p (lp_channels w), cw_conns := fmupd p (c\<lparr>cn_started := True\<rparr>) (cw_conns w)\<rparr>"
  have own: "fmlookup (lp_channels w) fd \<noteq> Some p" for fd using chans_invD [OF assms(1) _ c] assms(3) by blast
  have "conns_inv Y ?w" using assms(1,3,4,5) c by (auto simp: conn_inv_def conns_inv_def referenced_def conn_ok_def)
  moreover have "chans_inv ?w" using assms(1) own by (auto simp: conn_inv_def chans_inv_def)
  moreover have "table_inv X ?w" using assms(1,4) table_invD [OF assms(1) _ c] by (auto simp: conn_inv_def table_inv_def)
  moreover have "refs_inv ?w" using assms(1,5) by (auto simp: conn_inv_def refs_inv_def)
  ultimately show ?thesis by (simp add: conn_inv_def)
qed

lemma harmless_start:
  assumes inv: "conn_inv {} {} w" and c: "fmlookup (cw_conns w) p = Some c"
  shows "harmless (conn_start os p) w"
proof (cases "cn_started c \<or> cn_closed c \<or> fmlookup (lp_channels w) (cn_fd c) \<noteq> None")
  case True
  with inv c conn_invD [OF inv c] show ?thesis
    by (auto simp: harmless_def wp_def conn_start_def with_conn_def add_channel_def ebind_def)
next
  case False
  note D = conn_invD [OF inv c]
  have started: "conn_inv {} {} (w\<lparr>lp_channels := fmupd (cn_fd c) p (lp_channels w), lp_kernel := k,
      cw_conns := fmupd p (c\<lparr>cn_started := True\<rparr>) (cw_conns w)\<rparr>)" for k
    by (rule conn_inv_same [OF conn_inv_start [OF inv c]]) (use False in simp_all)
  show ?thesis unfolding conn_start_def using False D inv c started
    by (auto simp: wp_ebind wp_with_conn wp_set_conn intro!: harmlessI wp_add_channel)
qed

text \<open>\<open>close()\<close> on an open connection: the callback runs when the connection has left the loop.\<close>

lemma wp_conn_close:
  assumes inv: "conn_inv {} {} w" and c: "fmlookup (cw_conns w) p = Some c" "\<not> cn_closed c"
    and call: "\<And>w'. conn_inv {p} {} w' \<Longrightarrow> fmlookup (cw_conns w') p = Some (c\<lparr>cn_closed := True, cn_started := False\<rparr>) \<Longrightarrow>
      cw_table w' = cw_table w \<Longrightarrow> cw_server w' = cw_server w \<Longrightarrow> cw_held w' = cw_held w \<Longrightarrow> cw_pins w' = cw_pins w \<Longrightarrow>
      wp (case cn_on_close c of None \<Rightarrow> eret () | Some f \<Rightarrow> pinned os net p (on_close f p)) Q E w'"
  shows "wp (conn_close os net on_close p) Q E w"
proof -
  note D = conn_invD [OF inv c(1)]
  let ?c = "c\<lparr>cn_closed := True, cn_started := False\<rparr>"
  let ?ch = "if cn_started c then fmdrop (cn_fd c) (lp_channels w) else lp_channels w"
  have shut: "wp (case cn_on_close c of None \<Rightarrow> eret () | Some f \<Rightarrow> pinned os net p (on_close f p)) Q E w'"
    if "cw_conns w' = fmupd p ?c (cw_conns w)" "lp_channels w' = ?ch" "cw_server w' = cw_server w" "cw_next w' = cw_next w"
      "cw_table w' = cw_table w" "cw_held w' = cw_held w" "cw_pins w' = cw_pins w" for w'
  proof (rule call)
    show "conn_inv {p} {} w'"
      by (rule conn_inv_same [OF conn_inv_close [OF conn_inv_mono [OF inv] c(1)]]) (use that in simp_all)
  qed (use that in simp_all)
  show ?thesis
  proof (cases "cn_started c")
    case True
    then show ?thesis
      unfolding conn_close_def using c D
      by (auto simp: wp_ebind wp_with_conn wp_set_conn intro!: wp_remove_channel shut)
  next
    case False
    have same: "c\<lparr>cn_closed := True\<rparr> = ?c" using False by (cases c) simp
    show ?thesis
      unfolding conn_close_def using c False
      by (simp add: wp_ebind wp_with_conn wp_set_conn) (intro shut; simp add: False same [symmetric])
  qed
qed

section \<open>The loops over the socket\<close>

lemma append_cases:
  assumes "buffer_inv b" and "length d < 2 ^ 64"
  shows "case append (Some d) (word_of_nat (length d)) b of
           Inl e \<Rightarrow> e \<noteq> Undefined_behaviour | Inr b' \<Rightarrow> buffer_inv b' \<and> contents b' = contents b @ d"
  using append_string_contents [OF assms] append_string_throws [OF assms(1) _ assms(2)] append_string_ok [OF assms(1), of d]
  unfolding append_string_def by (cases "room_for (length d) b") (fastforce split: sum.split)+

lemma recv_loop_ok:
  assumes net: "net_bounded net" and b: "buffer_inv b" and st: "recv_loop net fd b k = Some y"
  shows "case y of (how, b', k') \<Rightarrow> how \<noteq> Thrown Undefined_behaviour \<and> buffer_inv b' \<and> (\<exists>d. contents b' = contents b @ d)"
proof -
  let ?P = "\<lambda>net' fd b k y. net' = net \<and> buffer_inv b \<longrightarrow>
    (case y of (how, b', k') \<Rightarrow> how \<noteq> Thrown Undefined_behaviour \<and> buffer_inv b' \<and> (\<exists>d. contents b' = contents b @ d))"
  have "?P net fd b k y"
  proof (rule recv_loop.raw_induct [OF _ st, of ?P], intro impI, elim conjE)
    fix loop net' fd b k y
    assume IH: "\<And>net' fd b k y. loop net' fd b k = Some y \<Longrightarrow> ?P net' fd b k y"
      and step: "(case nt_recv net' fd 4096 k of
        (Inr received, k) \<Rightarrow>
          if received = [] then Some (Ended, b, k)
          else (case append (Some received) (word_of_nat (length received)) b of
                  Inl e \<Rightarrow> Some (Thrown e, b, k)
                | Inr b \<Rightarrow> loop net' fd b k)
      | (Inl errno, k) \<Rightarrow>
          if errno = EINTR then loop net' fd b k
          else if errno = EAGAIN then Some (Blocked, b, k)
          else Some (Ended, b, k)) = Some y"
      and eq: "net' = net" and b: "buffer_inv b"
    obtain r k1 where r: "nt_recv net fd 4096 k = (r, k1)" by force
    show "case y of (how, b', k') \<Rightarrow> how \<noteq> Thrown Undefined_behaviour \<and> buffer_inv b' \<and> (\<exists>d. contents b' = contents b @ d)"
    proof (cases r)
      case (Inl errno)
      with step r eq b IH [of net fd b k1 y] show ?thesis by (auto split: if_splits)
    next
      case (Inr d)
      then have "length d < 2 ^ 64" using net_boundedD(1) [OF net] r by fastforce
      from append_cases [OF b this] step r eq b Inr IH [of net fd _ k1 y] show ?thesis
        by (fastforce split: if_splits sum.splits)
    qed
  qed
  with b show ?thesis by simp
qed

lemma send_loop_ok:
  assumes net: "net_bounded net" and b: "buffer_inv b" and st: "send_loop net fd sent b k = Some y"
  shows "case y of (how, sent', b', k') \<Rightarrow> (\<forall>e. how \<noteq> Thrown e) \<and> buffer_inv b' \<and> sent' @ contents b' = sent @ contents b"
proof -
  let ?Q = "\<lambda>sent b y. case y of (how, sent', b', k') \<Rightarrow> (\<forall>e. how \<noteq> Thrown e) \<and> buffer_inv b' \<and> sent' @ contents b' = sent @ contents b"
  let ?P = "\<lambda>net' fd sent b k y. net' = net \<and> buffer_inv b \<longrightarrow> ?Q sent b y"
  have "?P net fd sent b k y"
  proof (rule send_loop.raw_induct [OF _ st, of ?P], intro impI, elim conjE)
    fix loop net' fd sent b k y
    assume IH: "\<And>net' fd sent b k y. loop net' fd sent b k = Some y \<Longrightarrow> ?P net' fd sent b k y"
      and step: "(if readable b = 0 then Some (Blocked, sent, b, k)
      else case read_ptr (readable b) b of
        Inl e \<Rightarrow> Some (Thrown e, sent, b, k)
      | Inr d \<Rightarrow>
          (case nt_send net' fd d k of
             (Inr count, k) \<Rightarrow>
               if 0 < count
               then (case consume (word_of_nat count) b of
                       Inl e \<Rightarrow> Some (Thrown e, sent, b, k)
                     | Inr b \<Rightarrow> loop net' fd (sent @ take count d) b k)
               else loop net' fd sent b k
           | (Inl errno, k) \<Rightarrow>
               if errno = EINTR then loop net' fd sent b k
               else if errno = EAGAIN then Some (Blocked, sent, b, k)
               else Some (Ended, sent, b, k))) = Some y"
      and eq: "net' = net" and b: "buffer_inv b"
    have rd: "read_ptr (readable b) b = Inr (contents b)"
      using read_ptr_contents [OF b, of "readable b"] length_contents [OF b] by simp
    obtain r k1 where r: "nt_send net fd (contents b) k = (r, k1)" by force
    show "?Q sent b y"
    proof (cases "readable b \<noteq> 0 \<and> (\<exists>count. r = Inr count \<and> 0 < count)")
      case True
      then obtain count where count: "r = Inr count" "0 < count" by blast
      then have le: "count \<le> length (contents b)" using net_boundedD(2) [OF net] r by blast
      then have u: "unat (word_of_nat count :: size_t) = count"
        using length_contents [OF b] le_less_trans [OF _ unat_lt_64, of count "readable b"] by (intro unat_of_nat_64) simp
      from consume_ok [OF b, of "word_of_nat count"] le u obtain b1 where
        b1: "consume (word_of_nat count) b = Inr b1" "buffer_inv b1" "contents b1 = drop count (contents b)" by auto
      with IH [of net fd "sent @ take count (contents b)" b1 k1 y] step True rd r count eq show ?thesis by (auto split: prod.splits)
    next
      case False
      with step rd r eq b IH [of net fd sent b k1 y] show ?thesis by (cases r) (auto split: if_splits)
    qed
  qed
  with b show ?thesis by simp
qed

section \<open>Callbacks\<close>

text \<open>
  What the callbacks of a program promise: they keep the invariant, and the pointers they were called with, also
  when they throw. The close callback of a connection is called when the connection is closed and may still be in the
  table.
\<close>

locale connection_client =
  fixes os :: "'k os" and net :: "'k net"
    and on_close on_message :: "nat \<Rightarrow> nat \<Rightarrow> (('k, 'm) conn_world_scheme, unit) eff"
  assumes net: "net_bounded net"
    and close_ok: "conn_inv {p} {} w \<Longrightarrow> p \<in> set (cw_pins w) \<Longrightarrow> fmlookup (cw_conns w) p = Some c \<Longrightarrow> cn_closed c \<Longrightarrow>
          cn_on_close c = Some f \<Longrightarrow> harmless (on_close f p) w"
    and message_ok: "conn_inv {} {} w \<Longrightarrow> p \<in> set (cw_pins w) \<Longrightarrow> harmless (on_message f p) w"
begin

lemma harmless_close:
  assumes inv: "conn_inv {} {} w" and c: "fmlookup (cw_conns w) p = Some c"
  shows "harmless (conn_close os net on_close p) w"
proof (cases "cn_closed c")
  case True
  with inv c show ?thesis by (simp add: conn_close_def harmless_def wp_with_conn)
next
  case False
  let ?c = "c\<lparr>cn_closed := True, cn_started := False\<rparr>"
  let ?call = "case cn_on_close c of None \<Rightarrow> eret () | Some f \<Rightarrow> pinned os net p (on_close f p)"
  have call: "harmless ?call w'"
    if w': "conn_inv {p} {} w'" "fmlookup (cw_conns w') p = Some ?c" "cw_table w' = cw_table w" for w'
  proof (cases "cn_on_close c")
    case None
    then have "fmlookup (cw_table w') fd \<noteq> Some p" for fd using table_invD(2) [OF inv _ c] w'(3) by auto
    with w'(1) have "conn_inv {} {} w'" by (rule conn_inv_settle)
    with None show ?thesis by (simp add: harmless_def)
  next
    case (Some f)
    from conn_inv_pin [OF w'(1), of p] w'(2) have "conn_inv {p} {} (w'\<lparr>cw_pins := p # cw_pins w'\<rparr>)" by simp
    from close_ok [OF this, of ?c f] w'(2) Some show ?thesis by (auto intro!: harmless_pinned)
  qed
  have "wp ?call (\<lambda>_ v. conn_inv {} {} v \<and> cw_pins v = cw_pins w) (\<lambda>_ v. conn_inv {} {} v \<and> cw_pins v = cw_pins w) w'"
    if "conn_inv {p} {} w'" "fmlookup (cw_conns w') p = Some ?c" "cw_table w' = cw_table w" "cw_pins w' = cw_pins w" for w'
    using call [OF that(1-3)] that(4) by (simp only: harmless_def)
  then show ?thesis unfolding harmless_def by (intro wp_conn_close [OF inv c False])
qed

lemma harmless_queue:
  assumes inv: "conn_inv {} {} w" and c: "fmlookup (cw_conns w) p = Some c" and len: "length data < 2 ^ 64"
  shows "harmless (conn_queue os p data) w"
proof (cases "data \<noteq> [] \<and> \<not> cn_closed c")
  case True
  have ok: "conn_ok c" by (rule conn_invD [OF inv c])
  then have "buffer_inv (cn_write c)" by (simp add: conn_ok_def)
  note app = append_cases [OF this len]
  show ?thesis
  proof (cases "append (Some data) (word_of_nat (length data)) (cn_write c)")
    case (Inl e)
    with True app inv c show ?thesis by (simp add: conn_queue_def harmless_def wp_with_conn)
  next
    case (Inr b)
    let ?c = "c\<lparr>cn_write := b, cn_interest := event_or READ WRITE\<rparr>"
    let ?w = "w\<lparr>cw_conns := fmupd p ?c (cw_conns w)\<rparr>"
    have "conn_inv {} {} ?w" by (rule conn_inv_set [OF inv c]) (use ok app Inr in \<open>auto simp: conn_ok_def\<close>)
    from harmless_update_channel [OF this, of os p "channel_of p ?c"] True Inr c show ?thesis
      by (simp add: conn_queue_def harmless_def wp_with_conn wp_set_conn wp_ebind)
  qed
next
  case False
  with inv c show ?thesis by (auto simp: conn_queue_def harmless_def wp_with_conn)
qed

lemma harmless_send:
  assumes inv: "conn_inv {} {} w" and c: "fmlookup (cw_conns w) p = Some c" and len: "length data < 2 ^ 64"
  shows "harmless (conn_send os net on_close p data) w"
proof (cases "cn_closed c \<or> data = [] \<or> readable (cn_write c) \<noteq> 0")
  case True
  with harmless_queue [OF inv c len] inv c show ?thesis
    by (auto simp: conn_send_def harmless_def wp_with_conn)
next
  case False
  obtain r k where r: "nt_send net (cn_fd c) data (lp_kernel w) = (r, k)" by force
  let ?w = "w\<lparr>lp_kernel := k\<rparr>"
  have inv1: "conn_inv {} {} ?w" and c1: "fmlookup (cw_conns ?w) p = Some c" using inv c by simp_all
  show ?thesis
  proof (cases r)
    case (Inl errno)
    with False r c harmless_queue [OF inv1 c1 len] harmless_close [OF inv1 c1] show ?thesis
      by (auto simp: conn_send_def harmless_def wp_with_conn wp_ebind on_kernel_def wp_def [of "on_kernel _"])
  next
    case (Inr count)
    let ?c = "c\<lparr>cn_sent := cn_sent c @ take count data\<rparr>"
    let ?w2 = "?w\<lparr>cw_conns := fmupd p ?c (cw_conns ?w)\<rparr>"
    have "conn_inv {} {} ?w2"
      by (rule conn_inv_set [OF inv1 c1]) (use conn_invD(1) [OF inv c] in \<open>auto simp: conn_ok_def\<close>)
    from harmless_queue [OF this, of p ?c "drop count data"] len Inr False r c show ?thesis
      by (simp add: conn_send_def harmless_def wp_with_conn wp_ebind on_kernel_def wp_def [of "on_kernel _"] store_sent_def wp_set_conn)
  qed
qed

lemma handle_read_ok:
  assumes inv: "conn_inv {} {} w" and c: "fmlookup (cw_conns w) p = Some c"
    and st: "handle_read os net on_close on_message p w = Some (r, w')"
  shows "r \<noteq> Inl Undefined_behaviour \<and> conn_inv {} {} w' \<and> cw_pins w' = cw_pins w"
proof -
  from st c obtain how b k where loop: "recv_loop net (cn_fd c) (cn_read c) (lp_kernel w) = Some (how, b, k)"
    by (auto simp: handle_read_def)
  note D = conn_invD [OF inv c]
  let ?w = "w\<lparr>lp_kernel := k, cw_conns := fmupd p (c\<lparr>cn_read := b\<rparr>) (cw_conns w)\<rparr>"
  from recv_loop_ok [OF net _ loop] D(1) have ub: "how \<noteq> Thrown Undefined_behaviour" and b: "buffer_inv b"
    by (simp_all add: conn_ok_def)
  have inv1: "conn_inv {} {} ?w"
    by (rule conn_inv_same [OF conn_inv_set [OF inv c, of "c\<lparr>cn_read := b\<rparr>"]]) (use D(1) b in \<open>auto simp: conn_ok_def\<close>)
  have msg: "harmless (pinned os net p (on_message f p)) ?w" for f
    using conn_inv_pin [OF inv1, of p] by (intro harmless_pinned message_ok) simp_all
  show ?thesis
  proof (cases how)
    case Blocked
    with st c loop inv1 harmless_result [OF msg] show ?thesis
      by (auto simp: handle_read_def Let_def split: option.splits if_splits)
  next
    case Ended
    with st c loop harmless_result [OF harmless_close [OF inv1, of p "c\<lparr>cn_read := b\<rparr>"]] show ?thesis
      by (auto simp: handle_read_def Let_def)
  next
    case (Thrown e)
    with st c loop inv1 ub show ?thesis by (auto simp: handle_read_def Let_def)
  qed
qed

lemma handle_write_ok:
  assumes inv: "conn_inv {} {} w" and c: "fmlookup (cw_conns w) p = Some c"
    and st: "handle_write os net on_close p w = Some (r, w')"
  shows "r \<noteq> Inl Undefined_behaviour \<and> conn_inv {} {} w' \<and> cw_pins w' = cw_pins w"
proof -
  from st c obtain how sent b k where loop: "send_loop net (cn_fd c) [] (cn_write c) (lp_kernel w) = Some (how, sent, b, k)"
    by (auto simp: handle_write_def)
  note D = conn_invD [OF inv c]
  let ?c = "c\<lparr>cn_write := b, cn_sent := cn_sent c @ sent\<rparr>"
  let ?w = "w\<lparr>lp_kernel := k, cw_conns := fmupd p ?c (cw_conns w)\<rparr>"
  from send_loop_ok [OF net _ loop] D(1) have how: "\<And>e. how \<noteq> Thrown e" and b: "buffer_inv b"
    and sent: "sent @ contents b = contents (cn_write c)" by (simp_all add: conn_ok_def)
  have inv1: "conn_inv {} {} ?w"
    by (rule conn_inv_same [OF conn_inv_set [OF inv c, of ?c]]) (use D(1) b sent in \<open>auto simp: conn_ok_def\<close>)
  show ?thesis
  proof (cases how)
    case Blocked
    let ?c2 = "?c\<lparr>cn_interest := READ\<rparr>"
    let ?w2 = "?w\<lparr>cw_conns := fmupd p ?c2 (cw_conns ?w)\<rparr>"
    show ?thesis
    proof (cases "\<not> cn_closed c \<and> readable b = 0")
      case True
      then have "contents b = []" using length_contents [OF b] by simp
      then have "conn_inv {} {} ?w2" using D(1) b by (intro conn_inv_set [OF inv1, of p ?c]) (auto simp: conn_ok_def)
      from harmless_result [OF harmless_update_channel [OF this, of os p "channel_of p ?c2"]] True Blocked st c loop
      show ?thesis by (auto simp: handle_write_def Let_def set_conn_def with_conn_def ebind_def)
    next
      case False
      with Blocked st c loop inv1 show ?thesis by (auto simp: handle_write_def Let_def split: if_splits)
    qed
  next
    case Ended
    with st c loop harmless_result [OF harmless_close [OF inv1, of p ?c]] show ?thesis
      by (auto simp: handle_write_def Let_def)
  next
    case (Thrown e)
    with how show ?thesis by blast
  qed
qed

end

section \<open>The bytes that are sent\<close>

text \<open>What the kernel has accepted, followed by what is waiting for it.\<close>

definition outgoing :: "connection \<Rightarrow> bytes" where
  "outgoing c = cn_sent c @ contents (cn_write c)"

definition open_at :: "nat \<Rightarrow> ('k, 'm) conn_world_scheme \<Rightarrow> bool" where
  "open_at p w \<longleftrightarrow> (case fmlookup (cw_conns w) p of None \<Rightarrow> False | Some c \<Rightarrow> \<not> cn_closed c)"

text \<open>A close callback that does not open connections again; nothing in the library does.\<close>

definition stays_closed :: "(nat \<Rightarrow> nat \<Rightarrow> (('k, 'm) conn_world_scheme, unit) eff) \<Rightarrow> bool" where
  "stays_closed on_close \<longleftrightarrow> (\<forall>f p w. \<not> open_at p w \<longrightarrow> \<not> open_at p (snd (on_close f p w)))"

text \<open>
  The life of a connection as the program and the loop drive it: data is given to \<open>send\<close>, or the socket is
  reported writable. \<open>None\<close> when a call throws or does not return, or the connection is closed.
\<close>

datatype conn_op = Send bytes | Writable

fun run_ops ::
  "'k os \<Rightarrow> 'k net \<Rightarrow> (nat \<Rightarrow> nat \<Rightarrow> (('k, 'm) conn_world_scheme, unit) eff) \<Rightarrow> nat \<Rightarrow> conn_op list \<Rightarrow>
   ('k, 'm) conn_world_scheme \<Rightarrow> ('k, 'm) conn_world_scheme option" where
  "run_ops os net on_close p [] w = (if open_at p w then Some w else None)"
| "run_ops os net on_close p (Send d # ops) w =
     (if open_at p w
      then case conn_send os net on_close p d w of (Inl e, w') \<Rightarrow> None | (Inr _, w') \<Rightarrow> run_ops os net on_close p ops w'
      else None)"
| "run_ops os net on_close p (Writable # ops) w =
     (if open_at p w
      then case handle_write os net on_close p w of Some (Inr _, w') \<Rightarrow> run_ops os net on_close p ops w' | _ \<Rightarrow> None
      else None)"

definition given :: "conn_op list \<Rightarrow> bytes" where
  "given ops = concat (map (\<lambda>x. case x of Send d \<Rightarrow> d | Writable \<Rightarrow> []) ops)"

lemma given_simps [simp]: "given [] = []" "given (Send d # ops) = d @ given ops" "given (Writable # ops) = given ops"
  by (simp_all add: given_def)

lemma run_ops_open: "run_ops os net on_close p ops w = Some w' \<Longrightarrow> open_at p w"
  by (cases "(os, net, on_close, p, ops, w)" rule: run_ops.cases) (auto split: if_splits)

lemma conns_update_channel: "update_channel os p ch w = (r, w') \<Longrightarrow> cw_conns w' = cw_conns w"
  by (rule preserves_result [OF preserves_update_channel]) simp_all

lemma conns_remove_channel: "remove_channel os p ch w = (r, w') \<Longrightarrow> cw_conns w' = cw_conns w"
  by (rule preserves_result [OF preserves_remove_channel]) simp_all

lemma open_at_conns: "cw_conns w = fmupd p c m \<Longrightarrow> open_at p w \<longleftrightarrow> \<not> cn_closed c"
  by (simp add: open_at_def)

lemma not_open_release: "\<not> open_at p v \<Longrightarrow> release os net q v = (r, v') \<Longrightarrow> \<not> open_at p v'"
  by (auto simp: release_def destroy_conn_def with_conn_def ebind_def on_kernel_def open_at_def
      split: if_splits option.splits prod.splits sum.splits dest!: conns_remove_channel)

lemma conn_after_release: "open_at p v' \<Longrightarrow> release os net p v = (r, v') \<Longrightarrow> fmlookup (cw_conns v') p = fmlookup (cw_conns v) p"
  by (auto simp: release_def destroy_conn_def with_conn_def ebind_def on_kernel_def open_at_def
      split: if_splits option.splits prod.splits sum.splits dest!: conns_remove_channel)

lemma not_open_pinned:
  assumes "\<not> open_at p (snd (m (w\<lparr>cw_pins := p # cw_pins w\<rparr>)))"
  shows "\<not> open_at p (snd (pinned os net p m w))"
proof -
  obtain r1 w1 where r1: "m (w\<lparr>cw_pins := p # cw_pins w\<rparr>) = (r1, w1)" by force
  obtain r2 w2 where r2: "release os net p (w1\<lparr>cw_pins := remove1 p (cw_pins w1)\<rparr>) = (r2, w2)" by force
  have "\<not> open_at p (w1\<lparr>cw_pins := remove1 p (cw_pins w1)\<rparr>)" using assms r1 by (simp add: open_at_def)
  from not_open_release [OF this r2] r1 r2 show ?thesis by (simp add: pinned_def split: sum.split)
qed

lemma not_open_close:
  assumes "stays_closed on_close" shows "\<not> open_at p (snd (conn_close os net on_close p w))"
proof (cases "open_at p w")
  case False
  then show ?thesis by (auto simp: conn_close_def with_conn_def open_at_def split: option.splits)
next
  case True
  then obtain c where c: "fmlookup (cw_conns w) p = Some c" "\<not> cn_closed c" by (auto simp: open_at_def split: option.splits)
  have call: "\<not> open_at p (snd (pinned os net p (on_close f p) v))" if "\<not> open_at p v" for f v
    using assms that by (intro not_open_pinned) (simp add: stays_closed_def open_at_def)
  show ?thesis
    using c call
    by (auto simp: conn_close_def with_conn_def set_conn_def ebind_def open_at_conns
        split: option.splits prod.splits sum.splits dest!: conns_remove_channel)
qed

lemma queue_step:
  assumes c: "fmlookup (cw_conns w) p = Some c" "conn_ok c" "\<not> cn_closed c" and len: "length data < 2 ^ 64"
    and st: "conn_queue os p data w = (Inr u, w')"
  shows "\<exists>c'. fmlookup (cw_conns w') p = Some c' \<and> conn_ok c' \<and> outgoing c' = outgoing c @ data \<and> cn_read c' = cn_read c"
proof (cases "data = []")
  case True
  with c st show ?thesis by (auto simp: conn_queue_def with_conn_def)
next
  case False
  from c(2) have "buffer_inv (cn_write c)" by (simp add: conn_ok_def)
  note app = append_cases [OF this len]
  with st c False obtain b where b: "append (Some data) (word_of_nat (length data)) (cn_write c) = Inr b"
    by (cases "append (Some data) (word_of_nat (length data)) (cn_write c)") (auto simp: conn_queue_def with_conn_def)
  let ?c = "c\<lparr>cn_write := b, cn_interest := event_or READ WRITE\<rparr>"
  have "update_channel os p (channel_of p ?c) (w\<lparr>cw_conns := fmupd p ?c (cw_conns w)\<rparr>) = (Inr u, w')"
    using st c False b by (simp add: conn_queue_def with_conn_def set_conn_def)
  with conns_update_channel [OF this] app b c(2) show ?thesis by (auto simp: conn_ok_def outgoing_def)
qed

lemma send_step:
  assumes closed: "stays_closed on_close" and net: "net_bounded net"
    and c: "fmlookup (cw_conns w) p = Some c" "conn_ok c" "\<not> cn_closed c" and len: "length data < 2 ^ 64"
    and st: "conn_send os net on_close p data w = (Inr u, w')" and op: "open_at p w'"
  shows "\<exists>c'. fmlookup (cw_conns w') p = Some c' \<and> conn_ok c' \<and> outgoing c' = outgoing c @ data \<and> cn_read c' = cn_read c"
proof (cases "data = [] \<or> readable (cn_write c) \<noteq> 0")
  case True
  with queue_step [OF c len, of os u w'] st c show ?thesis
    by (cases "data = []") (auto simp: conn_send_def with_conn_def)
next
  case False
  obtain r k where r: "nt_send net (cn_fd c) data (lp_kernel w) = (r, k)" by force
  have empty: "contents (cn_write c) = []" using False c(2) length_contents [of "cn_write c"] by (simp add: conn_ok_def)
  let ?w = "w\<lparr>lp_kernel := k\<rparr>"
  show ?thesis
  proof (cases r)
    case (Inl errno)
    have "\<not> (errno \<noteq> EAGAIN \<and> errno \<noteq> EINTR)"
    proof
      assume "errno \<noteq> EAGAIN \<and> errno \<noteq> EINTR"
      with st Inl r c False have "conn_close os net on_close p ?w = (Inr u, w')"
        by (simp add: conn_send_def with_conn_def on_kernel_def ebind_def)
      with not_open_close [OF closed, of p os net ?w] op show False by simp
    qed
    with st Inl r c False have "conn_queue os p data ?w = (Inr u, w')"
      by (auto simp: conn_send_def with_conn_def on_kernel_def ebind_def split: if_splits)
    with queue_step [of ?w p c data os u w'] c len show ?thesis by simp
  next
    case (Inr count)
    let ?c = "c\<lparr>cn_sent := cn_sent c @ take count data\<rparr>"
    let ?w2 = "?w\<lparr>cw_conns := fmupd p ?c (cw_conns w)\<rparr>"
    have "conn_queue os p (drop count data) ?w2 = (Inr u, w')"
      using st Inr r c False by (simp add: conn_send_def with_conn_def on_kernel_def ebind_def store_sent_def set_conn_def)
    with queue_step [of ?w2 p ?c "drop count data" os u w'] c len empty show ?thesis
      by (simp add: outgoing_def conn_ok_def)
  qed
qed

lemma write_step:
  assumes closed: "stays_closed on_close" and net: "net_bounded net"
    and c: "fmlookup (cw_conns w) p = Some c" "conn_ok c" "\<not> cn_closed c"
    and st: "handle_write os net on_close p w = Some (Inr u, w')" and op: "open_at p w'"
  shows "\<exists>c'. fmlookup (cw_conns w') p = Some c' \<and> conn_ok c' \<and> outgoing c' = outgoing c"
proof -
  from st c obtain how sent b k where loop: "send_loop net (cn_fd c) [] (cn_write c) (lp_kernel w) = Some (how, sent, b, k)"
    by (auto simp: handle_write_def)
  from send_loop_ok [OF net _ loop] c(2) have how: "\<And>e. how \<noteq> Thrown e" and b: "buffer_inv b"
    and sent: "sent @ contents b = contents (cn_write c)" by (simp_all add: conn_ok_def)
  let ?c = "c\<lparr>cn_write := b, cn_sent := cn_sent c @ sent\<rparr>"
  let ?w = "w\<lparr>lp_kernel := k, cw_conns := fmupd p ?c (cw_conns w)\<rparr>"
  have ok: "conn_ok ?c" "outgoing ?c = outgoing c" using c(2) b sent by (auto simp: conn_ok_def outgoing_def)
  have "how \<noteq> Ended"
  proof
    assume "how = Ended"
    with st loop c have "conn_close os net on_close p ?w = (Inr u, w')" by (simp add: handle_write_def Let_def)
    with not_open_close [OF closed, of p os net ?w] op show False by simp
  qed
  with how have blocked: "how = Blocked" by (cases how) auto
  show ?thesis
  proof (cases "readable b = 0")
    case True
    let ?c2 = "?c\<lparr>cn_interest := READ\<rparr>"
    have "update_channel os p (channel_of p ?c2) (?w\<lparr>cw_conns := fmupd p ?c2 (cw_conns w)\<rparr>) = (Inr u, w')"
      using st loop c True blocked by (simp add: handle_write_def Let_def set_conn_def with_conn_def)
    moreover have "contents b = []" using True length_contents [OF b] by simp
    ultimately show ?thesis using conns_update_channel ok by (fastforce simp: conn_ok_def outgoing_def)
  next
    case False
    with st loop c blocked have "w' = ?w" by (simp add: handle_write_def Let_def)
    with ok show ?thesis by simp
  qed
qed

lemma open_atE: "open_at p w \<Longrightarrow> fmlookup (cw_conns w) p = Some c \<Longrightarrow> \<not> cn_closed c"
  by (simp add: open_at_def)

text \<open>
  C19: a connection sends what it is given, in order. As long as a connection stays open, and whatever parts of the
  data the kernel takes at each call, the bytes that the kernel has accepted followed by those in \<open>write_buffer_\<close> are
  what was there before followed by all the data given to \<open>send\<close>, and while bytes are waiting the channel asks
  for \<open>WRITE\<close>.
\<close>

theorem connection_sends_in_order:
  assumes "stays_closed on_close" and "net_bounded net"
    and "fmlookup (cw_conns w) p = Some c" and "conn_ok c" and "\<forall>d. Send d \<in> set ops \<longrightarrow> length d < 2 ^ 64"
    and "run_ops os net on_close p ops w = Some w'"
  shows "\<exists>c'. fmlookup (cw_conns w') p = Some c' \<and> outgoing c' = outgoing c @ given ops \<and>
           (contents (cn_write c') \<noteq> [] \<longrightarrow> cn_interest c' = event_or READ WRITE)"
  using assms(3-6)
proof (induction ops arbitrary: w c)
  case Nil
  then show ?case by (auto simp: conn_ok_def split: if_splits)
next
  case (Cons x ops)
  have c: "\<not> cn_closed c" using open_atE [OF run_ops_open [OF Cons.prems(4)] Cons.prems(1)] .
  obtain w1 c1 where w1: "run_ops os net on_close p ops w1 = Some w'" "fmlookup (cw_conns w1) p = Some c1" "conn_ok c1"
    "outgoing c1 = outgoing c @ given [x]"
  proof (cases x)
    case (Send d)
    then obtain w1 where "conn_send os net on_close p d w = (Inr (), w1)" "run_ops os net on_close p ops w1 = Some w'"
      using Cons.prems(4) by (auto split: if_splits prod.splits sum.splits)
    with send_step [OF assms(1,2) Cons.prems(1,2) c] run_ops_open Cons.prems(3) Send that show ?thesis by fastforce
  next
    case Writable
    then obtain w1 where "handle_write os net on_close p w = Some (Inr (), w1)" "run_ops os net on_close p ops w1 = Some w'"
      using Cons.prems(4) by (auto split: if_splits prod.splits sum.splits option.splits)
    with write_step [OF assms(1,2) Cons.prems(1,2) c] run_ops_open Writable that show ?thesis by fastforce
  qed
  from Cons.IH [OF w1(2,3) _ w1(1)] Cons.prems(3) w1(4) show ?case by (cases x) auto
qed

text \<open>A world with one open connection at address 2, for the concrete runs.\<close>

definition one_connection :: "demo_kernel conn_world" where
  "one_connection =
     \<lparr>lp_kernel = (demo_clock 0)\<lparr>dk_reg := fmupd 7 (to_epoll_events READ) fmempty\<rparr>, lp_poller = 3, lp_running = True, lp_channels = fmupd 7 2 fmempty,
      cw_server = \<lparr>sv_listen_fd = 5, sv_started = False, sv_on_connection = None, sv_on_close = None, sv_on_message = None\<rparr>,
      cw_conns = fmupd 2 \<lparr>cn_fd = 7, cn_started = True, cn_closed = False, cn_interest = READ,
        cn_read = \<lparr>buf = replicate 8 CHR 0x00, read_idx = 0, write_idx = 0\<rparr>,
        cn_write = \<lparr>buf = replicate 8 CHR 0x00, read_idx = 0, write_idx = 0\<rparr>,
        cn_on_message = Some 1, cn_on_close = None, cn_sent = []\<rparr> fmempty,
      cw_next = 3, cw_table = fmempty, cw_held = [2], cw_pins = []\<rparr>"

lemma one_connection_run:
  "(case run_ops demo_os (demo_net [] [Inr 2, Inl EAGAIN, Inr 1]) (\<lambda>_ _. eret ()) 2 [Send ''abcd'', Writable, Send ''ef'', Writable] one_connection of
      None \<Rightarrow> False
    | Some w \<Rightarrow> (case fmlookup (cw_conns w) 2 of None \<Rightarrow> False | Some c \<Rightarrow> cn_sent c = ''abc''))"
  by code_simp

theorem connection_sends_in_order_witness:
  "case run_ops demo_os (demo_net [] [Inr 2, Inl EAGAIN, Inr 1]) (\<lambda>_ _. eret ()) 2 [Send ''abcd'', Writable, Send ''ef'', Writable] one_connection of
     None \<Rightarrow> False
   | Some w \<Rightarrow>
       (case fmlookup (cw_conns w) 2 of
          None \<Rightarrow> False
        | Some c \<Rightarrow> cn_sent c = ''abc'' \<and> contents (cn_write c) = ''def'' \<and> cn_interest c = event_or READ WRITE)"
proof -
  let ?net = "demo_net [] [Inr 2, Inl EAGAIN, Inr 1]" and ?ops = "[Send ''abcd'', Writable, Send ''ef'', Writable]"
  have c: "fmlookup (cw_conns one_connection) 2 = Some (the (fmlookup (cw_conns one_connection) 2))"
    "conn_ok (the (fmlookup (cw_conns one_connection) 2))" "outgoing (the (fmlookup (cw_conns one_connection) 2)) = []"
    by (simp_all add: one_connection_def conn_ok_def buffer_defs outgoing_def)
  obtain w where w: "run_ops demo_os ?net (\<lambda>_ _. eret ()) 2 ?ops one_connection = Some w"
    "case fmlookup (cw_conns w) 2 of None \<Rightarrow> False | Some c \<Rightarrow> cn_sent c = ''abc''"
    using one_connection_run by (auto split: option.splits)
  have "stays_closed (\<lambda>_ _. eret () :: (demo_kernel conn_world, unit) eff)" by (simp add: stays_closed_def)
  from connection_sends_in_order [OF this demo_net_bounded c(1,2) _ w(1)] w c(3) show ?thesis by (auto simp: outgoing_def)
qed

section \<open>The end of the input\<close>

text \<open>
  C39: bytes that arrive together with the end of the stream are dropped. When a readiness event finds data and then
  end of file, \<open>handle_read\<close> puts the data into \<open>read_buffer_\<close> and closes the connection without calling the
  message callback, whatever it is; a peer that sends a request and shuts down its side is not answered.
\<close>

theorem bytes_before_eof_dropped:
  assumes c: "fmlookup (cw_conns w) p = Some c" and b: "buffer_inv (cn_read c)" and room: "room_for (length d) (cn_read c)"
    and recv: "nt_recv net (cn_fd c) 4096 (lp_kernel w) = (Inr d, k1)" "nt_recv net (cn_fd c) 4096 k1 = (Inr [], k2)" and "d \<noteq> []"
  shows "\<exists>b. contents b = contents (cn_read c) @ d \<and>
    (\<forall>on_message. handle_read os net on_close on_message p w =
       Some (conn_close os net on_close p (w\<lparr>lp_kernel := k2, cw_conns := fmupd p (c\<lparr>cn_read := b\<rparr>) (cw_conns w)\<rparr>)))"
proof -
  from append_string_ok [OF b room] obtain b1 where
    b1: "append (Some d) (word_of_nat (length d)) (cn_read c) = Inr b1" "contents b1 = contents (cn_read c) @ d"
    unfolding append_string_def by blast
  have "recv_loop net (cn_fd c) b1 k1 = Some (Ended, b1, k2)" using recv(2) by (subst recv_loop.simps) simp
  then have "recv_loop net (cn_fd c) (cn_read c) (lp_kernel w) = Some (Ended, b1, k2)"
    using recv(1) b1(1) \<open>d \<noteq> []\<close> by (subst recv_loop.simps) simp
  with c b1(2) show ?thesis by (auto simp: handle_read_def Let_def)
qed

theorem bytes_before_eof_dropped_witness:
  "\<exists>b. contents b = ''abc'' \<and>
     handle_read demo_os (demo_net [Inr ''abc'', Inr []] []) (\<lambda>_ _. eret ()) (\<lambda>_ _. ethrow (User_exn 1)) 2 one_connection =
       Some (conn_close demo_os (demo_net [Inr ''abc'', Inr []] []) (\<lambda>_ _. eret ()) 2
         (one_connection\<lparr>lp_kernel := (lp_kernel one_connection)\<lparr>dk_clock := 2\<rparr>,
            cw_conns := fmupd 2 ((the (fmlookup (cw_conns one_connection) 2))\<lparr>cn_read := b\<rparr>) (cw_conns one_connection)\<rparr>))"
proof -
  let ?c = "the (fmlookup (cw_conns one_connection) 2)" and ?k = "lp_kernel one_connection"
  let ?net = "demo_net [Inr ''abc'', Inr []] []"
  have c: "fmlookup (cw_conns one_connection) 2 = Some ?c" "buffer_inv (cn_read ?c)" "contents (cn_read ?c) = []"
    "room_for (length ''abc'') (cn_read ?c)"
    by (simp_all add: one_connection_def buffer_defs room_for_def writable_def)
  have r: "nt_recv ?net (cn_fd ?c) 4096 ?k = (Inr ''abc'', ?k\<lparr>dk_clock := 1\<rparr>)"
    "nt_recv ?net (cn_fd ?c) 4096 (?k\<lparr>dk_clock := 1\<rparr>) = (Inr [], ?k\<lparr>dk_clock := 2\<rparr>)"
    by (simp_all add: demo_net_def one_connection_def demo_clock_def)
  show ?thesis using bytes_before_eof_dropped [OF c(1,2,4) r, of demo_os "\<lambda>_ _. eret ()"] c(3) by auto
qed

section \<open>Termination\<close>

text \<open>
  The peers do not keep the process busy for ever: some measure of the kernel's state decreases when data or a
  connection is taken from it and when a call has to be repeated, and no call that the library makes between two
  waits increases it.
\<close>

definition calms :: "'k os \<Rightarrow> 'k net \<Rightarrow> ('k \<Rightarrow> nat) \<Rightarrow> bool" where
  "calms os net m \<longleftrightarrow>
     (\<forall>poller cmd fd ev k. m (snd (os_epoll_ctl os poller cmd fd ev k)) \<le> m k) \<and>
     (\<forall>fd k. m (nt_close net fd k) \<le> m k) \<and> (\<forall>fd cmd arg k. m (snd (nt_fcntl net fd cmd arg k)) \<le> m k) \<and>
     (\<forall>fd n k r k'. nt_recv net fd n k = (r, k') \<longrightarrow>
        m k' \<le> m k \<and> (r = Inl EINTR \<or> (\<exists>d. r = Inr d \<and> d \<noteq> []) \<longrightarrow> m k' < m k)) \<and>
     (\<forall>fd d k r k'. nt_send net fd d k = (r, k') \<longrightarrow>
        m k' \<le> m k \<and> (r = Inl EINTR \<or> r = Inr 0 \<and> d \<noteq> [] \<longrightarrow> m k' < m k)) \<and>
     (\<forall>fd k r k'. nt_accept net fd k = (r, k') \<longrightarrow>
        m k' \<le> m k \<and> (r = Inl EINTR \<or> r = Inl ECONNABORTED \<or> (\<exists>c. r = Inr c) \<longrightarrow> m k' < m k))"

lemma calmsD:
  assumes "calms os net m"
  shows "m (snd (os_epoll_ctl os poller ctl fd ev k)) \<le> m k" and "m (nt_close net fd k) \<le> m k"
    and "m (snd (nt_fcntl net fd cmd arg k)) \<le> m k"
    and "nt_recv net fd n k = (r, k') \<Longrightarrow> m k' \<le> m k \<and> (r = Inl EINTR \<or> (\<exists>d. r = Inr d \<and> d \<noteq> []) \<longrightarrow> m k' < m k)"
    and "nt_send net fd d k = (r', k') \<Longrightarrow> m k' \<le> m k \<and> (r' = Inl EINTR \<or> r' = Inr 0 \<and> d \<noteq> [] \<longrightarrow> m k' < m k)"
    and "nt_accept net fd k = (r'', k') \<Longrightarrow>
      m k' \<le> m k \<and> (r'' = Inl EINTR \<or> r'' = Inl ECONNABORTED \<or> (\<exists>c. r'' = Inr c) \<longrightarrow> m k' < m k)"
  using assms by (simp_all add: calms_def)

lemma recv_loop_returns:
  assumes "calms os net m" shows "\<exists>y. recv_loop net fd b k = Some y"
proof (induction "m k" arbitrary: b k rule: less_induct)
  case less
  obtain r k1 where r: "nt_recv net fd 4096 k = (r, k1)" by force
  note D = calmsD(4) [OF assms r]
  show ?case
    using r D less by (subst recv_loop.simps) (auto split: sum.split)
qed

lemma send_loop_returns:
  assumes "calms os net m" and net: "net_bounded net" and "buffer_inv b"
  shows "\<exists>y. send_loop net fd sent b k = Some y"
  using assms(3)
proof (induction "m k + length (contents b)" arbitrary: sent b k rule: less_induct)
  case less
  note b = less.prems
  have rd: "read_ptr (readable b) b = Inr (contents b)"
    using read_ptr_contents [OF b, of "readable b"] length_contents [OF b] by simp
  obtain r k1 where r: "nt_send net fd (contents b) k = (r, k1)" by force
  note D = calmsD(5) [OF assms(1) r]
  show ?case
  proof (cases "readable b \<noteq> 0 \<and> (\<exists>count. r = Inr count \<and> 0 < count)")
    case True
    then obtain count where count: "r = Inr count" "0 < count" by blast
    then have le: "count \<le> length (contents b)" using net_boundedD(2) [OF net] r by blast
    then have u: "unat (word_of_nat count :: size_t) = count"
      using length_contents [OF b] le_less_trans [OF _ unat_lt_64, of count "readable b"] by (intro unat_of_nat_64) simp
    from consume_ok [OF b, of "word_of_nat count"] le u obtain b1 where
      b1: "consume (word_of_nat count) b = Inr b1" "buffer_inv b1" "contents b1 = drop count (contents b)" by auto
    have "m k1 + length (contents b1) < m k + length (contents b)" using conjunct1 [OF D] b1(3) count(2) le by simp
    from less.hyps [OF this b1(2)] True rd r count b1(1) show ?thesis by (subst send_loop.simps) simp
  next
    case False
    have "readable b \<noteq> 0 \<Longrightarrow> contents b \<noteq> []" using length_contents [OF b] by (auto simp: unat_eq_0)
    with False rd r D less.hyps [OF _ b, of k1] show ?thesis by (subst send_loop.simps) (auto split: sum.split)
  qed
qed

end
