(* ===== verification/Tcp_Server.thy ===== *)
theory Tcp_Server
  imports Tcp_Connection
begin

text \<open>
  \<open>TcpServer\<close> of \<open>include/tinycoro/tcp_server.h\<close> and \<open>src/tcp_server.cpp\<close>: it accepts connections, keeps them alive in
  its table until they are closed, and passes them to the callbacks of the program. Together with the event loop and
  the connections this is the callback-oriented half of the library.
\<close>

section \<open>Operations\<close>

definition SOMAXCONN :: int where "SOMAXCONN = 4096"
definition INADDR_ANY :: u32 where "INADDR_ANY = 0"

definition set_nonblocking :: "'k net \<Rightarrow> int \<Rightarrow> ('k, unit) eff" where
  "set_nonblocking net fd =
     ebind (sys ''fcntl O_NONBLOCK'' (nt_fcntl net fd F_GETFL 0)) (\<lambda>status_flags.
     ebind (sys ''fcntl O_NONBLOCK'' (nt_fcntl net fd F_SETFL (status_flags OR O_NONBLOCK))) (\<lambda>_.
     ebind (sys ''fcntl FD_CLOEXEC'' (nt_fcntl net fd F_GETFD 0)) (\<lambda>descriptor_flags.
     ebind (sys ''fcntl FD_CLOEXEC'' (nt_fcntl net fd F_SETFD (descriptor_flags OR FD_CLOEXEC))) (\<lambda>_. eret ()))))"

definition set_reuse_addr :: "'k net \<Rightarrow> int \<Rightarrow> ('k, unit) eff" where
  "set_reuse_addr net fd = sys ''setsockopt SO_REUSEADDR'' (nt_setsockopt net fd SOL_SOCKET SO_REUSEADDR 1)"

definition create_listen_fd :: "'k net \<Rightarrow> 16 word \<Rightarrow> ('k, int) eff" where
  "create_listen_fd net port =
     ebind (sys ''socket'' (nt_socket net SOCK_STREAM)) (\<lambda>fd.
       ecatch
         (ebind (set_reuse_addr net fd) (\<lambda>_.
          ebind (set_nonblocking net fd) (\<lambda>_.
          ebind (sys ''bind'' (nt_bind net fd INADDR_ANY (htons port))) (\<lambda>_.
          ebind (sys ''listen'' (nt_listen net fd SOMAXCONN)) (\<lambda>_. eret fd)))))
         (\<lambda>e. ebind (emodify (nt_close net fd)) (\<lambda>_. ethrow e)))"

text \<open>\<open>loop\<close> is the address of the loop, 0 for null.\<close>

definition TcpServer :: "'k net \<Rightarrow> nat \<Rightarrow> 16 word \<Rightarrow> (('k, 'm) conn_world_scheme, unit) eff" where
  "TcpServer net loop port =
     (if loop = 0 then ethrow (Invalid_argument ''TcpServer requires an EventLoop'')
      else
        ebind (on_kernel (create_listen_fd net port)) (\<lambda>fd.
          emodify (\<lambda>w. w\<lparr>cw_server := \<lparr>sv_listen_fd = fd, sv_started = False, sv_on_connection = None, sv_on_close = None,
            sv_on_message = None\<rparr>, cw_table := fmempty\<rparr>)))"

definition accept_channel :: "server \<Rightarrow> (nat \<times> event) channel" where
  "accept_channel s = \<lparr>ch_fd = sv_listen_fd s, ch_on_read = Some (1, READ), ch_on_write = None, ch_interest = READ\<rparr>"

definition server_start :: "'k os \<Rightarrow> (('k, 'm) conn_world_scheme, unit) eff" where
  "server_start os w =
     (if sv_started (cw_server w) then (Inl (Logic_error ''TcpServer already started''), w)
      else
        ebind (add_channel os 1 (accept_channel (cw_server w))) (\<lambda>_.
          emodify (\<lambda>w. w\<lparr>cw_server := (cw_server w)\<lparr>sv_started := True\<rparr>\<rparr>)) w)"

definition server_set_connection_callback :: "nat \<Rightarrow> (('k, 'm) conn_world_scheme, unit) eff" where
  "server_set_connection_callback f = emodify (\<lambda>w. w\<lparr>cw_server := (cw_server w)\<lparr>sv_on_connection := Some f\<rparr>\<rparr>)"

definition server_set_message_callback :: "nat \<Rightarrow> (('k, 'm) conn_world_scheme, unit) eff" where
  "server_set_message_callback f = emodify (\<lambda>w. w\<lparr>cw_server := (cw_server w)\<lparr>sv_on_message := Some f\<rparr>\<rparr>)"

definition server_set_close_callback :: "nat \<Rightarrow> (('k, 'm) conn_world_scheme, unit) eff" where
  "server_set_close_callback f = emodify (\<lambda>w. w\<lparr>cw_server := (cw_server w)\<lparr>sv_on_close := Some f\<rparr>\<rparr>)"

text \<open>\<open>connections_.erase(fd)\<close>, which ends the shared pointer of the entry.\<close>

definition table_erase :: "'k os \<Rightarrow> 'k net \<Rightarrow> int \<Rightarrow> (('k, 'm) conn_world_scheme, unit) eff" where
  "table_erase os net fd w =
     (case fmlookup (cw_table w) fd of
        None \<Rightarrow> (Inr (), w)
      | Some q \<Rightarrow> release os net q (w\<lparr>cw_table := fmdrop fd (cw_table w)\<rparr>))"

text \<open>\<open>on_user f\<close> calls the function \<open>f\<close> of the program with a connection.\<close>

definition handle_close ::
  "'k os \<Rightarrow> 'k net \<Rightarrow> (nat \<Rightarrow> nat \<Rightarrow> (('k, 'm) conn_world_scheme, unit) eff) \<Rightarrow> nat \<Rightarrow> (('k, 'm) conn_world_scheme, unit) eff" where
  "handle_close os net on_user p w =
     (let callback = sv_on_close (cw_server w) in
      ebind (with_conn p (\<lambda>c. table_erase os net (cn_fd c))) (\<lambda>_.
        case callback of None \<Rightarrow> eret () | Some f \<Rightarrow> on_user f p) w)"

text \<open>
  The close callback of a connection is the function 0, the one that the server sets, which calls \<open>handle_close\<close>,
  or a function of the program.
\<close>

definition server_on_close ::
  "'k os \<Rightarrow> 'k net \<Rightarrow> (nat \<Rightarrow> nat \<Rightarrow> (('k, 'm) conn_world_scheme, unit) eff) \<Rightarrow> nat \<Rightarrow> nat \<Rightarrow> (('k, 'm) conn_world_scheme, unit) eff" where
  "server_on_close os net on_user f p = (if f = 0 then handle_close os net on_user p else on_user f p)"

text \<open>
  What \<open>handle_accept\<close> does with a new connection. \<open>alloc\<close> tells whether an allocation succeeds: number 0 in
  \<open>make_shared\<close>, number 1 in \<open>emplace\<close>.
\<close>

definition table_emplace :: "(nat \<Rightarrow> 'k \<Rightarrow> bool) \<Rightarrow> int \<Rightarrow> nat \<Rightarrow> (('k, 'm) conn_world_scheme, unit) eff" where
  "table_emplace alloc fd p w =
     (if \<not> alloc 1 (lp_kernel w) then (Inl Bad_alloc, w)
      else if fmlookup (cw_table w) fd \<noteq> None then (Inr (), w)
      else (Inr (), w\<lparr>cw_table := fmupd fd p (cw_table w)\<rparr>))"

definition set_up ::
  "'k os \<Rightarrow> (nat \<Rightarrow> 'k \<Rightarrow> bool) \<Rightarrow> (nat \<Rightarrow> nat \<Rightarrow> (('k, 'm) conn_world_scheme, unit) eff) \<Rightarrow>
   int \<Rightarrow> nat \<Rightarrow> (('k, 'm) conn_world_scheme, unit) eff" where
  "set_up os alloc on_user fd p =
     ebind (set_close_callback p 0) (\<lambda>_.
     ebind (\<lambda>w. case sv_on_message (cw_server w) of None \<Rightarrow> (Inr (), w) | Some f \<Rightarrow> set_message_callback p f w) (\<lambda>_.
     ebind (table_emplace alloc fd p) (\<lambda>_.
     ebind (conn_start os p) (\<lambda>_ w.
       case sv_on_connection (cw_server w) of None \<Rightarrow> (Inr (), w) | Some f \<Rightarrow> on_user f p w))))"

definition adopt_connection ::
  "'k os \<Rightarrow> 'k net \<Rightarrow> (nat \<Rightarrow> 'k \<Rightarrow> bool) \<Rightarrow> (nat \<Rightarrow> nat \<Rightarrow> (('k, 'm) conn_world_scheme, unit) eff) \<Rightarrow>
   int \<Rightarrow> (('k, 'm) conn_world_scheme, unit) eff" where
  "adopt_connection os net alloc on_user fd w =
     (if \<not> alloc 0 (lp_kernel w) then (Inl Bad_alloc, w)
      else case TcpConnection fd 1 of
        Inl e \<Rightarrow> (Inl e, w)
      | Inr c \<Rightarrow>
          let p = cw_next w in
          pinned os net p
            (ecatch (set_up os alloc on_user fd p)
               (\<lambda>e. ebind (with_conn p (\<lambda>c. if cn_closed c then eret () else conn_close os net (server_on_close os net on_user) p))
                      (\<lambda>_. ethrow e)))
            (w\<lparr>cw_conns := fmupd p c (cw_conns w), cw_next := p + 1\<rparr>))"

definition accept_one ::
  "'k os \<Rightarrow> 'k net \<Rightarrow> (nat \<Rightarrow> 'k \<Rightarrow> bool) \<Rightarrow> (nat \<Rightarrow> nat \<Rightarrow> (('k, 'm) conn_world_scheme, unit) eff) \<Rightarrow>
   int \<Rightarrow> (('k, 'm) conn_world_scheme, unit) eff" where
  "accept_one os net alloc on_user fd =
     ebind (on_kernel (ecatch (set_nonblocking net fd) (\<lambda>e. ebind (emodify (nt_close net fd)) (\<lambda>_. ethrow e)))) (\<lambda>_.
       adopt_connection os net alloc on_user fd)"

partial_function (option) handle_accept ::
  "'k os \<Rightarrow> 'k net \<Rightarrow> (nat \<Rightarrow> 'k \<Rightarrow> bool) \<Rightarrow> (nat \<Rightarrow> nat \<Rightarrow> (('k, 'm) conn_world_scheme, unit) eff) \<Rightarrow>
   ('k, 'm) conn_world_scheme \<Rightarrow> (unit result \<times> ('k, 'm) conn_world_scheme) option" where
  "handle_accept os net alloc on_user w =
     (case nt_accept net (sv_listen_fd (cw_server w)) (lp_kernel w) of
        (Inl errno, k) \<Rightarrow>
          if errno = EINTR \<or> errno = ECONNABORTED then handle_accept os net alloc on_user (w\<lparr>lp_kernel := k\<rparr>)
          else Some (Inr (), w\<lparr>lp_kernel := k\<rparr>)
      | (Inr fd, k) \<Rightarrow>
          let r = accept_one os net alloc on_user fd (w\<lparr>lp_kernel := k\<rparr>) in
          (case fst r of Inl e \<Rightarrow> Some r | Inr _ \<Rightarrow> handle_accept os net alloc on_user (snd r)))"

declare handle_accept.simps [code]

text \<open>The destructor; \<open>begin()\<close> of the table is taken to be the entry with the least descriptor.\<close>

partial_function (option) close_connections ::
  "'k os \<Rightarrow> 'k net \<Rightarrow> (nat \<Rightarrow> nat \<Rightarrow> (('k, 'm) conn_world_scheme, unit) eff) \<Rightarrow>
   ('k, 'm) conn_world_scheme \<Rightarrow> (unit result \<times> ('k, 'm) conn_world_scheme) option" where
  "close_connections os net on_user w =
     (case sorted_list_of_fset (fmdom (cw_table w)) of
        [] \<Rightarrow> Some (Inr (), w)
      | fd # _ \<Rightarrow>
          let r = conn_close os net (server_on_close os net on_user) (the (fmlookup (cw_table w) fd)) w in
          (case fst r of Inl e \<Rightarrow> Some r | Inr _ \<Rightarrow> close_connections os net on_user (snd r)))"

declare close_connections.simps [code]

definition server_destroy ::
  "'k os \<Rightarrow> 'k net \<Rightarrow> (nat \<Rightarrow> nat \<Rightarrow> (('k, 'm) conn_world_scheme, unit) eff) \<Rightarrow>
   ('k, 'm) conn_world_scheme \<Rightarrow> (unit result \<times> ('k, 'm) conn_world_scheme) option" where
  "server_destroy os net on_user w =
     map_option (\<lambda>(r, w).
       case r of
         Inl e \<Rightarrow> (Inl e, w)
       | Inr _ \<Rightarrow>
           ebind (if sv_started (cw_server w) then remove_channel os 1 (accept_channel (cw_server w)) else eret ()) (\<lambda>_.
             if 0 \<le> sv_listen_fd (cw_server w) then on_kernel (emodify (nt_close net (sv_listen_fd (cw_server w)))) else eret ()) w)
       (close_connections os net on_user (w\<lparr>cw_server := (cw_server w)\<lparr>sv_on_close := None\<rparr>\<rparr>))"

section \<open>The server under the event loop\<close>

text \<open>
  The channels of the server and of its connections, and the handlers that they call. A handler that does not return is
  counted as undefined.
\<close>

definition server_chan_at :: "('k, 'm) conn_world_scheme \<Rightarrow> nat \<Rightarrow> (nat \<times> event) channel option" where
  "server_chan_at w p =
     (if p = 1 then Some (accept_channel (cw_server w)) else map_option (channel_of p) (fmlookup (cw_conns w) p))"

definition server_invoke ::
  "'k os \<Rightarrow> 'k net \<Rightarrow> (nat \<Rightarrow> 'k \<Rightarrow> bool) \<Rightarrow> (nat \<Rightarrow> nat \<Rightarrow> (('k, 'm) conn_world_scheme, unit) eff) \<Rightarrow>
   nat \<times> event \<Rightarrow> (('k, 'm) conn_world_scheme, unit) eff" where
  "server_invoke os net alloc on_user cb w =
     (case cb of (p, ev) \<Rightarrow>
        (case (if p = 1 then handle_accept os net alloc on_user w
               else if ev = READ then handle_read os net (server_on_close os net on_user) on_user p w
               else handle_write os net (server_on_close os net on_user) p w) of
           None \<Rightarrow> (Inl Undefined_behaviour, w)
         | Some r \<Rightarrow> r))"

section \<open>Closing\<close>

lemma conn_inv_erase:
  assumes inv: "conn_inv X {} w" and q: "fmlookup (cw_table w) fd = Some q"
  shows "conn_inv X {q} (w\<lparr>cw_table := fmdrop fd (cw_table w)\<rparr>)" and "fmlookup (cw_conns w) q \<noteq> None"
proof -
  from inv q obtain c where c: "fmlookup (cw_conns w) q = Some c" by (auto simp: conn_inv_def table_inv_def)
  have keep: "referenced p (w\<lparr>cw_table := fmdrop fd (cw_table w)\<rparr>)" if "referenced p w" "p \<noteq> q" for p
  proof -
    have "p |\<in>| fmran (cw_table w) \<Longrightarrow> p |\<in>| fmran (fmdrop fd (cw_table w))"
      using q that(2) unfolding fmlookup_ran_iff by (metis fmlookup_drop option.inject)
    with that(1) show ?thesis by (auto simp: referenced_def simp del: fmran_drop)
  qed
  have "conns_inv {q} (w\<lparr>cw_table := fmdrop fd (cw_table w)\<rparr>)"
    using inv keep by (auto simp: conn_inv_def conns_inv_def)
  moreover have "table_inv X (w\<lparr>cw_table := fmdrop fd (cw_table w)\<rparr>)"
    using inv by (auto simp: conn_inv_def table_inv_def)
  ultimately show "conn_inv X {q} (w\<lparr>cw_table := fmdrop fd (cw_table w)\<rparr>)"
    using inv by (simp add: conn_inv_def chans_inv_def refs_inv_def)
  show "fmlookup (cw_conns w) q \<noteq> None" using c by simp
qed

lemma wp_table_erase:
  assumes inv: "conn_inv {p} {} w" and c: "fmlookup (cw_conns w) p = Some c"
  shows "wp (table_erase os net (cn_fd c)) (\<lambda>_ w'. conn_inv {} {} w' \<and> cw_pins w' = cw_pins w) E w"
proof (cases "fmlookup (cw_table w) (cn_fd c)")
  case None
  then have "fmlookup (cw_table w) fd \<noteq> Some p" for fd using table_invD(1) [OF inv _ c] by fastforce
  with inv have "conn_inv {} {} w" by (rule conn_inv_settle)
  with None show ?thesis by (simp add: wp_def table_erase_def)
next
  case (Some q)
  let ?w = "w\<lparr>cw_table := fmdrop (cn_fd c) (cw_table w)\<rparr>"
  have gone: "fmlookup (cw_table ?w) fd \<noteq> Some p" for fd using table_invD(1) [OF inv _ c] by auto
  have "conn_inv {} {q} ?w" by (rule conn_inv_settle [OF conn_inv_erase(1) [OF inv Some] gone])
  from wp_release [OF this, of os net E] conn_inv_erase(2) [OF inv Some] Some show ?thesis
    by (simp add: wp_def table_erase_def)
qed

locale server_client =
  fixes os :: "'k os" and net :: "'k net" and on_user :: "nat \<Rightarrow> nat \<Rightarrow> (('k, 'm) conn_world_scheme, unit) eff"
  assumes net_ok: "net_bounded net"
    and user_ok: "conn_inv {} {} w \<Longrightarrow> p \<in> set (cw_pins w) \<Longrightarrow> harmless (on_user f p) w"
begin

lemma harmless_handle_close:
  assumes inv: "conn_inv {p} {} w" and p: "p \<in> set (cw_pins w)" and c: "fmlookup (cw_conns w) p = Some c"
  shows "harmless (handle_close os net on_user p) w"
proof -
  let ?call = "case sv_on_close (cw_server w) of None \<Rightarrow> eret () | Some f \<Rightarrow> on_user f p"
  have "harmless ?call w'" if "conn_inv {} {} w'" "cw_pins w' = cw_pins w" for w'
    using that user_ok [OF that(1), of p] p by (auto simp: harmless_def split: option.split)
  then have "wp (ebind (with_conn p (\<lambda>c. table_erase os net (cn_fd c))) (\<lambda>_. ?call))
      (\<lambda>_ w'. conn_inv {} {} w' \<and> cw_pins w' = cw_pins w) (\<lambda>_ w'. conn_inv {} {} w' \<and> cw_pins w' = cw_pins w) w"
    using wp_table_erase [OF inv c, of os net] c
    by (intro wp_bindI [where R = "\<lambda>_ w'. conn_inv {} {} w' \<and> cw_pins w' = cw_pins w"]) (auto simp: wp_with_conn harmless_def)
  then show ?thesis by (simp add: harmless_def handle_close_def wp_def Let_def)
qed

end

sublocale server_client \<subseteq> conns: connection_client os net "server_on_close os net on_user" on_user
proof
  show "net_bounded net" by (rule net_ok)
  show "harmless (server_on_close os net on_user f p) w"
    if "conn_inv {p} {} w" "p \<in> set (cw_pins w)" "fmlookup (cw_conns w) p = Some c" "cn_closed c" "cn_on_close c = Some f" for p w c f
  proof (cases "f = 0")
    case True
    with harmless_handle_close [OF that(1-3)] show ?thesis by (simp add: server_on_close_def)
  next
    case False
    then have "fmlookup (cw_table w) fd \<noteq> Some p" for fd using table_invD(2) [OF that(1) _ that(3)] that(5) by auto
    with that(1) have "conn_inv {} {} w" by (rule conn_inv_settle)
    from user_ok [OF this that(2)] False show ?thesis by (simp add: server_on_close_def)
  qed
  show "conn_inv {} {} w \<Longrightarrow> p \<in> set (cw_pins w) \<Longrightarrow> harmless (on_user f p) w" for w p f by (rule user_ok)
qed

context server_client
begin

lemmas user_send = conns.harmless_send
lemmas user_close = conns.harmless_close

end

section \<open>Accepting\<close>

lemma harmless_same:
  assumes "harmless m w" and "conn_inv {} {} w'" and "cw_pins w' = cw_pins w" and "m w = m' w'"
  shows "harmless m' w'"
  using assms by (simp add: harmless_def wp_def)

lemma harmless_catch:
  assumes "harmless m w"
    and "\<And>e w'. conn_inv {} {} w' \<Longrightarrow> cw_pins w' = cw_pins w \<Longrightarrow> e \<noteq> Undefined_behaviour \<Longrightarrow> harmless (h e) w'"
  shows "harmless (ecatch m h) w"
proof -
  have "wp m (\<lambda>_ w'. conn_inv {} {} w' \<and> cw_pins w' = cw_pins w)
      (\<lambda>e. wp (h e) (\<lambda>_ w'. conn_inv {} {} w' \<and> cw_pins w' = cw_pins w) (\<lambda>_ w'. conn_inv {} {} w' \<and> cw_pins w' = cw_pins w)) w"
    using assms by (auto simp: harmless_def wp_def [of m] split: prod.splits sum.splits)
  then show ?thesis by (simp add: harmless_def wp_ecatch)
qed

lemma TcpConnection_ok:
  assumes "TcpConnection fd loop = Inr c"
  shows "conn_ok c \<and> cn_fd c = fd \<and> \<not> cn_started c \<and> \<not> cn_closed c \<and> cn_read c = cn_write c \<and> contents (cn_write c) = []"
proof -
  obtain b where "Buffer_new kInitialSize = Inr b" "buffer_inv b" "contents b = []"
    using assms Buffer_new_ok [of kInitialSize] by (auto simp: TcpConnection_def kInitialSize_def vector_max_size_def)
  with assms show ?thesis by (auto simp: TcpConnection_def conn_ok_def split: if_splits)
qed

text \<open>A connection that only a local variable refers to.\<close>

lemma conn_inv_new:
  assumes inv: "conn_inv {} {} w" and c: "conn_ok c" "\<not> cn_started c" and "p = cw_next w"
  shows "conn_inv {} {} (w\<lparr>cw_conns := fmupd p c (cw_conns w), cw_next := p + 1, cw_pins := p # cw_pins w\<rparr>)"
proof -
  have fresh: "fmlookup (cw_conns w) p = None" using conn_invD(3) [OF inv, of p] assms(4) by (cases "fmlookup (cw_conns w) p") auto
  let ?w = "w\<lparr>cw_conns := fmupd p c (cw_conns w), cw_next := p + 1, cw_pins := p # cw_pins w\<rparr>"
  have p: "2 \<le> p" using inv assms(4) by (simp add: conn_inv_def refs_inv_def)
  have unused: "fmlookup (lp_channels w) fd \<noteq> Some p" "fmlookup (cw_table w) fd \<noteq> Some p" for fd
    using inv fresh p by (force simp: conn_inv_def chans_inv_def, force simp: conn_inv_def table_inv_def)
  have "conns_inv {} ?w" using inv c p assms(4) by (auto simp: conn_inv_def conns_inv_def referenced_def less_Suc_eq)
  moreover have "chans_inv ?w" using inv unused(1) by (auto simp: conn_inv_def chans_inv_def)
  moreover have "table_inv {} ?w" using inv unused(2) by (auto simp: conn_inv_def table_inv_def)
  moreover have "refs_inv ?w" using inv p by (auto simp: conn_inv_def refs_inv_def)
  ultimately show ?thesis by (simp add: conn_inv_def)
qed

lemma conn_inv_emplace:
  assumes inv: "conn_inv {} {} w" and c: "fmlookup (cw_conns w) p = Some c" "cn_fd c = fd" "cn_on_close c = Some 0" "\<not> cn_closed c"
    and "fmlookup (cw_table w) fd = None"
  shows "conn_inv {} {} (w\<lparr>cw_table := fmupd fd p (cw_table w)\<rparr>)"
proof -
  let ?w = "w\<lparr>cw_table := fmupd fd p (cw_table w)\<rparr>"
  have "referenced q w \<Longrightarrow> referenced q ?w" for q
    using assms(6) by (force simp: referenced_def fmlookup_ran_iff)
  then have "conns_inv {} ?w" using inv by (auto simp: conn_inv_def conns_inv_def)
  moreover have "table_inv {} ?w" using inv c by (auto simp: conn_inv_def table_inv_def)
  ultimately show ?thesis using inv by (simp add: conn_inv_def chans_inv_def refs_inv_def)
qed

context server_client
begin

text \<open>The steps of \<open>set_up\<close>, of a connection that a local variable refers to.\<close>

lemma harmless_set_up:
  assumes inv: "conn_inv {} {} w" and p: "p \<in> set (cw_pins w)"
    and c: "fmlookup (cw_conns w) p = Some c" "cn_fd c = fd" "\<not> cn_closed c" and new: "\<And>x. fmlookup (cw_table w) x \<noteq> Some p"
  shows "harmless (set_up os alloc on_user fd p) w"
proof -
  let ?c1 = "c\<lparr>cn_on_close := Some 0\<rparr>"
  define c2 where "c2 = (case sv_on_message (cw_server w) of None \<Rightarrow> ?c1 | Some f \<Rightarrow> ?c1\<lparr>cn_on_message := Some f\<rparr>)"
  let ?w = "w\<lparr>cw_conns := fmupd p c2 (cw_conns w)\<rparr>"
  have c2: "conn_ok c2" "cn_fd c2 = fd" "cn_started c2 = cn_started c" "\<not> cn_closed c2" "cn_on_close c2 = Some 0"
    using conn_invD(1) [OF inv c(1)] c(2,3) by (auto simp: c2_def conn_ok_def split: option.split)
  have inv2: "conn_inv {} {} ?w" by (rule conn_inv_set [OF inv c(1)]) (use c2 c new in auto)
  define rest where "rest = ebind (table_emplace alloc fd p) (\<lambda>_. ebind (conn_start os p) (\<lambda>_ w.
       case sv_on_connection (cw_server w) of None \<Rightarrow> (Inr (), w) | Some f \<Rightarrow> on_user f p w))"
  have call: "harmless (\<lambda>w. case sv_on_connection (cw_server w) of None \<Rightarrow> (Inr (), w) | Some f \<Rightarrow> on_user f p w) v"
    if "conn_inv {} {} v" "cw_pins v = cw_pins w" for v
    using user_ok [OF that(1)] that p by (auto simp: harmless_def wp_def split: option.split)
  have "harmless (ebind (conn_start os p) (\<lambda>_ w. case sv_on_connection (cw_server w) of None \<Rightarrow> (Inr (), w) | Some f \<Rightarrow> on_user f p w)) v"
    if "conn_inv {} {} v" "cw_pins v = cw_pins w" for v
  proof -
    from that p obtain cv where "fmlookup (cw_conns v) p = Some cv" by (auto simp: conn_inv_def refs_inv_def)
    from harmless_start [OF that(1) this] show ?thesis by (rule harmless_bind) (use that call in auto)
  qed
  moreover have "harmless (table_emplace alloc fd p) ?w"
  proof -
    have "conn_inv {} {} (?w\<lparr>cw_table := fmupd fd p (cw_table ?w)\<rparr>)" if "fmlookup (cw_table w) fd = None"
      by (rule conn_inv_emplace [OF inv2]) (use c2 that in auto)
    with inv2 show ?thesis by (auto simp: harmless_def wp_def table_emplace_def)
  qed
  ultimately have "harmless rest ?w" unfolding rest_def by (intro harmless_bind [of "table_emplace alloc fd p"]) auto
  moreover have "set_up os alloc on_user fd p w = rest ?w"
    using c(1) by (simp add: set_up_def rest_def set_close_callback_def set_message_callback_def set_conn_def with_conn_def ebind_def
        c2_def split: option.split)
  ultimately show ?thesis by (simp add: harmless_def wp_def)
qed

lemma harmless_adopt:
  assumes inv: "conn_inv {} {} w"
  shows "harmless (adopt_connection os net alloc on_user fd) w"
proof (cases "alloc 0 (lp_kernel w)")
  case False
  with inv show ?thesis by (simp add: harmless_def wp_def adopt_connection_def)
next
  case True
  show ?thesis
  proof (cases "TcpConnection fd 1")
    case (Inl e)
    then have "e \<noteq> Undefined_behaviour" using Buffer_new_ok [of kInitialSize]
      by (auto simp: TcpConnection_def kInitialSize_def vector_max_size_def split: if_splits)
    with True Inl inv show ?thesis by (simp add: harmless_def wp_def adopt_connection_def)
  next
    case (Inr c)
    note c = TcpConnection_ok [OF Inr]
    define p where "p = cw_next w"
    let ?w = "w\<lparr>cw_conns := fmupd p c (cw_conns w), cw_next := p + 1\<rparr>"
    let ?wp = "?w\<lparr>cw_pins := p # cw_pins ?w\<rparr>"
    let ?undo = "\<lambda>e. ebind (with_conn p (\<lambda>c. if cn_closed c then eret () else conn_close os net (server_on_close os net on_user) p)) (\<lambda>_. ethrow e)"
    have invp: "conn_inv {} {} ?wp" using conn_inv_new [OF inv, of c p] c by (simp add: p_def)
    have new: "fmlookup (cw_table ?wp) x \<noteq> Some p" for x
    proof
      assume x: "fmlookup (cw_table ?wp) x = Some p"
      with inv obtain c' where "fmlookup (cw_conns w) p = Some c'" by (auto simp: conn_inv_def table_inv_def)
      with conn_invD(3) [OF inv this] show False by (simp add: p_def)
    qed
    have undo: "harmless (?undo e) v" if v: "conn_inv {} {} v" "cw_pins v = cw_pins ?wp" and e: "e \<noteq> Undefined_behaviour" for e v
    proof -
      from v obtain cv where cv: "fmlookup (cw_conns v) p = Some cv" by (auto simp: conn_inv_def refs_inv_def)
      from conns.harmless_close [OF v(1) cv] v cv e show ?thesis
        by (cases "cn_closed cv") (auto simp: harmless_def wp_ebind wp_with_conn elim!: wp_conseq)
    qed
    have "harmless (set_up os alloc on_user fd p) ?wp"
      by (rule harmless_set_up [OF invp _ _ _ _ new, of c]) (use c in auto)
    then have "harmless (ecatch (set_up os alloc on_user fd p) ?undo) ?wp"
      using undo by (intro harmless_catch) auto
    from harmless_pinned [OF this, of os net] True Inr show ?thesis
      by (simp add: harmless_def wp_def adopt_connection_def p_def [symmetric] Let_def)
  qed
qed

lemma harmless_accept_one:
  assumes inv: "conn_inv {} {} w"
  shows "harmless (accept_one os net alloc on_user fd) w"
proof -
  let ?m = "ecatch (set_nonblocking net fd) (\<lambda>e. ebind (emodify (nt_close net fd)) (\<lambda>_. ethrow e))"
  have "fst (?m (lp_kernel w)) \<noteq> Inl Undefined_behaviour"
    by (auto simp: ecatch_def set_nonblocking_def sys_def ebind_def split: prod.splits sum.splits)
  then have "harmless (on_kernel ?m) w" using inv by (auto simp: harmless_def wp_def on_kernel_def split: prod.splits sum.splits)
  then show ?thesis unfolding accept_one_def by (rule harmless_bind) (rule harmless_adopt)
qed

lemma handle_accept_ok:
  assumes inv: "conn_inv {} {} w" and st: "handle_accept os net alloc on_user w = Some y"
  shows "fst y \<noteq> Inl Undefined_behaviour \<and> conn_inv {} {} (snd y)"
proof -
  let ?P = "\<lambda>os' net' alloc on_user' w y. os' = os \<and> net' = net \<and> on_user' = on_user \<and> conn_inv {} {} w \<longrightarrow>
    fst y \<noteq> Inl Undefined_behaviour \<and> conn_inv {} {} (snd y)"
  have "?P os net alloc on_user w y"
  proof (rule handle_accept.raw_induct [OF _ st, of ?P], intro impI, elim conjE)
    fix loop os' net' alloc on_user' w y
    assume IH: "\<And>os' net' alloc on_user' w y. loop os' net' alloc on_user' w = Some y \<Longrightarrow> ?P os' net' alloc on_user' w y"
      and step: "(case nt_accept net' (sv_listen_fd (cw_server w)) (lp_kernel w) of
        (Inl errno, k) \<Rightarrow>
          if errno = EINTR \<or> errno = ECONNABORTED then loop os' net' alloc on_user' (w\<lparr>lp_kernel := k\<rparr>)
          else Some (Inr (), w\<lparr>lp_kernel := k\<rparr>)
      | (Inr fd, k) \<Rightarrow>
          let r = accept_one os' net' alloc on_user' fd (w\<lparr>lp_kernel := k\<rparr>) in
          (case fst r of Inl e \<Rightarrow> Some r | Inr _ \<Rightarrow> loop os' net' alloc on_user' (snd r))) = Some y"
      and eq: "os' = os" "net' = net" "on_user' = on_user" and inv: "conn_inv {} {} w"
    obtain r k where r: "nt_accept net (sv_listen_fd (cw_server w)) (lp_kernel w) = (r, k)" by force
    have inv1: "conn_inv {} {} (w\<lparr>lp_kernel := k\<rparr>)" using inv by simp
    show "fst y \<noteq> Inl Undefined_behaviour \<and> conn_inv {} {} (snd y)"
    proof (cases r)
      case (Inl errno)
      with step r eq inv1 IH [of os net alloc on_user "w\<lparr>lp_kernel := k\<rparr>" y] show ?thesis by (auto split: if_splits)
    next
      case (Inr fd)
      obtain r1 w1 where a: "accept_one os net alloc on_user fd (w\<lparr>lp_kernel := k\<rparr>) = (r1, w1)" by force
      from harmless_result [OF harmless_accept_one [OF inv1] a] step r eq Inr a IH [of os net alloc on_user w1 y]
      show ?thesis by (cases r1) (auto simp: Let_def)
    qed
  qed
  with inv show ?thesis by simp
qed

end

section \<open>The handlers return\<close>

text \<open>\<open>quiet m op\<close>: the operation does not increase the measure \<open>m\<close> of the kernel.\<close>

definition quiet :: "('k \<Rightarrow> nat) \<Rightarrow> (('k, 'm) loop_world_scheme, 'a) eff \<Rightarrow> bool" where
  "quiet m op \<longleftrightarrow> (\<forall>w. m (lp_kernel (snd (op w))) \<le> m (lp_kernel w))"

named_theorems quiet_rules \<open>operations that do not increase a measure of the kernel\<close>

lemma quiet_eret [quiet_rules]: "quiet m (eret x)" and quiet_ethrow [quiet_rules]: "quiet m (ethrow e)"
  by (simp_all add: quiet_def)

lemma quiet_emodify [quiet_rules]: "(\<And>w. lp_kernel (f w) = lp_kernel w) \<Longrightarrow> quiet m (emodify f)"
  by (simp add: quiet_def)

lemma quiet_ebind [quiet_rules]: "quiet m op \<Longrightarrow> (\<And>x. quiet m (f x)) \<Longrightarrow> quiet m (ebind op f)"
  by (auto simp: quiet_def ebind_def split: prod.splits sum.splits) (metis le_trans snd_conv)+

lemma quiet_ecatch [quiet_rules]: "quiet m op \<Longrightarrow> (\<And>e. quiet m (h e)) \<Longrightarrow> quiet m (ecatch op h)"
  by (auto simp: quiet_def ecatch_def split: prod.splits sum.splits) (metis le_trans snd_conv)+

lemma quiet_if [quiet_rules]: "quiet m op \<Longrightarrow> quiet m op' \<Longrightarrow> quiet m (if c then op else op')"
  by simp

lemma quiet_option [quiet_rules]: "quiet m op \<Longrightarrow> (\<And>x. quiet m (f x)) \<Longrightarrow> quiet m (case y of None \<Rightarrow> op | Some x \<Rightarrow> f x)"
  by (simp split: option.split)

lemma quiet_with_conn [quiet_rules]: "(\<And>c. quiet m (f c)) \<Longrightarrow> quiet m (with_conn p f)"
  by (simp add: quiet_def with_conn_def split: option.split)

lemma quiet_set_conn [quiet_rules]: "quiet m (set_conn p f)"
  unfolding set_conn_def by (intro quiet_rules) simp

lemma quiet_on_kernel: "(\<And>k. m (snd (op k)) \<le> m k) \<Longrightarrow> quiet m (on_kernel op)"
  by (simp add: quiet_def on_kernel_def split: prod.split) (metis snd_conv)

lemma quietD: "quiet m op \<Longrightarrow> m (lp_kernel (snd (op w))) \<le> m (lp_kernel w)"
  by (simp add: quiet_def)

lemma quiet_at: "quiet m op \<Longrightarrow> lp_kernel w' = lp_kernel w \<Longrightarrow> m (lp_kernel (snd (op w'))) \<le> m (lp_kernel w)"
  using quietD [of m op w'] by simp

lemma quiet_preserved: "quiet m op \<Longrightarrow> op w = (r, w') \<Longrightarrow> m (lp_kernel w') \<le> m (lp_kernel w)"
  using quietD [of m op w] by simp

lemma quiet_epoll_ctl: "calms os net m \<Longrightarrow> quiet m (epoll_ctl os ctl fd ev)"
  using calmsD(1) [of os net m] by (simp add: quiet_def epoll_ctl_def split: prod.split) (metis snd_conv)

lemma quiet_add_channel:
  assumes "calms os net m" shows "quiet m (add_channel os p ch :: (('k, 'm) loop_world_scheme, unit) eff)"
proof -
  let ?undo = "\<lambda>e. ebind (emodify (\<lambda>w. w\<lparr>lp_channels := fmdrop (ch_fd ch) (lp_channels w)\<rparr>)) (\<lambda>_. ethrow e)"
  have "quiet m (ecatch (ctl_add os ch) ?undo :: (('k, 'm) loop_world_scheme, unit) eff)" unfolding ctl_add_def
    by (intro quiet_rules quiet_epoll_ctl [OF assms]) simp
  then show ?thesis by (auto simp: quiet_def [of m "add_channel os p ch"] add_channel_def intro!: quiet_at)
qed

lemma quiet_remove_channel:
  assumes "calms os net m" shows "quiet m (remove_channel os p ch :: (('k, 'm) loop_world_scheme, unit) eff)"
proof -
  have "quiet m (ctl_del os (ch_fd ch) :: (('k, 'm) loop_world_scheme, unit) eff)" unfolding ctl_del_def by (intro quiet_rules quiet_epoll_ctl [OF assms])
  then show ?thesis by (auto simp: quiet_def [of m "remove_channel os p ch"] remove_channel_def intro!: quiet_at)
qed

lemma quiet_close_fd: "calms os net m \<Longrightarrow> quiet m (on_kernel (emodify (nt_close net fd)))"
  by (rule quiet_on_kernel) (simp add: calmsD)

lemma quiet_release:
  assumes "calms os net m" shows "quiet m (release os net p :: (('k, 'm) conn_world_scheme, unit) eff)"
proof -
  have "quiet m (destroy_conn os net p :: (('k, 'm) conn_world_scheme, unit) eff)" unfolding destroy_conn_def
    by (intro quiet_rules quiet_remove_channel [OF assms] quiet_close_fd [OF assms]) simp
  from quietD [OF this] show ?thesis by (simp add: quiet_def release_def)
qed

lemma quiet_pinned:
  assumes "calms os net m" and "quiet m op" shows "quiet m (pinned os net p op)"
  unfolding quiet_def
proof
  fix w
  obtain r w1 where r: "op (w\<lparr>cw_pins := p # cw_pins w\<rparr>) = (r, w1)" by force
  obtain r2 w2 where r2: "release os net p (w1\<lparr>cw_pins := remove1 p (cw_pins w1)\<rparr>) = (r2, w2)" by force
  from quiet_preserved [OF assms(2) r] quiet_preserved [OF quiet_release [OF assms(1)] r2] r r2
  show "m (lp_kernel (snd (pinned os net p op w))) \<le> m (lp_kernel w)" by (auto simp: pinned_def split: sum.split)
qed

lemma quiet_conn_close:
  assumes "calms os net m" and "\<And>f. quiet m (on_close f p)" shows "quiet m (conn_close os net on_close p)"
  unfolding conn_close_def by (intro quiet_rules quiet_remove_channel [OF assms(1)] quiet_pinned [OF assms(1)] assms(2))

lemma quiet_update_channel:
  fixes ch :: "'cb channel"
  assumes "calms os net m" shows "quiet m (update_channel os p ch :: (('k, 'm) loop_world_scheme, unit) eff)"
proof -
  have "quiet m (ctl_mod os ch :: (('k, 'm) loop_world_scheme, unit) eff)" unfolding ctl_mod_def
    by (intro quiet_rules quiet_epoll_ctl [OF assms])
  then show ?thesis by (auto simp: quiet_def [of m "update_channel os p ch"] update_channel_def intro!: quiet_at)
qed

lemma quiet_conn_send:
  assumes "calms os net m" and "\<And>f. quiet m (on_close f p)" shows "quiet m (conn_send os net on_close p data)"
proof -
  have queue: "quiet m (conn_queue os p d)" for d unfolding conn_queue_def
    by (intro quiet_rules) (auto intro!: quiet_rules quiet_update_channel [OF assms(1)] split: sum.split)
  have "quiet m (on_kernel (\<lambda>k. case nt_send net fd d k of (r, k) \<Rightarrow> (Inr r, k)))" for fd d
    by (rule quiet_on_kernel) (use calmsD(5) [OF assms(1)] in \<open>auto split: prod.split\<close>)
  then show ?thesis unfolding conn_send_def store_sent_def
    by (auto intro!: quiet_rules queue quiet_conn_close [OF assms(1)] assms(2) split: sum.split)
qed

lemma quiet_on_close:
  fixes on_user :: "nat \<Rightarrow> nat \<Rightarrow> (('k, 'm) conn_world_scheme, unit) eff"
  assumes "calms os net m" and "\<And>f p. quiet m (on_user f p)"
  shows "quiet m (server_on_close os net on_user f p)"
proof -
  have erase: "quiet m (table_erase os net fd :: (('k, 'm) conn_world_scheme, unit) eff)" for fd
    using quiet_release [OF assms(1)]
    by (auto simp: quiet_def [of m "table_erase os net fd"] table_erase_def intro!: quiet_at split: option.split)
  have "quiet m (ebind (with_conn p (\<lambda>c. table_erase os net (cn_fd c))) (\<lambda>_. case f of None \<Rightarrow> eret () | Some f \<Rightarrow> on_user f p))" for f
    by (intro quiet_rules erase assms(2))
  note calls = quietD [OF this]
  have "quiet m (handle_close os net on_user p)" unfolding quiet_def handle_close_def Let_def by (intro allI calls)
  then show ?thesis using assms(2) by (simp add: server_on_close_def)
qed

lemma quiet_sys: "(\<And>k. m (snd (f k)) \<le> m k) \<Longrightarrow> m (snd (sys what f k)) \<le> m k"
  by (simp add: sys_def split: prod.split sum.split) (metis snd_conv)

lemma quiet_kernel_bind:
  "(\<And>k. m (snd (op k)) \<le> m k) \<Longrightarrow> (\<And>x k. m (snd (f x k)) \<le> (m k :: nat)) \<Longrightarrow> m (snd (ebind op f k)) \<le> m k"
  by (auto simp: ebind_def split: prod.split sum.split) (metis le_trans snd_conv)+

lemma quiet_kernel_catch:
  "(\<And>k. m (snd (op k)) \<le> m k) \<Longrightarrow> (\<And>e k. m (snd (h e k)) \<le> (m k :: nat)) \<Longrightarrow> m (snd (ecatch op h k)) \<le> m k"
  by (auto simp: ecatch_def split: prod.split sum.split) (metis le_trans snd_conv)+

text \<open>
  What a program promises in addition: its callbacks do not make the kernel busy for ever. The allocations may succeed or
  fail.
\<close>

locale calm_server = server_client +
  fixes alloc :: "nat \<Rightarrow> 'a \<Rightarrow> bool" and m :: "'a \<Rightarrow> nat"
  assumes calm: "calms os net m" and user_quiet: "quiet m (on_user f p)"
begin

lemma quiet_set_up: "quiet m (set_up os alloc on_user fd p)"
proof -
  have "quiet m (\<lambda>w. case sv_on_connection (cw_server w) of None \<Rightarrow> (Inr (), w) | Some f \<Rightarrow> on_user f p w)"
    using user_quiet by (simp add: quiet_def split: option.split)
  moreover have "quiet m (\<lambda>w. case sv_on_message (cw_server w) of None \<Rightarrow> (Inr (), w) | Some f \<Rightarrow> set_message_callback p f w)"
    by (simp add: quiet_def set_message_callback_def quietD [OF quiet_set_conn] split: option.split)
  moreover have "quiet m (table_emplace alloc fd p)" by (simp add: quiet_def table_emplace_def)
  ultimately show ?thesis unfolding set_up_def set_close_callback_def conn_start_def
    by (intro quiet_rules quiet_add_channel [OF calm])
qed

lemma quiet_accept_one: "quiet m (accept_one os net alloc on_user fd)"
proof -
  have "quiet m (on_kernel (ecatch (set_nonblocking net fd) (\<lambda>e. ebind (emodify (nt_close net fd)) (\<lambda>_. ethrow e))))"
    unfolding set_nonblocking_def
    by (intro quiet_on_kernel quiet_kernel_catch quiet_kernel_bind quiet_sys) (simp_all add: calmsD [OF calm])
  moreover have "quiet m (adopt_connection os net alloc on_user fd)"
    unfolding quiet_def
  proof
    fix w
    let ?body = "\<lambda>p. ecatch (set_up os alloc on_user fd p)
      (\<lambda>e. ebind (with_conn p (\<lambda>c. if cn_closed c then eret () else conn_close os net (server_on_close os net on_user) p)) (\<lambda>_. ethrow e))"
    have "quiet m (pinned os net p (?body p))" for p
      by (intro quiet_rules quiet_pinned [OF calm] quiet_set_up quiet_conn_close [OF calm] quiet_on_close [OF calm user_quiet])
    then show "m (lp_kernel (snd (adopt_connection os net alloc on_user fd w))) \<le> m (lp_kernel w)"
      by (auto simp: adopt_connection_def Let_def split: sum.split intro!: quiet_at)
  qed
  ultimately show ?thesis unfolding accept_one_def by (intro quiet_rules)
qed

lemma handle_accept_returns: "\<exists>y. handle_accept os net alloc on_user w = Some y"
proof (induction "m (lp_kernel w)" arbitrary: w rule: less_induct)
  case less
  obtain r k where r: "nt_accept net (sv_listen_fd (cw_server w)) (lp_kernel w) = (r, k)" by force
  note D = calmsD(6) [OF calm r]
  show ?case
  proof (cases r)
    case (Inl errno)
    with r D less [of "w\<lparr>lp_kernel := k\<rparr>"] show ?thesis by (subst handle_accept.simps) auto
  next
    case (Inr fd)
    obtain r1 w1 where a: "accept_one os net alloc on_user fd (w\<lparr>lp_kernel := k\<rparr>) = (r1, w1)" by force
    from quiet_preserved [OF quiet_accept_one a] D Inr have "m (lp_kernel w1) < m (lp_kernel w)" by simp
    from less [OF this] r Inr a show ?thesis by (subst handle_accept.simps) (auto simp: Let_def split: sum.split)
  qed
qed

lemma invoke_ok:
  assumes inv: "conn_inv {} {} w" and ch: "server_chan_at w p = Some ch" "ch_on_read ch = Some cb \<or> ch_on_write ch = Some cb"
  shows "wp (server_invoke os net alloc on_user cb) (\<lambda>_. conn_inv {} {}) (\<lambda>_. conn_inv {} {}) w"
proof (cases "p = 1")
  case True
  with ch have "cb = (1, READ)" by (auto simp: server_chan_at_def accept_channel_def)
  moreover obtain y where y: "handle_accept os net alloc on_user w = Some y" using handle_accept_returns by blast
  ultimately show ?thesis using handle_accept_ok [OF inv y] by (auto simp: wp_def server_invoke_def split: prod.splits sum.splits)
next
  case False
  with ch obtain c where c: "fmlookup (cw_conns w) p = Some c" "ch = channel_of p c" by (auto simp: server_chan_at_def)
  have buf: "buffer_inv (cn_write c)" using conn_invD(1) [OF inv c(1)] by (simp add: conn_ok_def)
  have "\<exists>y. handle_read os net (server_on_close os net on_user) on_user p w = Some y"
    "\<exists>y. handle_write os net (server_on_close os net on_user) p w = Some y"
    using recv_loop_returns [OF calm, of "cn_fd c" "cn_read c" "lp_kernel w"]
      send_loop_returns [OF calm net_ok buf, of "cn_fd c" "[]" "lp_kernel w"] c(1)
    by (auto simp: handle_read_def handle_write_def)
  then obtain r1 w1 r2 w2 where "handle_read os net (server_on_close os net on_user) on_user p w = Some (r1, w1)"
    "handle_write os net (server_on_close os net on_user) p w = Some (r2, w2)" by auto
  moreover have "cb = (p, READ) \<or> cb = (p, WRITE)" using ch(2) c(2) by auto
  ultimately show ?thesis
    using conns.handle_read_ok [OF inv c(1)] conns.handle_write_ok [OF inv c(1)] False
    by (auto simp: wp_def server_invoke_def split: sum.splits)
qed

end

sublocale calm_server \<subseteq> loop: loop_client "conn_inv {} {}" server_chan_at "server_invoke os net alloc on_user"
proof
  show "server_chan_at w p \<noteq> None" if "conn_inv {} {} w" "fmlookup (lp_channels w) fd = Some p" for w fd p
    using that by (auto simp: server_chan_at_def conn_inv_def chans_inv_def)
  show "wp (server_invoke os net alloc on_user cb) (\<lambda>_. conn_inv {} {}) (\<lambda>_. conn_inv {} {}) w"
    if "conn_inv {} {} w" "server_chan_at w p = Some ch" "ch_on_read ch = Some cb \<or> ch_on_write ch = Some cb" for w p ch cb
    using that by (rule invoke_ok)
  show "conn_inv {} {} w \<Longrightarrow> conn_inv {} {} (w\<lparr>lp_kernel := k\<rparr>)" for w k by simp
qed

context calm_server
begin

lemma server_poll:
  assumes "conn_inv {} {} w" and "\<And>fd t k evs k'. os_epoll_wait os fd kMaxEvents t k = (Inr evs, k') \<Longrightarrow> length evs \<le> kMaxEvents"
  shows "wp (poll os server_chan_at (server_invoke os net alloc on_user) t) (\<lambda>_. conn_inv {} {}) (\<lambda>_. conn_inv {} {}) w"
  by (rule loop.poll_inv [OF assms(1)]) (rule assms(2))

lemma server_run:
  assumes "conn_inv {} {} w" and "\<And>fd t k evs k'. os_epoll_wait os fd kMaxEvents t k = (Inr evs, k') \<Longrightarrow> length evs \<le> kMaxEvents"
    and "loop_run os server_chan_at (server_invoke os net alloc on_user) w = Some (r, w')"
  shows "r \<noteq> Inl Undefined_behaviour \<and> conn_inv {} {} w'"
proof -
  have "conn_inv {} {} (w\<lparr>lp_running := True\<rparr>)" by (rule conn_inv_same [OF assms(1)]) simp_all
  from loop.loop_while_inv [OF this assms(2) assms(3) [unfolded loop_run_def]] show ?thesis by simp
qed

end

section \<open>The life of a server\<close>

text \<open>An event loop without channels and no connections yet.\<close>

definition no_connections :: "('k, 'm) conn_world_scheme \<Rightarrow> bool" where
  "no_connections w \<longleftrightarrow> lp_channels w = fmempty \<and> cw_conns w = fmempty \<and> cw_next w = 2 \<and> cw_held w = [] \<and> cw_pins w = []"

lemma TcpServer_inv:
  assumes "no_connections w" and "TcpServer net loop port w = (Inr u, w')"
  shows "conn_inv {} {} w' \<and> cw_pins w' = [] \<and> \<not> sv_started (cw_server w')"
  using assms
  by (auto simp: TcpServer_def no_connections_def ebind_def on_kernel_def conn_inv_defs split: if_splits prod.splits sum.splits)

lemma conn_inv_callbacks:
  assumes "conn_inv X Y w" and "sv_listen_fd s = sv_listen_fd (cw_server w)" and "sv_started s = sv_started (cw_server w)"
  shows "conn_inv X Y (w\<lparr>cw_server := s\<rparr>)"
  using assms by (simp add: conn_inv_defs)

lemma server_start_ok:
  assumes inv: "conn_inv {} {} w"
  shows "harmless (server_start os) w"
proof (cases "sv_started (cw_server w) \<or> sv_listen_fd (cw_server w) < 0 \<or> fmlookup (lp_channels w) (sv_listen_fd (cw_server w)) \<noteq> None")
  case True
  with inv show ?thesis
    by (auto simp: harmless_def wp_def server_start_def add_channel_def accept_channel_def ebind_def)
next
  case False
  let ?s = "(cw_server w)\<lparr>sv_started := True\<rparr>"
  let ?w = "\<lambda>k. w\<lparr>lp_channels := fmupd (sv_listen_fd (cw_server w)) 1 (lp_channels w), lp_kernel := k, cw_server := ?s\<rparr>"
  have none: "fmlookup (lp_channels w) (sv_listen_fd (cw_server w)) = None" using False by blast
  have "conn_inv {} {} (?w k)" for k
  proof -
    have "conns_inv {} (?w k)" using inv none by (auto simp: conn_inv_def conns_inv_def referenced_def)
    moreover have "chans_inv (?w k)" using inv False by (auto simp: conn_inv_def chans_inv_def)
    ultimately show ?thesis using inv False by (simp add: conn_inv_def table_inv_def refs_inv_def)
  qed
  with False inv have "wp (ebind (add_channel os 1 (accept_channel (cw_server w))) (\<lambda>_. emodify (\<lambda>w. w\<lparr>cw_server := (cw_server w)\<lparr>sv_started := True\<rparr>\<rparr>)))
      (\<lambda>_ w'. conn_inv {} {} w' \<and> cw_pins w' = cw_pins w) (\<lambda>_ w'. conn_inv {} {} w' \<and> cw_pins w' = cw_pins w) w"
    unfolding wp_ebind by (intro wp_add_channel) (auto simp: accept_channel_def)
  with False show ?thesis by (simp add: harmless_def wp_def server_start_def)
qed

text \<open>
  C4: the callback server never touches a connection that is gone. Take any callbacks that keep the invariant, even
  when they throw, close or send on any connection or keep pointers to them, any outcome of the allocations, and
  any kernel that does not keep the process busy for ever. From the constructed server on, \<open>start\<close>, each \<open>poll\<close> and the whole \<open>run\<close> of
  the event loop do nothing undefined, every handler returns or throws, and afterwards every registered channel belongs to a living
  object and no connection outlives its last shared pointer.
\<close>

theorem server_safe:
  assumes "net_bounded net" and "calms os net m"
    and user: "\<And>f p w. conn_inv {} {} w \<Longrightarrow> p \<in> set (cw_pins w) \<Longrightarrow> harmless (on_user f p) (w :: ('k, 'm) conn_world_scheme)"
    and quiet: "\<And>f p. quiet m (on_user f p)"
    and kernel: "\<And>fd t k evs k'. os_epoll_wait os fd kMaxEvents t k = (Inr evs, k') \<Longrightarrow> length evs \<le> kMaxEvents"
    and w: "no_connections w0" "TcpServer net loop port w0 = (Inr (), w1)"
  shows "conn_inv {} {} w1 \<and>
    (\<forall>w. conn_inv {} {} w \<longrightarrow>
       harmless (server_start os) w \<and>
       wp (poll os server_chan_at (server_invoke os net alloc on_user) t) (\<lambda>_. conn_inv {} {}) (\<lambda>_. conn_inv {} {}) w \<and>
       (\<forall>r w'. loop_run os server_chan_at (server_invoke os net alloc on_user) w = Some (r, w') \<longrightarrow>
          r \<noteq> Inl Undefined_behaviour \<and> conn_inv {} {} w'))"
proof -
  have calm: "calm_server os net on_user m"
    using assms(1-4) by (intro calm_server.intro server_client.intro calm_server_axioms.intro)
  have "conn_inv {} {} w1" using TcpServer_inv [OF w] by blast
  then show ?thesis
    using server_start_ok calm_server.server_poll [OF calm _ kernel] calm_server.server_run [OF calm _ kernel] by fast
qed

section \<open>Destruction\<close>

text \<open>What the end of a shared pointer leaves alone.\<close>

definition others :: "('k, 'm) conn_world_scheme \<Rightarrow> (int, nat) fmap \<times> server \<times> nat list \<times> nat list" where
  "others w = (cw_table w, cw_server w, cw_held w, cw_pins w)"

lemma wp_release_frame:
  fixes w :: "('a, 'b) conn_world_scheme"
  assumes "conn_inv X {p} w" and "fmlookup (cw_conns w) p \<noteq> None"
  shows "wp (release os net p) (\<lambda>_ w'. conn_inv X {} w' \<and> others w' = others w) E w"
proof -
  have "preserves others (destroy_conn os net p :: (('a, 'b) conn_world_scheme, unit) eff)"
    unfolding destroy_conn_def with_conn_def
    by (rule preserves_applied)
      (auto simp: ebind_def on_kernel_def others_def split: option.split prod.split sum.split
        dest!: preserves_result [OF preserves_remove_channel [of others], rotated 2])
  then have "preserves others (release os net p :: (('a, 'b) conn_world_scheme, unit) eff)" by (simp add: preserves_def release_def)
  from wp_preserves [OF wp_release [OF assms, where E = "\<lambda>_ _. False"] this] show ?thesis by (rule wp_conseq) simp_all
qed

lemma wp_pinned:
  assumes "wp m (\<lambda>_ w1. wp (release os net p) (\<lambda>_. Q) (\<lambda>_ _. False) (w1\<lparr>cw_pins := remove1 p (cw_pins w1)\<rparr>)) (\<lambda>_ _. False)
    (w\<lparr>cw_pins := p # cw_pins w\<rparr>)"
  shows "wp (pinned os net p m) (\<lambda>_. Q) (\<lambda>_ _. False) w"
  using assms by (auto simp: wp_def pinned_def split: prod.splits sum.splits)

lemma close_step:
  assumes inv: "conn_inv {} {} w" and t: "fmlookup (cw_table w) fd = Some p" and no: "sv_on_close (cw_server w) = None"
  shows "wp (conn_close os net (server_on_close os net on_user) p)
    (\<lambda>_ w'. conn_inv {} {} w' \<and> others w' = (fmdrop fd (cw_table w), cw_server w, cw_held w, cw_pins w)) (\<lambda>_ _. False) w"
proof -
  from inv t obtain c where c: "fmlookup (cw_conns w) p = Some c" by (auto simp: conn_inv_def table_inv_def)
  note T = table_invD [OF inv t c]
  have cl: "\<not> cn_closed c" using T(3) by simp
  let ?c = "c\<lparr>cn_closed := True, cn_started := False\<rparr>"
  let ?Q = "\<lambda>w'. conn_inv {} {} w' \<and> others w' = (fmdrop fd (cw_table w), cw_server w, cw_held w, cw_pins w)"
  have call: "wp (pinned os net p (server_on_close os net on_user 0 p)) (\<lambda>_. ?Q) (\<lambda>_ _. False) v"
    if v: "conn_inv {p} {} v" "fmlookup (cw_conns v) p = Some ?c" "cw_table v = cw_table w" "cw_server v = cw_server w"
      "cw_held v = cw_held w" "cw_pins v = cw_pins w" for v
  proof (rule wp_pinned)
    let ?v = "v\<lparr>cw_pins := p # cw_pins v\<rparr>"
    have pin: "conn_inv {p} {} ?v" using conn_inv_pin [OF v(1), of p] v(2) by simp
    have gone: "fmlookup (cw_table (?v\<lparr>cw_table := fmdrop fd (cw_table ?v)\<rparr>)) x \<noteq> Some p" for x
      using table_invD(1) [OF inv _ c] T(1) v(3) by auto
    have "fmlookup (cw_table ?v) fd = Some p" using t v(3) by simp
    from conn_inv_settle [OF conn_inv_erase(1) [OF pin this] gone]
    have "conn_inv {} {p} (?v\<lparr>cw_table := fmdrop fd (cw_table ?v)\<rparr>)" .
    from wp_release_frame [OF this, of os net "\<lambda>_ _. False"] v(2) obtain w1 where
      w1: "release os net p (?v\<lparr>cw_table := fmdrop fd (cw_table ?v)\<rparr>) = (Inr (), w1)" "conn_inv {} {} w1"
        "others w1 = (fmdrop fd (cw_table w), cw_server w, cw_held w, p # cw_pins w)"
      using v by (auto simp: wp_def others_def split: prod.splits sum.splits)
    have "conn_inv {} {p} (w1\<lparr>cw_pins := cw_pins w\<rparr>) \<and> fmlookup (cw_conns w1) p \<noteq> None"
      using w1(2,3) by (intro conn_inv_unpin) (simp_all add: others_def)
    with wp_release_frame [of "{}" p "w1\<lparr>cw_pins := cw_pins w\<rparr>" os net "\<lambda>_ _. False"] w1(3)
    have "wp (release os net p) (\<lambda>_. ?Q) (\<lambda>_ _. False) (w1\<lparr>cw_pins := remove1 p (cw_pins w1)\<rparr>)"
      by (simp add: others_def)
    moreover have "server_on_close os net on_user 0 p ?v = (Inr (), w1)"
      using w1(1) v(2-4) no t T(1) by (simp add: server_on_close_def handle_close_def with_conn_def table_erase_def)
    ultimately show "wp (server_on_close os net on_user 0 p) (\<lambda>_ w1. wp (release os net p) (\<lambda>_. ?Q) (\<lambda>_ _. False) (w1\<lparr>cw_pins := remove1 p (cw_pins w1)\<rparr>))
      (\<lambda>_ _. False) ?v" by (simp add: wp_def)
  qed
  show ?thesis by (rule wp_conn_close [OF inv c cl]) (use call T(2) in simp)
qed

lemma close_connections_returns:
  assumes "conn_inv {} {} w" and "sv_on_close (cw_server w) = None"
  shows "\<exists>w'. close_connections os net on_user w = Some (Inr (), w') \<and> conn_inv {} {} w' \<and>
    others w' = (fmempty, cw_server w, cw_held w, cw_pins w)"
  using assms
proof (induction "fcard (fmdom (cw_table w))" arbitrary: w rule: less_induct)
  case less
  show ?case
  proof (cases "sorted_list_of_fset (fmdom (cw_table w))")
    case Nil
    then have "fmdom (cw_table w) = {||}" by (metis fset_of_list_simps(1) sorted_list_of_fset_simps(2))
    then have "cw_table w = fmempty" by (metis fmrestrict_fset_dom fmrestrict_fset_null)
    with Nil less.prems show ?thesis by (subst close_connections.simps) (simp add: others_def)
  next
    case (Cons fd rest)
    then have fd: "fd |\<in>| fmdom (cw_table w)" by (metis fset_of_list_elem list.set_intros(1) sorted_list_of_fset_simps(2))
    then obtain p where p: "fmlookup (cw_table w) fd = Some p" by (auto simp: fmlookup_dom_iff)
    from close_step [OF less.prems(1) p less.prems(2), of os net on_user] obtain w1 where
      w1: "conn_close os net (server_on_close os net on_user) p w = (Inr (), w1)" "conn_inv {} {} w1"
        "others w1 = (fmdrop fd (cw_table w), cw_server w, cw_held w, cw_pins w)"
      by (auto simp: wp_def split: prod.splits sum.splits)
    have "fcard (fmdom (cw_table w1)) < fcard (fmdom (cw_table w))" using w1(3) fd by (simp add: others_def) (metis diff_less fcard_fempty fempty_iff gr_zeroI lessI fcard_0_eq)
    from less.hyps [OF this w1(2)] w1 less.prems(2) Cons p show ?thesis
      by (subst close_connections.simps) (simp add: others_def Let_def)
  qed
qed

lemma server_destroy_returns:
  fixes w :: "('a, 'b) conn_world_scheme"
  assumes "conn_inv {} {} w"
  shows "\<exists>w'. server_destroy os net on_user w = Some (Inr (), w') \<and> cw_table w' = fmempty \<and>
    (\<forall>p. fmlookup (cw_conns w') p \<noteq> None \<longrightarrow> p \<in> set (cw_held w) \<union> set (cw_pins w)) \<and>
    (\<forall>fd p. fmlookup (lp_channels w') fd = Some p \<longrightarrow> p \<in> set (cw_held w) \<union> set (cw_pins w))"
proof -
  let ?w = "w\<lparr>cw_server := (cw_server w)\<lparr>sv_on_close := None\<rparr>\<rparr>"
  have "conn_inv {} {} ?w" using assms by (rule conn_inv_callbacks) simp_all
  from close_connections_returns [OF this, of os net on_user] obtain w1 where
    w1: "close_connections os net on_user ?w = Some (Inr (), w1)" and inv: "conn_inv {} {} w1"
      and o: "cw_table w1 = fmempty" "cw_server w1 = (cw_server w)\<lparr>sv_on_close := None\<rparr>" "cw_held w1 = cw_held w" "cw_pins w1 = cw_pins w"
    by (auto simp: others_def)
  have live: "fmlookup (cw_conns w1) p \<noteq> None \<Longrightarrow> p \<in> set (cw_held w) \<union> set (cw_pins w)" for p
    using inv o by (auto simp: conn_inv_def conns_inv_def referenced_def)
  have chan: "fmlookup (lp_channels w1) fd = Some p \<Longrightarrow>
      p = 1 \<and> sv_started (cw_server w1) \<and> fd = sv_listen_fd (cw_server w1) \<or> p \<in> set (cw_held w) \<union> set (cw_pins w)" for fd p
    using inv live [of p] by (auto simp: conn_inv_def chans_inv_def)
  let ?last = "\<lambda>w1. ebind (if sv_started (cw_server w1) then remove_channel os 1 (accept_channel (cw_server w1)) else eret ()) (\<lambda>_.
    if 0 \<le> sv_listen_fd (cw_server w1) then on_kernel (emodify (nt_close net (sv_listen_fd (cw_server w1)))) else eret ())"
  define Q where "Q w' \<longleftrightarrow> cw_table w' = fmempty \<and> (\<forall>p. fmlookup (cw_conns w') p \<noteq> None \<longrightarrow> p \<in> set (cw_held w) \<union> set (cw_pins w)) \<and>
    (\<forall>fd p. fmlookup (lp_channels w') fd = Some p \<longrightarrow> p \<in> set (cw_held w) \<union> set (cw_pins w))" for w' :: "('a, 'b) conn_world_scheme"
  have reg: "sv_started (cw_server w1) \<Longrightarrow> 0 \<le> sv_listen_fd (cw_server w1) \<and> fmlookup (lp_channels w1) (sv_listen_fd (cw_server w1)) = Some 1"
    using inv by (simp add: conn_inv_def refs_inv_def)
  have "wp (?last w1) (\<lambda>_. Q) (\<lambda>_ _. False) w1"
  proof (cases "sv_started (cw_server w1)")
    case True
    have "Q (w1\<lparr>lp_channels := fmdrop (sv_listen_fd (cw_server w1)) (lp_channels w1), lp_kernel := k\<rparr>)" for k
      using live chan o(1) by (auto simp: Q_def)
    with True reg show ?thesis unfolding wp_ebind
      by (auto simp: accept_channel_def intro!: wp_remove_channel wp_on_kernel)
  next
    case False
    have "Q (w1\<lparr>lp_kernel := k\<rparr>)" for k using live chan False o(1) by (auto simp: Q_def)
    moreover from this [of "lp_kernel w1"] have "Q w1" by simp
    ultimately show ?thesis using False unfolding wp_ebind by (auto intro!: wp_on_kernel)
  qed
  then obtain w2 where "?last w1 w1 = (Inr (), w2)" "Q w2" by (auto simp: wp_def split: prod.splits sum.splits)
  with w1 show ?thesis by (auto simp: server_destroy_def Q_def)
qed


section \<open>Descriptors and failed allocations\<close>

text \<open>
  A connection that was accepted is lost when \<open>make_shared\<close> fails: \<open>handle_accept\<close> rethrows while nothing
  owns the descriptor and nothing has closed it.
\<close>

theorem failed_allocation_leaks:
  assumes "set_nonblocking net fd (lp_kernel w) = (Inr (), k)" and "\<not> alloc 0 k"
  shows "accept_one os net alloc on_user fd w = (Inl Bad_alloc, w\<lparr>lp_kernel := k\<rparr>)"
  using assms by (simp add: accept_one_def adopt_connection_def on_kernel_def)

end
