(* ===== verification/Callback_Servers.thy ===== *)
theory Callback_Servers
  imports Tcp_Server Http_Roundtrip
begin

text \<open>
  The two programs over the callback server, \<open>examples/callback_echo_server.cpp\<close> and
  \<open>examples/callback_http_echo.cpp\<close>: their callbacks and their \<open>main\<close>. The functions of a program have numbers: 1 is its
  connection callback, 2 its message callback and 3 its close callback.
\<close>

section \<open>The echo server\<close>

text \<open>The program sets no close callback. What it prints is not modelled.\<close>

definition echo_message :: "'k os \<Rightarrow> 'k net \<Rightarrow> nat \<Rightarrow> (('k, 'm) conn_world_scheme, unit) eff" where
  "echo_message os net p =
     with_conn p (\<lambda>c.
       case retrieve_all_as_string (cn_read c) of
         Inl e \<Rightarrow> ethrow e
       | Inr (data, b) \<Rightarrow>
           ebind (set_conn p (cn_read_update (\<lambda>_. b))) (\<lambda>_.
             conn_send os net (server_on_close os net (\<lambda>_ _. eret ())) p data))"

definition echo_user :: "'k os \<Rightarrow> 'k net \<Rightarrow> nat \<Rightarrow> nat \<Rightarrow> (('k, 'm) conn_world_scheme, unit) eff" where
  "echo_user os net f p =
     (if f = 1 then with_conn p (\<lambda>c. eret ()) else if f = 2 then echo_message os net p else eret ())"

definition echo_main ::
  "'k os \<Rightarrow> 'k net \<Rightarrow> (nat \<Rightarrow> 'k \<Rightarrow> bool) \<Rightarrow> 16 word \<Rightarrow> ('k, 'm) conn_world_scheme \<Rightarrow> (unit result \<times> ('k, 'm) conn_world_scheme) option" where
  "echo_main os net alloc port w =
     (case ebind (init_poller os) (\<lambda>_.
           ebind (TcpServer net 1 port) (\<lambda>_.
           ebind (server_set_connection_callback 1) (\<lambda>_.
           ebind (server_set_message_callback 2) (\<lambda>_. server_start os)))) w of
        (Inl e, w) \<Rightarrow> Some (Inl e, w)
      | (Inr _, w) \<Rightarrow>
          (case loop_run os server_chan_at (server_invoke os net alloc (echo_user os net)) w of
             None \<Rightarrow> None
           | Some (Inl e, w) \<Rightarrow> Some (Inl e, w)
           | Some (Inr _, w) \<Rightarrow>
               (case server_destroy os net (echo_user os net) w of
                  None \<Rightarrow> None
                | Some (Inl e, w) \<Rightarrow> Some (Inl e, w)
                | Some (Inr _, w) \<Rightarrow> Some (destroy_poller os w))))"

section \<open>The HTTP echo server\<close>

text \<open>The program's table of parsers is part of the world. \<open>unordered_map\<close> iterators stay valid until their entry is erased.\<close>

record 'k http_world = "'k conn_world" +
  hw_parsers :: "(int, http_parser) fmap"

definition http_connected :: "nat \<Rightarrow> (('k, 'm) http_world_scheme, unit) eff" where
  "http_connected p =
     with_conn p (\<lambda>c. emodify (\<lambda>w.
       if fmlookup (hw_parsers w) (cn_fd c) = None
       then w\<lparr>hw_parsers := fmupd (cn_fd c) (HttpParser default_limits) (hw_parsers w)\<rparr> else w))"

definition http_closed :: "nat \<Rightarrow> (('k, 'm) http_world_scheme, unit) eff" where
  "http_closed p = with_conn p (\<lambda>c. emodify (\<lambda>w. w\<lparr>hw_parsers := fmdrop (cn_fd c) (hw_parsers w)\<rparr>))"

definition http_response :: "http_request \<Rightarrow> string" where
  "http_response request =
     (let body = ''method='' @ rq_method request @ '' path='' @ rq_path request @ [CHR 0x0A] @ rq_body request in
      ''HTTP/1.1 200 OK'' @ crlf @ ''Content-Type: text/plain'' @ crlf @ ''Content-Length: '' @
      print_nat (length body) @ crlf @ ''Connection: keep-alive'' @ crlf @ crlf @ body)"

definition http_bad_request :: string where
  "http_bad_request = ''HTTP/1.1 400 Bad Request'' @ crlf @ ''Connection: close'' @ crlf @ crlf"

text \<open>\<open>iterator->second.reset()\<close>, undefined when the entry is gone.\<close>

definition reset_parser :: "int \<Rightarrow> (('k, 'm) http_world_scheme, unit) eff" where
  "reset_parser fd w =
     (case fmlookup (hw_parsers w) fd of
        None \<Rightarrow> (Inl Undefined_behaviour, w)
      | Some ps \<Rightarrow> (Inr (), w\<lparr>hw_parsers := fmupd fd (reset ps) (hw_parsers w)\<rparr>))"

definition http_on_close :: "'k os \<Rightarrow> 'k net \<Rightarrow> nat \<Rightarrow> nat \<Rightarrow> (('k, 'm) http_world_scheme, unit) eff" where
  "http_on_close os net = server_on_close os net (\<lambda>f p. if f = 3 then http_closed p else eret ())"

definition http_message :: "'k os \<Rightarrow> 'k net \<Rightarrow> nat \<Rightarrow> (('k, 'm) http_world_scheme, unit) eff" where
  "http_message os net p =
     with_conn p (\<lambda>c w.
       case fmlookup (hw_parsers w) (cn_fd c) of
         None \<Rightarrow> (Inr (), w)
       | Some ps \<Rightarrow>
           (case parse ps (cn_read c) of
              Inl e \<Rightarrow> (Inl e, w)
            | Inr (r, ps, b) \<Rightarrow>
                ebind (set_conn p (cn_read_update (\<lambda>_. b))) (\<lambda>_.
                ebind (emodify (\<lambda>w. w\<lparr>hw_parsers := fmupd (cn_fd c) ps (hw_parsers w)\<rparr>)) (\<lambda>_.
                  case r of
                    COMPLETE \<Rightarrow>
                      ebind (conn_send os net (http_on_close os net) p (http_response (hp_request ps))) (\<lambda>_. reset_parser (cn_fd c))
                  | ERROR \<Rightarrow>
                      ebind (conn_send os net (http_on_close os net) p http_bad_request) (\<lambda>_. conn_close os net (http_on_close os net) p)
                  | INCOMPLETE \<Rightarrow> eret ())) w))"

definition http_user :: "'k os \<Rightarrow> 'k net \<Rightarrow> nat \<Rightarrow> nat \<Rightarrow> (('k, 'm) http_world_scheme, unit) eff" where
  "http_user os net f p =
     (if f = 1 then http_connected p else if f = 2 then http_message os net p else if f = 3 then http_closed p else eret ())"

section \<open>The echo server is safe\<close>

lemma silent_client: "net_bounded net \<Longrightarrow> server_client net (\<lambda>_ _. eret ())"
  by unfold_locales (simp_all add: harmless_def)

lemma pinned_alive: "conn_inv {} {} w \<Longrightarrow> p \<in> set (cw_pins w) \<Longrightarrow> \<exists>c. fmlookup (cw_conns w) p = Some c"
  by (auto simp: conn_inv_def refs_inv_def)

lemma harmless_echo:
  assumes net: "net_bounded net" and inv: "conn_inv {} {} w" and p: "p \<in> set (cw_pins w)"
  shows "harmless (echo_user os net f p) w"
proof -
  obtain c where c: "fmlookup (cw_conns w) p = Some c" using pinned_alive [OF inv p] by blast
  have ok: "conn_ok c" by (rule conn_invD [OF inv c])
  then obtain b where b: "retrieve_all_as_string (cn_read c) = Inr (contents (cn_read c), b)" "buffer_inv b"
    using retrieve_all_ok [of "cn_read c"] by (auto simp: conn_ok_def)
  let ?c = "c\<lparr>cn_read := b\<rparr>"
  let ?w = "w\<lparr>cw_conns := fmupd p ?c (cw_conns w)\<rparr>"
  have "conn_inv {} {} ?w" by (rule conn_inv_set [OF inv c]) (use ok b in \<open>auto simp: conn_ok_def\<close>)
  moreover have "length (contents (cn_read c)) < 2 ^ 64"
    using length_contents_bound [of "cn_read c"] ok by (simp add: conn_ok_def vector_max_size_def)
  ultimately have "harmless (conn_send os net (server_on_close os net (\<lambda>_ _. eret ())) p (contents (cn_read c))) ?w"
    by (intro server_client.user_send [OF silent_client [OF net]]) simp_all
  with b c have "harmless (echo_message os net p) w"
    by (simp add: harmless_def echo_message_def wp_with_conn wp_ebind wp_set_conn)
  with inv c show ?thesis by (simp add: harmless_def echo_user_def wp_with_conn)
qed

lemma quiet_echo:
  assumes "calms os net m" shows "quiet m (echo_user os net f p)"
proof -
  have "quiet m (server_on_close os net (\<lambda>_ _. eret ()) f p)" for f p
    by (intro quiet_on_close assms quiet_rules)
  then show ?thesis unfolding echo_user_def echo_message_def
    by (auto intro!: quiet_rules quiet_conn_send [OF assms] split: sum.split prod.split)
qed

lemma echo_server: "net_bounded net \<Longrightarrow> calms os net m \<Longrightarrow> calm_server os net (echo_user os net) m"
  by (intro calm_server.intro server_client.intro calm_server_axioms.intro harmless_echo quiet_echo)

text \<open>Setting up a server, up to \<open>start\<close>.\<close>

lemma create_listen_fd_defined: "fst (create_listen_fd net port k) \<noteq> Inl Undefined_behaviour"
  by (auto simp: create_listen_fd_def set_reuse_addr_def set_nonblocking_def sys_def ebind_def ecatch_def split: prod.splits sum.splits if_splits)

lemma echo_setup:
  assumes "no_connections w"
  shows "wp (ebind (init_poller os) (\<lambda>_. ebind (TcpServer net 1 port) (\<lambda>_. ebind (server_set_connection_callback 1) (\<lambda>_.
      ebind (server_set_message_callback 2) (\<lambda>_. server_start os))))) (\<lambda>_. conn_inv {} {}) (\<lambda>_ _. True) w"
proof -
  have start: "wp (server_start os) (\<lambda>_. conn_inv {} {}) (\<lambda>_ _. True) v" if "conn_inv {} {} v" for v
    using server_start_ok [OF that, of os] unfolding harmless_def by (rule wp_conseq) simp_all
  have callbacks: "wp (ebind (server_set_connection_callback 1) (\<lambda>_. ebind (server_set_message_callback 2) (\<lambda>_. server_start os)))
      (\<lambda>_. conn_inv {} {}) (\<lambda>_ _. True) v" if "conn_inv {} {} v" for v
    using that by (simp add: wp_ebind server_set_connection_callback_def server_set_message_callback_def)
      (intro start conn_inv_callbacks; simp)
  have server: "wp (TcpServer net 1 port) (\<lambda>_. conn_inv {} {}) (\<lambda>_ _. True) v" if "no_connections v" for v
    using TcpServer_inv [OF that, of net 1 port] create_listen_fd_defined [of net port "lp_kernel v"]
    by (auto simp: wp_def TcpServer_def ebind_def on_kernel_def split: prod.splits sum.splits)
  have "wp (init_poller os) (\<lambda>_. no_connections) (\<lambda>_ _. True) w"
    using assms by (auto simp: wp_def init_poller_def no_connections_def split: prod.splits sum.splits)
  then show ?thesis
    by (rule wp_bindI) (rule wp_bindI [OF server], assumption, rule callbacks)
qed


section \<open>A simulated network\<close>

text \<open>
  A kernel with connections to accept, pieces of input and a script of readiness reports; \<open>send\<close> takes three bytes at a
  time, and a wait without reports fails.
\<close>

record sim =
  sm_accepts :: "int list"
  sm_input :: "bytes list"
  sm_output :: bytes
  sm_events :: "(u32 \<times> int) list list"

definition sim_net :: "sim net" where
  "sim_net =
     \<lparr>nt_recv = (\<lambda>fd n k. case sm_input k of [] \<Rightarrow> (Inl EAGAIN, k) | d # ds \<Rightarrow> (Inr (take n d), k\<lparr>sm_input := ds\<rparr>)),
      nt_send = (\<lambda>fd d k. (Inr (min 3 (length d)), k\<lparr>sm_output := sm_output k @ take 3 d\<rparr>)),
      nt_accept = (\<lambda>fd k. case sm_accepts k of [] \<Rightarrow> (Inl EAGAIN, k) | c # cs \<Rightarrow> (Inr c, k\<lparr>sm_accepts := cs\<rparr>)),
      nt_shutdown = (\<lambda>fd k. k), nt_close = (\<lambda>fd k. k), nt_fcntl = (\<lambda>fd cmd a k. (Inr 0, k)),
      nt_socket = (\<lambda>flags k. (Inr 5, k)), nt_setsockopt = (\<lambda>fd l n v k. (Inr (), k)), nt_inet_pton = (\<lambda>a. Some 0),
      nt_bind = (\<lambda>fd a p k. (Inr (), k)), nt_listen = (\<lambda>fd n k. (Inr (), k)), nt_getsockname = (\<lambda>fd k. (Inr 0, k)),
      nt_now = (\<lambda>k. (0, k))\<rparr>"

definition sim_os :: "sim os" where
  "sim_os =
     \<lparr>os_epoll_create1 = (\<lambda>k. (Inr 3, k)), os_epoll_ctl = (\<lambda>p ctl fd e k. (None, k)),
      os_epoll_wait = (\<lambda>p n t k. case sm_events k of [] \<Rightarrow> (Inl EBADF, k) | e # es \<Rightarrow> (Inr (take n e), k\<lparr>sm_events := es\<rparr>)),
      os_close = (\<lambda>fd k. k), os_now = (\<lambda>k. (0, k))\<rparr>"

definition sim_busy :: "sim \<Rightarrow> nat" where
  "sim_busy k = length (sm_accepts k) + length (sm_input k)"

definition sim_world :: "int list \<Rightarrow> bytes list \<Rightarrow> (u32 \<times> int) list list \<Rightarrow> sim conn_world" where
  "sim_world accepts input events =
     \<lparr>lp_kernel = \<lparr>sm_accepts = accepts, sm_input = input, sm_output = [], sm_events = events\<rparr>, lp_poller = -1, lp_running = False,
      lp_channels = fmempty,
      cw_server = \<lparr>sv_listen_fd = -1, sv_started = False, sv_on_connection = None, sv_on_close = None, sv_on_message = None\<rparr>,
      cw_conns = fmempty, cw_next = 2, cw_table = fmempty, cw_held = [], cw_pins = []\<rparr>"

lemma sim_bounded: "net_bounded sim_net"
  by (auto simp: net_bounded_def sim_net_def split: list.splits)

lemma sim_calms: "calms sim_os sim_net sim_busy"
  by (auto simp: calms_def sim_net_def sim_os_def sim_busy_def EAGAIN_def EINTR_def ECONNABORTED_def min_def split: list.splits if_splits)

lemma sim_waits: "os_epoll_wait sim_os fd kMaxEvents t k = (Inr evs, k') \<Longrightarrow> length evs \<le> kMaxEvents"
  by (auto simp: sim_os_def split: list.splits)

lemma sim_start: "no_connections (sim_world accepts input events)"
  by (simp add: no_connections_def sim_world_def)

interpretation echo: calm_server sim_os sim_net "echo_user sim_os sim_net" "\<lambda>_ _. True" sim_busy
  by (rule echo_server [OF sim_bounded sim_calms])

text \<open>A running server with one connection, at address 2.\<close>

definition one_client :: "bytes list \<Rightarrow> (u32 \<times> int) list list \<Rightarrow> sim conn_world" where
  "one_client input events =
     (sim_world [] input events)
       \<lparr>lp_channels := fmupd 7 2 (fmupd 5 1 fmempty),
        cw_server := \<lparr>sv_listen_fd = 5, sv_started = True, sv_on_connection = Some 1, sv_on_close = None, sv_on_message = Some 2\<rparr>,
        cw_conns := fmupd 2 \<lparr>cn_fd = 7, cn_started = True, cn_closed = False, cn_interest = READ,
          cn_read = \<lparr>buf = replicate 8 CHR 0x00, read_idx = 0, write_idx = 0\<rparr>,
          cn_write = \<lparr>buf = replicate 8 CHR 0x00, read_idx = 0, write_idx = 0\<rparr>,
          cn_on_message = Some 2, cn_on_close = Some 0, cn_sent = []\<rparr> fmempty,
        cw_next := 3, cw_table := fmupd 7 2 fmempty\<rparr>"

lemma one_client_inv: "conn_inv {} {} (one_client input events)"
  by (auto simp: one_client_def sim_world_def conn_inv_defs conn_ok_def buffer_defs)

theorem server_safe_witness:
  "conn_inv {} {} (one_client [''hello''] [[(EPOLLIN, 7)]]) \<and>
   wp (poll sim_os server_chan_at (server_invoke sim_os sim_net (\<lambda>_ _. True) (echo_user sim_os sim_net)) 10)
     (\<lambda>_. conn_inv {} {}) (\<lambda>_. conn_inv {} {}) (one_client [''hello''] [[(EPOLLIN, 7)]])"
proof -
  have "TcpServer sim_net 1 8080 (sim_world [] [] []) = (Inr (), snd (TcpServer sim_net 1 8080 (sim_world [] [] [])))"
    by (simp add: TcpServer_def on_kernel_def create_listen_fd_def sys_def set_reuse_addr_def set_nonblocking_def sim_net_def)
  note server = this
  have "conn_inv {} {} (snd (TcpServer sim_net 1 8080 (sim_world [] [] []))) \<and>
    (\<forall>w. conn_inv {} {} w \<longrightarrow>
       harmless (server_start sim_os) w \<and>
       wp (poll sim_os server_chan_at (server_invoke sim_os sim_net (\<lambda>_ _. True) (echo_user sim_os sim_net)) 10)
         (\<lambda>_. conn_inv {} {}) (\<lambda>_. conn_inv {} {}) w \<and>
       (\<forall>r w'. loop_run sim_os server_chan_at (server_invoke sim_os sim_net (\<lambda>_ _. True) (echo_user sim_os sim_net)) w = Some (r, w') \<longrightarrow>
          r \<noteq> Inl Undefined_behaviour \<and> conn_inv {} {} w'))"
    by (rule server_safe [OF sim_bounded sim_calms _ _ _ sim_start server])
      (fact harmless_echo [OF sim_bounded] quiet_echo [OF sim_calms] sim_waits)+
  then show ?thesis using one_client_inv by blast
qed


lemma sim_main: "fst (the (echo_main sim_os sim_net alloc 8080 (sim_world [] [] [[]]))) = Inl (System_error EBADF ''epoll_wait'')"
  "echo_main sim_os sim_net alloc 8080 (sim_world [] [] [[]]) \<noteq> None"
  by (simp_all add: echo_main_def init_poller_def sim_os_def sim_world_def TcpServer_def on_kernel_def create_listen_fd_def sys_def
      set_reuse_addr_def set_nonblocking_def sim_net_def server_set_connection_callback_def server_set_message_callback_def
      server_start_def add_channel_def accept_channel_def ctl_add_def epoll_ctl_def loop_run_def loop_while.simps dispatch_events_def
      kMaxEvents_def EBADF_def EINTR_def)


section \<open>The echo server echoes\<close>

lemma echo_stays_closed: "stays_closed (server_on_close os net (\<lambda>_ _. eret ()))"
proof -
  have closed: "\<not> open_at p v'" if "\<not> open_at p w" "release os net q (w\<lparr>cw_table := t\<rparr>) = (r, v')" for p q w t r v'
    by (rule not_open_release [OF _ that(2)]) (use that(1) in \<open>simp add: open_at_def\<close>)
  show ?thesis
    by (auto simp: stays_closed_def server_on_close_def handle_close_def ebind_def with_conn_def table_erase_def Let_def
        split: option.split prod.split sum.split dest: closed)
qed

text \<open>
  The echo server sends back what it receives. When a readiness event has been read to the point where the socket
  would block, and the connection is still open after the callback, everything that was received is part of the outgoing bytes,
  in order and exactly once, and the read buffer is empty.
\<close>

theorem echo_returns_input:
  assumes net: "net_bounded net" and c: "fmlookup (cw_conns w) p = Some c" "conn_ok c" "\<not> cn_closed c" "cn_on_message c = Some 2"
    and loop: "recv_loop net (cn_fd c) (cn_read c) (lp_kernel w) = Some (Blocked, b, k)"
    and run: "handle_read os net on_close (echo_user os net) p w = Some (Inr (), w')" and op: "open_at p w'" and b: "contents b \<noteq> []"
  shows "\<exists>c'. fmlookup (cw_conns w') p = Some c' \<and> outgoing c' = outgoing c @ contents b \<and> contents (cn_read c') = []"
proof -
  have bi: "buffer_inv b" using recv_loop_ok [OF net _ loop] c(2) by (simp add: conn_ok_def)
  then obtain b' where b': "retrieve_all_as_string b = Inr (contents b, b')" "buffer_inv b'" "contents b' = []"
    using retrieve_all_ok by blast
  have rd: "0 < readable b" using b length_contents [OF bi] by (simp add: word_gt_0) (metis length_0_conv unat_0)
  let ?w = "w\<lparr>lp_kernel := k, cw_conns := fmupd p (c\<lparr>cn_read := b\<rparr>) (cw_conns w)\<rparr>"
  let ?wp = "?w\<lparr>cw_pins := p # cw_pins w\<rparr>"
  have pin: "pinned os net p (echo_message os net p) ?w = (Inr (), w')"
    using run c loop rd by (simp add: handle_read_def echo_user_def Let_def)
  then obtain w1 where w1: "echo_message os net p ?wp = (Inr (), w1)" "fst (release os net p (w1\<lparr>cw_pins := remove1 p (cw_pins w1)\<rparr>)) = Inr ()"
    "snd (release os net p (w1\<lparr>cw_pins := remove1 p (cw_pins w1)\<rparr>)) = w'"
    by (auto simp: pinned_def split: prod.splits sum.splits)
  then have same: "fmlookup (cw_conns w') p = fmlookup (cw_conns w1) p"
    using conn_after_release [OF op, of os net "w1\<lparr>cw_pins := remove1 p (cw_pins w1)\<rparr>" "Inr ()"] by (simp add: prod_eq_iff)
  let ?c = "c\<lparr>cn_read := b'\<rparr>"
  let ?w2 = "?wp\<lparr>cw_conns := fmupd p ?c (cw_conns w)\<rparr>"
  have send: "conn_send os net (server_on_close os net (\<lambda>_ _. eret ())) p (contents b) ?w2 = (Inr (), w1)"
    using w1(1) b' by (simp add: echo_message_def with_conn_def set_conn_def)
  have "length (contents b) < 2 ^ 64" using length_contents_bound [OF bi] by (simp add: vector_max_size_def)
  moreover have "open_at p w1" using op same by (simp add: open_at_def)
  ultimately obtain c' where "fmlookup (cw_conns w1) p = Some c'" "outgoing c' = outgoing ?c @ contents b" "cn_read c' = b'"
    using send_step [OF echo_stays_closed net _ _ _ _ send] c b'(2) by (auto simp: conn_ok_def)
  with same b'(3) show ?thesis by (simp add: outgoing_def)
qed

lemma one_client_echo:
  "recv_loop sim_net 7 (cn_read (the (fmlookup (cw_conns (one_client [''hello''] [])) 2))) (lp_kernel (one_client [''hello''] [])) \<noteq> None"
  "case the (recv_loop sim_net 7 (cn_read (the (fmlookup (cw_conns (one_client [''hello''] [])) 2))) (lp_kernel (one_client [''hello''] []))) of
     (how, b, k) \<Rightarrow> how = Blocked \<and> contents b = ''hello''"
  "case handle_read sim_os sim_net (server_on_close sim_os sim_net (\<lambda>_ _. eret ())) (echo_user sim_os sim_net) 2 (one_client [''hello''] []) of
     Some (Inr _, w) \<Rightarrow> open_at 2 w \<and> sm_output (lp_kernel w) = ''hel'' | _ \<Rightarrow> False"
  by code_simp+

theorem echo_returns_input_witness:
  "case handle_read sim_os sim_net (server_on_close sim_os sim_net (\<lambda>_ _. eret ())) (echo_user sim_os sim_net) 2 (one_client [''hello''] []) of
     Some (Inr _, w) \<Rightarrow> sm_output (lp_kernel w) = ''hel'' \<and> (\<exists>c. fmlookup (cw_conns w) 2 = Some c \<and> outgoing c = ''hello'') | _ \<Rightarrow> False"
proof -
  let ?w = "one_client [''hello''] []"
  define c where "c = the (fmlookup (cw_conns ?w) 2)"
  have c: "fmlookup (cw_conns ?w) 2 = Some c" "conn_ok c" "\<not> cn_closed c" "cn_on_message c = Some 2" "cn_fd c = 7" "outgoing c = []"
    by (simp_all add: c_def one_client_def conn_ok_def buffer_defs outgoing_def)
  obtain b k where loop: "recv_loop sim_net (cn_fd c) (cn_read c) (lp_kernel ?w) = Some (Blocked, b, k)" "contents b = ''hello''"
    using one_client_echo(1,2) c(5) by (fastforce simp: c_def split: prod.splits)
  obtain w where w: "handle_read sim_os sim_net (server_on_close sim_os sim_net (\<lambda>_ _. eret ())) (echo_user sim_os sim_net) 2 ?w = Some (Inr (), w)"
    "open_at 2 w" "sm_output (lp_kernel w) = ''hel''"
    using one_client_echo(3) by (auto split: option.splits prod.splits sum.splits)
  from echo_returns_input [OF sim_bounded c(1-4) loop(1) w(1,2)] loop(2) c(6) w show ?thesis by auto
qed

section \<open>The HTTP echo server after a failed send\<close>

lemma parsers_release: "release os net p w = (r, w') \<Longrightarrow> hw_parsers w' = hw_parsers w"
  by (auto simp: release_def destroy_conn_def with_conn_def ebind_def on_kernel_def
      split: if_splits option.splits prod.splits sum.splits dest!: preserves_result [OF preserves_remove_channel [of hw_parsers], rotated 2])

lemma conn_after_erase:
  assumes "p \<in> set (cw_pins w)" and "table_erase os net fd w = (r, w')"
  shows "fmlookup (cw_conns w') p = fmlookup (cw_conns w) p"
  using assms
  by (auto simp: table_erase_def release_def referenced_def destroy_conn_def with_conn_def ebind_def on_kernel_def
      split: if_splits option.splits prod.splits sum.splits dest!: conns_remove_channel)

lemma http_close_erases:
  assumes inv: "conn_inv {} {} w" and c: "fmlookup (cw_conns w) p = Some c" "\<not> cn_closed c" "cn_on_close c = Some 0"
    and cb: "sv_on_close (cw_server w) = Some 3"
  shows "wp (conn_close os net (http_on_close os net) p) (\<lambda>_ w'. fmlookup (hw_parsers w') (cn_fd c) = None) (\<lambda>_ _. False)
    (w :: ('k, 'm) http_world_scheme)"
proof (rule wp_conn_close [OF inv c(1,2)])
  fix v :: "('k, 'm) http_world_scheme"
  let ?c = "c\<lparr>cn_closed := True, cn_started := False\<rparr>"
  let ?Q = "\<lambda>w'. fmlookup (hw_parsers w') (cn_fd c) = None"
  assume v: "conn_inv {p} {} v" "fmlookup (cw_conns v) p = Some ?c" "cw_server v = cw_server w"
  let ?v = "v\<lparr>cw_pins := p # cw_pins v\<rparr>"
  have pin: "conn_inv {p} {} ?v" using conn_inv_pin [OF v(1), of p] v(2) by simp
  from wp_table_erase [OF pin, of ?c os net "\<lambda>_ _. False"] v(2) obtain w1 where
    w1: "table_erase os net (cn_fd c) ?v = (Inr (), w1)" "conn_inv {} {} w1" "cw_pins w1 = p # cw_pins v"
    by (auto simp: wp_def split: prod.splits sum.splits)
  have c1: "fmlookup (cw_conns w1) p = Some ?c" using conn_after_erase [OF _ w1(1), of p] v(2) by simp
  let ?w2 = "w1\<lparr>hw_parsers := fmdrop (cn_fd c) (hw_parsers w1)\<rparr>"
  have call: "http_on_close os net 0 p ?v = (Inr (), ?w2)"
    using w1(1) c1 v cb by (simp add: http_on_close_def server_on_close_def handle_close_def with_conn_def http_closed_def Let_def)
  have "conn_inv {} {} ?w2" by (rule conn_inv_same [OF w1(2)]) simp_all
  from conn_inv_unpin [OF this, of p "cw_pins v"] w1(3)
  have "conn_inv {} {p} (?w2\<lparr>cw_pins := cw_pins v\<rparr>)" "fmlookup (cw_conns (?w2\<lparr>cw_pins := cw_pins v\<rparr>)) p \<noteq> None" using c1 by auto
  from wp_release [OF this, of os net "\<lambda>_ _. False"] have "wp (release os net p) (\<lambda>_. ?Q) (\<lambda>_ _. False) (?w2\<lparr>cw_pins := remove1 p (cw_pins ?w2)\<rparr>)"
    using w1(3) by (auto simp: wp_def split: prod.splits sum.splits dest!: parsers_release)
  with call have "wp (pinned os net p (http_on_close os net 0 p)) (\<lambda>_. ?Q) (\<lambda>_ _. False) v"
    by (intro wp_pinned) (simp add: wp_def [of "http_on_close os net 0 p"])
  with c(3) show "wp (case cn_on_close c of None \<Rightarrow> eret () | Some f \<Rightarrow> pinned os net p (http_on_close os net f p)) (\<lambda>_. ?Q) (\<lambda>_ _. False) v"
    by simp
qed

text \<open>
  C40: the HTTP echo server uses an iterator that is no longer valid. When a request is complete and sending the
  response fails with an error such as \<open>ECONNRESET\<close>, \<open>send\<close> closes the connection, the close callback of the
  program erases the parser of the connection, and the message callback goes on to reset that parser through the iterator it
  obtained before.
\<close>

theorem http_reset_after_erase:
  assumes inv: "conn_inv {} {} w" and c: "fmlookup (cw_conns w) p = Some c" "\<not> cn_closed c" "cn_on_close c = Some 0"
    and cb: "sv_on_close (cw_server w) = Some 3" and ps: "fmlookup (hw_parsers w) (cn_fd c) = Some ps"
    and parse: "parse ps (cn_read c) = Inr (COMPLETE, ps', b)" "buffer_inv b"
    and idle: "readable (cn_write c) = 0"
    and send: "nt_send net (cn_fd c) (http_response (hp_request ps')) (lp_kernel w) = (Inl errno, k)" "errno \<noteq> EAGAIN" "errno \<noteq> EINTR"
  shows "fst (http_message os net p w) = Inl Undefined_behaviour"
proof -
  let ?c = "c\<lparr>cn_read := b\<rparr>"
  let ?w1 = "w\<lparr>cw_conns := fmupd p ?c (cw_conns w), hw_parsers := fmupd (cn_fd c) ps' (hw_parsers w), lp_kernel := k\<rparr>"
  have "conn_inv {} {} (w\<lparr>cw_conns := fmupd p ?c (cw_conns w)\<rparr>)"
    by (rule conn_inv_set [OF inv c(1)]) (use conn_invD(1) [OF inv c(1)] parse(2) in \<open>auto simp: conn_ok_def\<close>)
  then have "conn_inv {} {} ?w1" by (rule conn_inv_same) simp_all
  from http_close_erases [OF this, of p ?c os net] c cb obtain w2 where
    w2: "conn_close os net (http_on_close os net) p ?w1 = (Inr (), w2)" "fmlookup (hw_parsers w2) (cn_fd c) = None"
    by (auto simp: wp_def split: prod.splits sum.splits)
  have "http_response (hp_request ps') \<noteq> []" by (simp add: http_response_def Let_def)
  then show ?thesis
    using c ps parse(1) idle send w2
    by (simp add: http_message_def with_conn_def set_conn_def conn_send_def on_kernel_def reset_parser_def)
qed

text \<open>A server with one connection on which a request has arrived, and whose peer has reset it.\<close>

definition reset_net :: "sim net" where
  "reset_net = sim_net\<lparr>nt_send := \<lambda>fd d k. (Inl 104, k)\<rparr>"

definition http_client :: "sim http_world" where
  "http_client =
     \<lparr>lp_kernel = \<lparr>sm_accepts = [], sm_input = [], sm_output = [], sm_events = []\<rparr>, lp_poller = 3, lp_running = True,
      lp_channels = fmupd 7 2 (fmupd 5 1 fmempty),
      cw_server = \<lparr>sv_listen_fd = 5, sv_started = True, sv_on_connection = Some 1, sv_on_close = Some 3, sv_on_message = Some 2\<rparr>,
      cw_conns = fmupd 2 \<lparr>cn_fd = 7, cn_started = True, cn_closed = False, cn_interest = READ,
        cn_read = mkbuf (sample_head @ sample_tail), cn_write = mkbuf [], cn_on_message = Some 2, cn_on_close = Some 0, cn_sent = []\<rparr> fmempty,
      cw_next = 3, cw_table = fmupd 7 2 fmempty, cw_held = [], cw_pins = [],
      hw_parsers = fmupd 7 (HttpParser default_limits) fmempty\<rparr>"

lemma sample_complete:
  "case parse (HttpParser default_limits) (mkbuf (sample_head @ sample_tail)) of
     Inr (r, ps, b) \<Rightarrow> r = COMPLETE | Inl e \<Rightarrow> False"
  by code_simp

theorem http_reset_after_erase_witness: "fst (http_message sim_os reset_net 2 http_client) = Inl Undefined_behaviour"
proof -
  have inv: "conn_inv {} {} http_client"
    using sample_inv(4) mkbuf_inv [of "[]"] mkbuf_contents [of "[]"] by (auto simp: http_client_def conn_inv_defs conn_ok_def)
  define c where "c = the (fmlookup (cw_conns http_client) 2)"
  have c: "fmlookup (cw_conns http_client) 2 = Some c" "\<not> cn_closed c" "cn_on_close c = Some 0"
    "fmlookup (hw_parsers http_client) (cn_fd c) = Some (HttpParser default_limits)" "cn_read c = mkbuf (sample_head @ sample_tail)"
    "readable (cn_write c) = 0" "sv_on_close (cw_server http_client) = Some 3"
    by (simp_all add: c_def http_client_def mkbuf_def readable_def)
  obtain ps b where p: "parse (HttpParser default_limits) (cn_read c) = Inr (COMPLETE, ps, b)"
    using sample_complete c(5) by (auto split: sum.splits)
  have b: "buffer_inv b" using parse_Inr_spec [OF _ _ p] sample_inv(1,4) c(5) by (simp add: parser_inv_def)
  show ?thesis
    by (rule http_reset_after_erase [OF inv c(1-3,7,4) p b c(6), where errno = 104]) (simp_all add: reset_net_def EAGAIN_def EINTR_def)
qed

end
