(* ===== verification/Coroutine_Servers.thy ===== *)
theory Coroutine_Servers
  imports Callback_Servers Http_Props
begin

text \<open>
  The coroutines that serve a connection in \<open>examples/echo_server.cpp\<close> and \<open>examples/http_echo.cpp\<close>, over the
  operations of \<open>TcpStream\<close>, the buffer and the HTTP parser. What the rest of the program and the network do is given by a
  list of calls: for every operation that the coroutine awaits, the value of \<open>fd_\<close> and the state of the kernel when it is
  called and the resumptions while it is suspended.
\<close>

record 'k call =
  ca_fd :: int
  ca_kernel :: 'k
  ca_wakes :: "'k wake list"

definition await_read :: "'k net \<Rightarrow> size_t \<Rightarrow> int \<Rightarrow> 'k call \<Rightarrow> buffer \<Rightarrow> (io_result turn \<times> buffer \<times> 'k) option" where
  "await_read net max_bytes timeout ca b = read_some net max_bytes timeout (ca_wakes ca) (ca_fd ca) b (ca_kernel ca)"

definition await_write :: "'k net \<Rightarrow> bytes \<Rightarrow> 'k call \<Rightarrow> (io_result turn \<times> size_t \<times> bytes list \<times> 'k) option" where
  "await_write net data ca = write_all net data kNoTimeout (ca_wakes ca) (ca_fd ca) (ca_kernel ca)"

text \<open>
  How far a coroutine has come: it is suspended in a read or in a write, it has ended, an exception has left it, or it
  does not come back from a call.
\<close>

datatype progress = Reading | Writing | Returned | Failed exn | Stuck

section \<open>The echo coroutine\<close>

text \<open>\<open>inp\<close> and \<open>sent\<close> record the bytes received and those accepted by the kernel so far.\<close>

fun serve_echo :: "'k net \<Rightarrow> 'k call list \<Rightarrow> buffer \<Rightarrow> bytes \<Rightarrow> bytes \<Rightarrow> progress \<times> bytes \<times> bytes" where
  "serve_echo net (rd # calls) input inp sent =
     (case await_read net (16 * 1024) kNoTimeout rd input of
        None \<Rightarrow> (Stuck, inp, sent)
      | Some (Waits _ _ _, _, _) \<Rightarrow> (Reading, inp, sent)
      | Some (Raises e, _, _) \<Rightarrow> (Failed e, inp, sent)
      | Some (Returns res, input', _) \<Rightarrow>
          if io_stat res \<noteq> Ok then (Returned, inp, sent)
          else
            let inp = inp @ drop (length (contents input)) (contents input') in
            (case (read_ptr (io_bytes res) input', calls) of
               (Inl e, _) \<Rightarrow> (Failed e, inp, sent)
             | (Inr chunk, []) \<Rightarrow> (Writing, inp, sent)
             | (Inr chunk, wr # calls) \<Rightarrow>
                 (case await_write net chunk wr of
                    None \<Rightarrow> (Stuck, inp, sent)
                  | Some (Waits _ _ _, _, chunks, _) \<Rightarrow> (Writing, inp, sent @ concat chunks)
                  | Some (Raises e, _, chunks, _) \<Rightarrow> (Failed e, inp, sent @ concat chunks)
                  | Some (Returns wres, _, chunks, _) \<Rightarrow>
                      (case consume (io_bytes res) input' of
                         Inl e \<Rightarrow> (Failed e, inp, sent @ concat chunks)
                       | Inr input \<Rightarrow>
                           if io_stat wres \<noteq> Ok then (Returned, inp, sent @ concat chunks)
                           else serve_echo net calls input inp (sent @ concat chunks)))))"
| "serve_echo net [] input inp sent = (Reading, inp, sent)"

section \<open>The HTTP coroutine\<close>

definition bad_request :: string where
  "bad_request = ''HTTP/1.1 400 Bad Request'' @ crlf @ ''Content-Length: 0'' @ crlf @ ''Connection: close'' @ crlf @ crlf"

definition send_bad_request :: "'k net \<Rightarrow> 'k call \<Rightarrow> (io_result turn \<times> size_t \<times> bytes list \<times> 'k) option" where
  "send_bad_request net ca = await_write net bad_request ca"

text \<open>
  \<open>reqs\<close> records the requests that have been answered. Building a string beyond the maximal size throws.
\<close>

fun serve_http ::
  "'k net \<Rightarrow> 'k call list \<Rightarrow> http_parser \<Rightarrow> buffer \<Rightarrow> http_request list \<Rightarrow> bytes \<Rightarrow> bytes \<Rightarrow>
   progress \<times> http_request list \<times> bytes \<times> bytes" where
  "serve_http net calls parser input reqs inp sent =
     (case parse parser input of
        Inl e \<Rightarrow> (Failed e, reqs, inp, sent)
      | Inr (COMPLETE, parser, input) \<Rightarrow>
          if length (http_response (hp_request parser)) > vector_max_size then (Failed (Length_error ''basic_string''), reqs, inp, sent)
          else
            (case calls of
               [] \<Rightarrow> (Writing, reqs, inp, sent)
             | ca # calls \<Rightarrow>
                 (case await_write net (http_response (hp_request parser)) ca of
                    None \<Rightarrow> (Stuck, reqs, inp, sent)
                  | Some (Waits _ _ _, _, chunks, _) \<Rightarrow> (Writing, reqs, inp, sent @ concat chunks)
                  | Some (Raises e, _, chunks, _) \<Rightarrow> (Failed e, reqs, inp, sent @ concat chunks)
                  | Some (Returns wres, _, chunks, _) \<Rightarrow>
                      if io_stat wres \<noteq> Ok then (Returned, reqs, inp, sent @ concat chunks)
                      else serve_http net calls (reset parser) input (reqs @ [hp_request parser]) inp (sent @ concat chunks)))
      | Inr (ERROR, parser, input) \<Rightarrow>
          (case calls of
             [] \<Rightarrow> (Writing, reqs, inp, sent)
           | ca # calls \<Rightarrow>
               (case send_bad_request net ca of
                  None \<Rightarrow> (Stuck, reqs, inp, sent)
                | Some (Waits _ _ _, _, chunks, _) \<Rightarrow> (Writing, reqs, inp, sent @ concat chunks)
                | Some (Raises e, _, chunks, _) \<Rightarrow> (Failed e, reqs, inp, sent @ concat chunks)
                | Some (Returns _, _, chunks, _) \<Rightarrow> (Returned, reqs, inp, sent @ concat chunks)))
      | Inr (INCOMPLETE, parser, input) \<Rightarrow>
          (case calls of
             [] \<Rightarrow> (Reading, reqs, inp, sent)
           | ca # calls \<Rightarrow>
               (case await_read net (16 * 1024) 30000 ca input of
                  None \<Rightarrow> (Stuck, reqs, inp, sent)
                | Some (Waits _ _ _, _, _) \<Rightarrow> (Reading, reqs, inp, sent)
                | Some (Raises e, _, _) \<Rightarrow> (Failed e, reqs, inp, sent)
                | Some (Returns res, input', _) \<Rightarrow>
                    if io_stat res \<noteq> Ok then (Returned, reqs, inp, sent)
                    else serve_http net calls parser input' reqs (inp @ drop (length (contents input)) (contents input')) sent)))"

declare serve_http.simps [simp del]

section \<open>What the operations contribute\<close>

lemma await_read_ok:
  assumes "net_bounded net" and "buffer_inv b" and "await_read net (16 * 1024) timeout ca b = Some (t, b', k)"
  shows "buffer_inv b' \<and>
    (case t of
       Waits fd ev timeout \<Rightarrow> True
     | Returns r \<Rightarrow> io_stat r = Ok \<longrightarrow> (\<exists>d. d \<noteq> [] \<and> contents b' = contents b @ d \<and> unat (io_bytes r) = length d)
     | Raises e \<Rightarrow> (\<exists>m. e = Length_error m) \<and> \<not> room_for (16 * 1024) b)"
proof (cases "0 \<le> ca_fd ca")
  case True
  from read_some_spec [OF assms(1,2) True _ assms(3) [unfolded await_read_def]] show ?thesis
    by (auto split: turn.splits if_splits)
next
  case False
  with assms(2,3) show ?thesis
    by (cases "ca_wakes ca") (auto simp: await_read_def read_some_def read_start_def Let_def bind_eq_Some_conv)
qed

lemma await_write_ok:
  assumes "net_bounded net" and "length data < 2 ^ 64" and "await_write net data ca = Some (t, written, chunks, k)"
  shows "(\<exists>rest. data = concat chunks @ rest) \<and> (\<forall>e. t \<noteq> Raises e) \<and> (\<forall>r. t = Returns r \<and> io_stat r = Ok \<longrightarrow> concat chunks = data)"
proof -
  have "concat chunks = take (unat written) data" and t: "case t of
       Waits fd ev timeout \<Rightarrow> ev = WRITE \<and> unat written < length data
     | Returns r \<Rightarrow> io_bytes r = written \<and> (io_stat r = Ok \<longrightarrow> concat chunks = data)
     | Raises e \<Rightarrow> False"
    using write_all_spec [OF assms(1,2) assms(3) [unfolded await_write_def]] by blast+
  then have "data = concat chunks @ drop (unat written) data" by simp
  with t show ?thesis by (auto split: turn.splits)
qed

section \<open>Echo\<close>

definition drained :: "buffer \<Rightarrow> bool" where
  "drained b \<longleftrightarrow> buffer_inv b \<and> read_idx b = 0 \<and> write_idx b = 0"

lemma drainedD: "drained b \<Longrightarrow> buffer_inv b \<and> contents b = [] \<and> room_for (16 * 1024) b"
  by (simp add: drained_def contents_def room_for_def vector_max_size_def)

lemma drained_consume:
  assumes "buffer_inv b" and "length (contents b) = unat n" and "n \<noteq> 0" shows "\<exists>b'. consume n b = Inr b' \<and> drained b'"
proof -
  have "readable b = n" using assms(2) length_contents [OF assms(1)] by (simp add: word_unat_eq_iff)
  then have "write_idx b = read_idx b + n" by (auto simp: readable_def)
  with consume_ok [OF assms(1), of n] assms(2,3) show ?thesis
    by (auto simp: consume_def Let_def drained_def readable_def)
qed

lemma serve_echo_run:
  assumes "net_bounded net"
  shows "drained b \<Longrightarrow> serve_echo net calls b inp inp = (how, inp', sent') \<Longrightarrow>
    (\<exists>rest. inp' = sent' @ rest) \<and> (how = Reading \<longrightarrow> sent' = inp') \<and> (\<forall>e. how \<noteq> Failed e)"
proof (induction "length calls" arbitrary: calls b inp rule: less_induct)
  case less
  note D = drainedD [OF less.prems(1)]
  show ?case
  proof (cases "\<exists>rd cs res b1 k. calls = rd # cs \<and> await_read net (16 * 1024) kNoTimeout rd b = Some (Returns res, b1, k) \<and> io_stat res = Ok")
    case False
    have "await_read net (16 * 1024) kNoTimeout rd b \<noteq> Some (Raises e, b1, k)" for rd e b1 k
      using await_read_ok [OF assms, of b kNoTimeout rd "Raises e" b1 k] D by auto
    with False less.prems(2) show ?thesis
      by (cases calls) (auto split: option.splits prod.splits turn.splits if_splits)
  next
    case True
    then obtain rd cs res b1 k where calls: "calls = rd # cs"
      and rd: "await_read net (16 * 1024) kNoTimeout rd b = Some (Returns res, b1, k)" "io_stat res = Ok" by blast
    from await_read_ok [OF assms _ rd(1)] D rd(2) obtain d where
      d: "buffer_inv b1" "contents b1 = d" "d \<noteq> []" "unat (io_bytes res) = length d" by auto
    have ptr: "read_ptr (io_bytes res) b1 = Inr d" using read_ptr_contents [OF d(1)] d(2,4) by simp
    have len: "length d < 2 ^ 64" using length_contents_bound [OF d(1)] d(2) by (simp add: vector_max_size_def)
    have "io_bytes res \<noteq> 0" using d(3,4) by auto
    then obtain b2 where b2: "consume (io_bytes res) b1 = Inr b2" "drained b2" using drained_consume [OF d(1), of "io_bytes res"] d(2,4) by auto
    show ?thesis
    proof (cases "\<exists>wr cs' wres written chunks k'. cs = wr # cs' \<and> await_write net d wr = Some (Returns wres, written, chunks, k') \<and> io_stat wres = Ok")
      case False
      have w: "(\<exists>rest. contents b1 = concat chunks @ rest) \<and> (\<forall>e. t \<noteq> Raises e)"
        if "await_write net (contents b1) wr = Some (t, written, chunks, k')" for wr t written chunks k'
        using await_write_ok [OF assms len] that d(2) by blast
      from False less.prems(2) calls rd ptr D d(2) b2(1) show ?thesis
        by (cases cs) (auto simp: Let_def split: option.splits prod.splits turn.splits if_splits dest!: w)
    next
      case True
      then obtain wr cs' wres written chunks k' where cs: "cs = wr # cs'"
        and wr: "await_write net d wr = Some (Returns wres, written, chunks, k')" "io_stat wres = Ok" by blast
      have "concat chunks = d" using await_write_ok [OF assms len wr(1)] wr(2) by blast
      with less.prems(2) calls cs rd ptr D d(2) b2(1) wr
      have "serve_echo net cs' b2 (inp @ d) (inp @ d) = (how, inp', sent')" by (simp add: Let_def)
      from less.hyps [OF _ b2(2) this] calls cs show ?thesis by simp
    qed
  qed
qed

lemma drained_new:
  assumes "Buffer_new kInitialSize = Inr b" shows "drained b"
proof -
  have "buffer_inv b" using Buffer_new_ok [of kInitialSize] assms by (auto simp: kInitialSize_def vector_max_size_def)
  moreover have "read_idx b = 0 \<and> write_idx b = 0" using assms
    by (auto simp: Buffer_new_def vector_resize_def kInitialSize_def split: if_splits)
  ultimately show ?thesis by (simp add: drained_def)
qed

text \<open>A call that finds bytes waiting in the socket returns at once with them.\<close>

lemma await_read_now:
  assumes "buffer_inv b" and "room_for (16 * 1024) b" and "0 \<le> ca_fd ca" and "d \<noteq> []" and "length d \<le> 16 * 1024"
    and "nt_recv net (ca_fd ca) (16 * 1024) (snd (Deadline net timeout (ca_kernel ca))) = (Inr d, k')"
  shows "\<exists>b'. await_read net (16 * 1024) timeout ca b =
      Some (Returns \<lparr>io_stat = Ok, io_bytes = word_of_nat (length d), io_error_code = 0\<rparr>, b', k') \<and>
    buffer_inv b' \<and> contents b' = contents b @ d"
proof -
  obtain dl k where dl: "Deadline net timeout (ca_kernel ca) = (dl, k)" by fastforce
  obtain b1 where b1: "ensure_writable (16 * 1024) b = Inr b1" "buffer_inv b1" "contents b1 = contents b" "16 * 1024 \<le> writable b1"
    using ensure_writable_ok [OF assms(1), of "16 * 1024"] assms(2) by auto
  have "length d \<le> unat (writable b1)" using b1(4) assms(5) by (auto simp: word_le_nat_alt)
  from write_then_commit [OF b1(2) this] obtain b2 b3 where b3: "write_ptr d b1 = Inr b2"
    "has_written (word_of_nat (length d)) b2 = Inr b3" "buffer_inv b3" "contents b3 = contents b1 @ d" by blast
  have rt: "retry (\<lambda>errno. errno = EINTR) (nt_recv net (ca_fd ca) 16384) k = Some (Inr d, k')"
    using assms(6) dl by (subst retry.simps) simp
  show ?thesis using assms(3,4) b1 b3 rt
    by (cases "ca_wakes ca") (auto simp: await_read_def read_some_def read_start_def read_turn_def dl Let_def)
qed


text \<open>Five bytes arrive and are sent in two parts, the second after a suspension.\<close>

definition demo_call :: "int \<Rightarrow> demo_kernel wake list \<Rightarrow> demo_kernel call" where
  "demo_call c wks = \<lparr>ca_fd = 5, ca_kernel = demo_clock c, ca_wakes = wks\<rparr>"


section \<open>HTTP\<close>

text \<open>
  The requests of a stream of bytes, at most \<open>n\<close> of them: what the specification of the parser finds when it is given the
  whole stream at once.
\<close>

fun requests :: "nat \<Rightarrow> http_parser \<Rightarrow> bytes \<Rightarrow> http_request list" where
  "requests 0 p xs = []"
| "requests (Suc n) p xs =
     (case spec_parse p xs of
        (COMPLETE, p', rest) \<Rightarrow> hp_request p' # requests n (reset p') rest
      | _ \<Rightarrow> [])"

lemma requests_fragment: "spec_parse p xs = (INCOMPLETE, p', xs') \<Longrightarrow> requests n p (xs @ ys) = requests n p' (xs' @ ys)"
  by (cases n) (simp_all add: spec_parse_fragments)

lemma requests_complete:
  "spec_parse p xs = (COMPLETE, p', xs') \<Longrightarrow> requests (Suc n) p (xs @ ys) = hp_request p' # requests n (reset p') (xs' @ ys)"
  by (simp add: spec_parse_pipelined)

text \<open>
  The state of the coroutine at the head of its loop: the requests answered are the first ones of the stream,
  whatever is still to come.
\<close>

definition answered :: "http_parser \<Rightarrow> buffer \<Rightarrow> http_request list \<Rightarrow> bytes \<Rightarrow> bytes \<Rightarrow> bool" where
  "answered p b reqs inp sent \<longleftrightarrow>
     parser_inv p \<and> buffer_inv b \<and> sent = concat (map http_response reqs) \<and>
     (\<forall>n later. requests (length reqs + n) (HttpParser default_limits) (inp @ later) = reqs @ requests n p (contents b @ later))"

text \<open>
  What holds wherever the coroutine stands: behind the responses to the answered requests there is at most a part of what
  is due next, and nothing is due while it waits for input.
\<close>

definition http_outcome :: "progress \<times> http_request list \<times> bytes \<times> bytes \<Rightarrow> bool" where
  "http_outcome = (\<lambda>(how, reqs, inp, sent).
     (\<forall>n. \<exists>rest part unsent.
        requests (length reqs + Suc n) (HttpParser default_limits) inp = reqs @ rest \<and>
        sent = concat (map http_response reqs) @ part \<and>
        part @ unsent = (if rest = [] then bad_request else http_response (hd rest)) \<and>
        (how = Reading \<longrightarrow> rest = [] \<and> part = [])) \<and>
     (\<forall>e. how = Failed e \<longrightarrow> (\<exists>m. e = Length_error m)))"

lemma parse_keeps:
  assumes "parser_inv p" and "buffer_inv b" and "parse p b = Inr (r, p', b')"
  shows "spec_parse p (contents b) = (r, p', contents b')" and "buffer_inv b'" and "parser_inv p'"
proof -
  from assms(1) have ok: "parser_ok p" by (simp add: parser_inv_def)
  show sp: "spec_parse p (contents b) = (r, p', contents b')" and "buffer_inv b'" using parse_Inr_spec [OF assms(2) ok assms(3)] by blast+
  show "parser_inv p'" using spec_parse_inv [OF assms(1) length_contents_bound [OF assms(2)]] sp by simp
qed

lemma answered_incomplete:
  assumes "answered p b reqs inp sent" and "parse p b = Inr (INCOMPLETE, p', b')"
  shows "answered p' b' reqs inp sent"
proof -
  from assms(1) have "parser_inv p" "buffer_inv b" by (simp_all add: answered_def)
  from parse_keeps [OF this assms(2)] requests_fragment assms(1) show ?thesis by (simp add: answered_def)
qed

lemma answered_complete:
  assumes "answered p b reqs inp sent" and "parse p b = Inr (COMPLETE, p', b')"
  shows "answered (reset p') b' (reqs @ [hp_request p']) inp (sent @ http_response (hp_request p'))"
proof -
  from assms(1) have a: "parser_inv p" "buffer_inv b" "sent = concat (map http_response reqs)"
    "\<And>n later. requests (length reqs + n) (HttpParser default_limits) (inp @ later) = reqs @ requests n p (contents b @ later)"
    by (simp_all add: answered_def)
  note k = parse_keeps [OF a(1,2) assms(2)]
  have "requests (length (reqs @ [hp_request p']) + n) (HttpParser default_limits) (inp @ later) =
      (reqs @ [hp_request p']) @ requests n (reset p') (contents b' @ later)" for n later
    using a(4) [of "Suc n" later] requests_complete [OF k(1), of n later] by simp
  with a(3) k parser_inv_reset show ?thesis by (simp add: answered_def)
qed

lemma answered_read:
  "answered p b reqs inp sent \<Longrightarrow> buffer_inv b' \<Longrightarrow> contents b' = contents b @ d \<Longrightarrow> answered p b' reqs (inp @ d) sent"
  by (simp add: answered_def)

lemma answered_outcome:
  assumes "answered p b reqs inp sent" and "spec_parse p (contents b) = (r, p', xs)"
    and "part @ unsent = (if r = COMPLETE then http_response (hp_request p') else bad_request)"
    and "how = Reading \<Longrightarrow> r = INCOMPLETE \<and> part = []" and "\<And>e. how = Failed e \<Longrightarrow> \<exists>m. e = Length_error m"
  shows "http_outcome (how, reqs, inp, sent @ part)"
proof -
  have "\<exists>rest part' unsent'. requests (length reqs + Suc n) (HttpParser default_limits) inp = reqs @ rest \<and>
      sent @ part = concat (map http_response reqs) @ part' \<and>
      part' @ unsent' = (if rest = [] then bad_request else http_response (hd rest)) \<and> (how = Reading \<longrightarrow> rest = [] \<and> part' = [])" for n
  proof (intro exI conjI)
    from assms(1) have "requests (length reqs + Suc n) (HttpParser default_limits) (inp @ []) = reqs @ requests (Suc n) p (contents b @ [])"
      unfolding answered_def by blast
    then show "requests (length reqs + Suc n) (HttpParser default_limits) inp = reqs @ requests (Suc n) p (contents b)" by simp
    show "sent @ part = concat (map http_response reqs) @ part" using assms(1) by (simp add: answered_def)
    show "part @ unsent = (if requests (Suc n) p (contents b) = [] then bad_request else http_response (hd (requests (Suc n) p (contents b))))"
      using assms(2,3) by (cases r) auto
    show "how = Reading \<longrightarrow> requests (Suc n) p (contents b) = [] \<and> part = []" using assms(2,4) by auto
  qed
  with assms(5) show ?thesis by (simp add: http_outcome_def)
qed

lemma answered_halt:
  assumes "answered p b reqs inp sent" and "spec_parse p (contents b) = (r, p', xs)"
    and "how = Reading \<longrightarrow> r = INCOMPLETE" and "\<forall>e. how = Failed e \<longrightarrow> (\<exists>m. e = Length_error m)"
  shows "http_outcome (how, reqs, inp, sent)"
  using answered_outcome [OF assms(1,2), of "[]" _ how] assms(3,4) by simp

lemma answered_write:
  assumes net: "net_bounded net" and a: "answered p b reqs inp sent" "spec_parse p (contents b) = (r, p', xs)"
    and w: "await_write net data ca = Some (t, written, chunks, k')" "length data < 2 ^ 64"
    and due: "data = (if r = COMPLETE then http_response (hp_request p') else bad_request)"
    and how: "how \<noteq> Reading" "\<forall>e. how \<noteq> Failed e"
  shows "http_outcome (how, reqs, inp, sent @ concat chunks) \<and> (\<forall>e. t \<noteq> Raises e)"
proof -
  from await_write_ok [OF net w(2,1)] obtain unsent where "concat chunks @ unsent = data" "\<forall>e. t \<noteq> Raises e" by metis
  with answered_outcome [OF a, of "concat chunks" unsent how] due how show ?thesis by simp
qed

lemma serve_http_run:
  assumes net: "net_bounded net"
  shows "answered p b reqs inp sent \<Longrightarrow> http_outcome (serve_http net calls p b reqs inp sent)"
proof (induction "length calls" arbitrary: calls p b reqs inp sent rule: less_induct)
  case less
  note a = less.prems
  then have inv: "parser_inv p" "buffer_inv b" "parser_ok p" by (simp_all add: answered_def parser_inv_def)
  obtain r p1 b1 where pr: "parse p b = Inr (r, p1, b1)"
    using spec_parse_Inr [OF inv(2,3)] by (metis prod_cases3)
  note k = parse_keeps [OF inv(1,2) pr]
  note halt = answered_halt [OF a k(1)] and part = answered_write [OF net a k(1)]
  note step = serve_http.simps [of net calls p b reqs inp sent]
  show ?case
  proof (cases r)
    case ERROR
    have "length bad_request < 2 ^ 64" by (simp add: bad_request_def)
    note part = part [OF _ this]
    show ?thesis unfolding step using pr ERROR halt
      by (auto simp: send_bad_request_def split: list.split option.splits prod.splits turn.splits dest: part)
  next
    case COMPLETE
    let ?resp = "http_response (hp_request p1)"
    show ?thesis
    proof (cases "vector_max_size < length ?resp \<or> calls = []")
      case True
      with pr COMPLETE show ?thesis unfolding step by (auto intro: halt)
    next
      case False
      then obtain ca cs where calls: "calls = ca # cs" "length ?resp < 2 ^ 64"
        by (cases calls) (auto simp: vector_max_size_def)
      have onward: "http_outcome (serve_http net cs (reset p1) b1 (reqs @ [hp_request p1]) inp (sent @ concat chunks))"
        if "await_write net ?resp ca = Some (Returns res, written, chunks, k')" "io_stat res = Ok" for res written chunks k'
        using await_write_ok [OF net calls(2) that(1)] that(2) less.hyps [of cs] calls(1) answered_complete [OF a pr [unfolded COMPLETE]] by simp
      note part = part [OF _ calls(2)]
      show ?thesis unfolding step using pr COMPLETE False calls(1)
        by (auto split: option.splits prod.splits turn.splits dest: part intro: halt onward)
    qed
  next
    case INCOMPLETE
    show ?thesis
    proof (cases calls)
      case Nil
      with pr INCOMPLETE show ?thesis unfolding step by (auto intro: halt)
    next
      case (Cons ca cs)
      have rd: "(\<forall>e. t = Raises e \<longrightarrow> (\<exists>m. e = Length_error m)) \<and> (\<forall>res. t = Returns res \<and> io_stat res = Ok \<longrightarrow>
          http_outcome (serve_http net cs p1 b2 reqs (inp @ drop (length (contents b1)) (contents b2)) sent))"
        if "await_read net 16384 30000 ca b1 = Some (t, b2, k')" for t b2 k'
        using await_read_ok [OF net k(2), of 30000 ca t b2 k'] that less.hyps [of cs] Cons
          answered_read [OF answered_incomplete [OF a pr [unfolded INCOMPLETE]]] by auto
      with pr INCOMPLETE Cons show ?thesis unfolding step
        by (auto split: option.splits prod.splits turn.splits dest: rd intro: halt)
    qed
  qed
qed


text \<open>A request that arrives in two parts is answered in one write.\<close>

lemma small_room: "buffer_inv b \<Longrightarrow> length (contents b) + 2 * n \<le> vector_max_size \<Longrightarrow> room_for n b"
  by (auto simp: room_for_def length_contents unat_writable unat_readable buffer_inv_def)

lemma serve_http_receives:
  assumes "buffer_inv b" and "parser_ok p" and "spec_parse p (contents b) = (INCOMPLETE, p', xs)" and "length xs \<le> 16 * 1024"
    and "0 \<le> ca_fd ca" and "d \<noteq> []" and "length d \<le> 16 * 1024"
    and "nt_recv net (ca_fd ca) (16 * 1024) (snd (Deadline net 30000 (ca_kernel ca))) = (Inr d, k')"
  shows "\<exists>b'. serve_http net (ca # calls) p b reqs inp sent = serve_http net calls p' b' reqs (inp @ d) sent \<and>
    buffer_inv b' \<and> contents b' = xs @ d"
proof -
  obtain b1 where b1: "parse p b = Inr (INCOMPLETE, p', b1)" "buffer_inv b1" "contents b1 = xs"
    using spec_parse_Inr [OF assms(1-3)] by blast
  have "room_for (16 * 1024) b1" using small_room [OF b1(2)] b1(3) assms(4) by (simp add: vector_max_size_def)
  from await_read_now [OF b1(2) this assms(5-8)] b1 show ?thesis
    by (auto simp: serve_http.simps [of net "ca # calls" p b reqs inp sent])
qed

lemma serve_http_answers_one:
  assumes "buffer_inv b" and "parser_ok p" and "spec_parse p (contents b) = (COMPLETE, p', xs)"
    and "length (http_response (hp_request p')) \<le> vector_max_size"
    and "await_write net (http_response (hp_request p')) ca = Some (Returns res, written, chunks, k)" and "io_stat res = Ok"
    and "fst (spec_parse (reset p') xs) = INCOMPLETE" and "parser_ok (reset p')"
  shows "serve_http net [ca] p b reqs inp sent = (Reading, reqs @ [hp_request p'], inp, sent @ concat chunks)"
proof -
  obtain b1 where b1: "parse p b = Inr (COMPLETE, p', b1)" "buffer_inv b1" "contents b1 = xs"
    using spec_parse_Inr [OF assms(1-3)] by blast
  obtain p2 ys where "spec_parse (reset p') (contents b1) = (INCOMPLETE, p2, ys)" using assms(7) b1(3) by (metis prod.collapse)
  then obtain b2 where "parse (reset p') b1 = Inr (INCOMPLETE, p2, b2)" using spec_parse_Inr [OF b1(2) assms(8)] by blast
  with b1 assms(4-6) show ?thesis
    by (simp add: serve_http.simps [of net "[ca]" p] serve_http.simps [of net "[]" "reset p'"])
qed

lemma sample_requests:
  "case parse (HttpParser default_limits) (mkbuf []) of Inr (r, _, b) \<Rightarrow> r = INCOMPLETE \<and> contents b = [] | Inl _ \<Rightarrow> False"
  "case parse (HttpParser default_limits) (mkbuf sample_head) of Inr (r, _, b) \<Rightarrow> r = INCOMPLETE \<and> contents b = sample_head | Inl _ \<Rightarrow> False"
  "case parse (HttpParser default_limits) (mkbuf (sample_head @ sample_tail)) of
     Inr (r, p, b) \<Rightarrow> r = COMPLETE \<and> contents b = [] \<and> rq_path (hp_request p) = ''/a'' \<and> length (http_response (hp_request p)) < 200 \<and>
       (case parse (reset p) (mkbuf []) of Inr (r, _, _) \<Rightarrow> r = INCOMPLETE | Inl _ \<Rightarrow> False)
   | Inl _ \<Rightarrow> False"
  by code_simp+

lemma demo_writes:
  assumes "data \<noteq> []" and "length data < 200"
  shows "\<exists>res n k. await_write (demo_net recvs [Inr 200]) data (demo_call 0 []) = Some (Returns res, n, [data], k) \<and> io_stat res = Ok"
proof -
  let ?net = "demo_net recvs [Inr 200]"
  have l: "(0::size_t) < word_of_nat (length data)" using assms by (simp add: word_less_nat_alt unat_of_nat_64 length_greater_0_conv)
  have "retry (\<lambda>errno. errno = EINTR) (nt_send ?net 5 data) (demo_clock 0) = Some (Inr (length data), demo_clock 1)"
    using assms(2) by (subst retry.simps) (simp add: demo_net_def demo_clock_def)
  with l assms have "write_turn ?net data dl 5 0 [] (demo_clock 0) = write_turn ?net data dl 5 (word_of_nat (length data)) [data] (demo_clock 1)" for dl
    by (subst write_turn.simps) simp
  then have "write_turn ?net data dl 5 0 [] (demo_clock 0) =
      Some (Returns \<lparr>io_stat = Ok, io_bytes = word_of_nat (length data), io_error_code = 0\<rparr>, word_of_nat (length data), [data], demo_clock 1)" for dl
    by (subst (asm) (2) write_turn.simps) simp
  then show ?thesis
    by (auto simp: await_write_def write_all_def write_start_def demo_call_def Deadline_def kNoTimeout_def Let_def)
qed

lemma sample_specs:
  obtains p0 p1 p2 where "spec_parse (HttpParser default_limits) [] = (INCOMPLETE, p0, [])" "parser_ok p0"
    "spec_parse p0 sample_head = (INCOMPLETE, p1, sample_head)" "parser_ok p1"
    "spec_parse p1 (sample_head @ sample_tail) = (COMPLETE, p2, [])" "parser_ok (reset p2)"
    "fst (spec_parse (reset p2) []) = INCOMPLETE" "rq_path (hp_request p2) = ''/a''" "length (http_response (hp_request p2)) < 200"
proof -
  let ?p = "HttpParser default_limits"
  note fresh = mkbuf_inv [of "[]", simplified] mkbuf_contents [of "[]", simplified]
  obtain p0 b0 where "parse ?p (mkbuf []) = Inr (INCOMPLETE, p0, b0)" "contents b0 = []" using sample_requests(1) by (auto split: sum.splits)
  from parse_keeps [OF sample_inv(1) _ this(1)] this(2) fresh
  have s0: "spec_parse ?p [] = (INCOMPLETE, p0, [])" "parser_ok p0" by (simp_all add: parser_inv_def)
  obtain p1 b1 where "parse ?p (mkbuf sample_head) = Inr (INCOMPLETE, p1, b1)" "contents b1 = sample_head" using sample_requests(2) by (auto split: sum.splits)
  from parse_keeps [OF sample_inv(1,2) this(1)] this(2) spec_parse_fragments [OF s0(1), of sample_head]
  have s1: "spec_parse p0 sample_head = (INCOMPLETE, p1, sample_head)" "spec_parse ?p sample_head = (INCOMPLETE, p1, sample_head)" "parser_ok p1"
    by (simp_all add: parser_inv_def sample_inv)
  obtain p2 b2 p3 b3 where p2: "parse ?p (mkbuf (sample_head @ sample_tail)) = Inr (COMPLETE, p2, b2)" "contents b2 = []"
      "rq_path (hp_request p2) = ''/a''" "length (http_response (hp_request p2)) < 200" "parse (reset p2) (mkbuf []) = Inr (INCOMPLETE, p3, b3)"
    using sample_requests(3) by (auto split: sum.splits)
  from parse_keeps [OF sample_inv(1,4) p2(1)] p2(2) spec_parse_fragments [OF s1(2), of sample_tail]
  have s2: "spec_parse p1 (sample_head @ sample_tail) = (COMPLETE, p2, [])" "parser_inv (reset p2)" by (simp_all add: sample_inv parser_inv_reset)
  from parse_keeps [OF s2(2) _ p2(5)] fresh have "fst (spec_parse (reset p2) []) = INCOMPLETE" by simp
  with s0 s1(1,3) s2 p2(3,4) show ?thesis by (intro that) (simp_all add: parser_inv_def)
qed


end
