(* ===== verification/Spec2Isabelle.thy ===== *)
theory Spec2Isabelle
  imports Prelude Buffer Http_Parser Http_Spec Http_Props Http_Roundtrip
    Effects Event_Loop Task Io_Context Io_Inv Io_Wait Io_Ops Io_Run Coroutines Coroutine_Inv
    Programs Termination Io_Spec Executor Ring Spsc_Queue Mpmc_Queue Thread_Pool Tcp_Stream
    Tcp_Connection Tcp_Server Callback_Servers Coroutine_Servers
begin

text \<open>
  A verification development for tinycoro, a small C++20 library for coroutine I/O on Linux. Paths are those of
  the repository, below \<open>src/\<close>.

  \<^bold>\<open>The program.\<close> \<open>EventLoop\<close> wraps epoll: it keeps a table from descriptors to channels and calls the handlers
  of the channels whose descriptors are ready. Two stacks are built on it. In the first, \<open>Task\<close> is a lazily started
  coroutine, \<open>IoContext\<close> runs coroutines, resumes those that wait for a descriptor or a timer, and \<open>TcpStream\<close> and
  \<open>TcpListener\<close> offer sockets to coroutines. In the second, \<open>TcpServer\<close> and \<open>TcpConnection\<close> call functions of the
  program. Both use \<open>Buffer\<close>, and the example servers of both use \<open>HttpParser\<close>. Beside them there are a thread pool
  and two lock-free queues, one of which the pool uses.

  \<^bold>\<open>Conventions.\<close> A class is a record with its members; an object that is shared or has a lifetime of its own sits at an
  address in a finite map, so that a dangling pointer is a lookup that fails. \<open>size_t\<close> is \<open>64 word\<close>. Code that may throw
  returns a sum, \<open>Inl\<close> the exception; stateful code is a function from a state to a sum and a state (\<open>Effects\<close>), so what
  was done before an exception stays done. Undefined behaviour is the exception \<open>Undefined_behaviour\<close>, which \<open>ecatch\<close>
  lets pass and of which the safety theorems show that it does not occur. A loop that may not end is a
  \<open>partial_function\<close> with \<open>None\<close> for not returning; where the development says that it returns, that is proved. The system
  calls are the fields of two records, \<open>os\<close> (epoll and the clock) and \<open>net\<close> (sockets), over an arbitrary state of the
  kernel; what is assumed of them is named: \<open>wait_bounded\<close> (\<open>epoll_wait\<close> returns no more events than asked for),
  \<open>net_bounded\<close> (\<open>recv\<close> and \<open>send\<close> handle no more bytes than asked for), \<open>epoll_contract\<close> and \<open>fd_contract\<close> (the kernel's tables
  change as documented), \<open>interrupts_end\<close> and \<open>calms\<close> (calls are not interrupted, and data and connections do not arrive, for ever).

  \<^bold>\<open>Buffer and parser.\<close>
  \<^item> \<open>Buffer\<close> models \<open>include/tinycoro/buffer.h\<close>, with every access to the vector checked; \<open>contents\<close> are the
    bytes between the cursors. The locale \<open>byte_buffer\<close> is the contract that the parser relies on.
    Appending, consuming and searching do to \<open>contents\<close> what they mean to, or throw exactly when they must.
  \<^item> \<open>Http_Parser\<close> models \<open>src/http_parser.cpp\<close>. \<open>Http_Spec\<close> has a reference parser on byte strings and the refinement;
    \<open>Http_Props\<close> shows independence of fragmentation, pipelining and the limits; \<open>Http_Roundtrip\<close> that printing and
    parsing a request gives it back, and a boundary case in which the verdict depends on the fragmentation.

  \<^bold>\<open>Coroutines.\<close>
  \<^item> \<open>Event_Loop\<close> models \<open>src/event_loop.cpp\<close>; the loop's table and the kernel's agree. The locale \<open>loop_client\<close> is the contract
    between the loop and the owners of channels: handlers keep an invariant by which registered channels exist. It is
    interpreted for the executor in \<open>Io_Ops\<close> and, through \<open>calm_server\<close>, for the callback server.
  \<^item> \<open>Task\<close> models \<open>include/tinycoro/task.h\<close>: frames, promises, the awaiter, and the operations of \<open>Task\<close>; each frame has one owner.
  \<^item> \<open>Io_Context\<close> and \<open>Io_Run\<close> model \<open>src/io_context.cpp\<close>: waits, timers, cancellation, spawning, \<open>run\<close> and the destructor.
    \<open>Io_Inv\<close>, \<open>Io_Wait\<close> and \<open>Io_Ops\<close> have the invariant (owners of frames, where each suspended frame is woken from,
    registrations) and that every operation keeps it; \<open>Io_Spec\<close> says what arming, readiness and expiry do.
  \<^item> \<open>Coroutines\<close> and \<open>Programs\<close> stand for the code that uses the library: a program is any script of operations, so the
    theorems hold for all programs. The locale \<open>coroutine_code\<close> is what the scheduler relies on; \<open>Coroutine_Inv\<close> proves it for all
    scripts. \<open>Executor\<close> and \<open>Termination\<close> have the properties of all programs: nothing undefined happens, \<open>run\<close> leaves nothing
    behind and returns if the coroutines do not wait for the outside, no wake-up is lost, awaited values and
    exceptions arrive, and the destructor releases everything.
  \<^item> \<open>Tcp_Stream\<close> models \<open>src/tcp_stream.cpp\<close>: each operation as its turns between suspensions, with anything happening in
    between. Bytes are delivered and sent in order, turns end, closing ends the operations in progress, and
    descriptors are not lost.
  \<^item> \<open>Coroutine_Servers\<close> models \<open>serve_echo\<close> and \<open>serve_http\<close> of \<open>examples/echo_server.cpp\<close> and \<open>examples/http_echo.cpp\<close> on top of
    these: the first sends back what it receives, the second answers the requests of the stream in order.

  \<^bold>\<open>Callbacks.\<close>
  \<^item> \<open>Tcp_Connection\<close> and \<open>Tcp_Server\<close> model \<open>src/tcp_connection.cpp\<close> and \<open>src/tcp_server.cpp\<close>. Connections live as long as a shared
    pointer to them: an entry of the server's table, a variable of the program or an argument of a call in progress. The functions
    in a \<open>std::function\<close> are numbers; 0 is the close callback that the server installs. The locales \<open>connection_client\<close>,
    \<open>server_client\<close> and \<open>calm_server\<close> say what the functions of the program may do. A connection sends what it is given in
    order; for all such functions the server touches no connection that is gone and its handlers end; its destructor ends and cleans up.
  \<^item> \<open>Callback_Servers\<close> models \<open>examples/callback_echo_server.cpp\<close>, which is safe, and the callbacks of
    \<open>examples/callback_http_echo.cpp\<close>, which use an invalid iterator when sending a response fails.

  \<^bold>\<open>Threads.\<close>
  \<^item> \<open>Ring\<close>, \<open>Spsc_Queue\<close> and \<open>Mpmc_Queue\<close> model \<open>include/tinycoro/queue.h\<close>. Each access to an atomic variable or a slot is a step, and
    threads interleave arbitrarily. Both queues fulfil the contract \<open>bounded_queue\<close> when called from one thread; in every
    interleaving elements come out once and in order, and no slot is accessed by two threads at once.
  \<^item> \<open>Thread_Pool\<close> models \<open>src/thread_pool.cpp\<close> over the steps of \<open>Mpmc_Queue\<close>: \<open>shutdown\<close> returns after every accepted task has
    run once, no exception is lost, and the threads do not deadlock.

  \<^bold>\<open>Bounds.\<close> Fuel is used in the specification \<open>spec_parse\<close> only, as the number of states that a parser can still pass, which
  suffices by \<open>spec_loop_fuel\<close>. The theorems on \<open>MPMCQueue\<close> hold while fewer than \<open>2^63 - Capacity\<close> elements have been
  pushed; \<open>mpmc_push_overflow\<close> shows what happens at that bound. The termination of \<open>run\<close> is by a
  measure on the rest of the script and the number of frames.

  \<^bold>\<open>Simplifications.\<close> Atomic accesses are sequentially consistent and sections under \<open>errors_mutex_\<close> are single steps. Ties
  in the priority queue of timers and the order of \<open>unordered_map\<close> are fixed. \<open>EWOULDBLOCK\<close> is \<open>EAGAIN\<close>, as on Linux. The
  sum of the clock and a timeout does not overflow. Allocation fails only where the source handles it, in
  \<open>handle_accept\<close> and \<open>adopt\<close>, and where a container exceeds its maximal size. The destructor of a server whose connections had their close callback replaced
  by the program is not covered: such a connection stays in the table after \<open>close()\<close>, and the loop of the
  destructor does not end.

  \<^bold>\<open>Not modelled.\<close> The branches for platforms without \<open>MSG_NOSIGNAL\<close> or with \<open>SO_NOSIGPIPE\<close>, which are not compiled on Linux; signal handlers
  and the asynchronous calls of \<open>stop\<close> from them; printing and the parsing of command lines; the accept loops of the two coroutine
  examples and \<open>main\<close> of three examples, which only combine modelled operations; a second \<open>shutdown\<close> that runs at the same
  time as the first; tests, the benchmark and the build files, which are not part of the library.
\<close>

end
